(* ===== verification/Prelude.thy ===== *)
theory Prelude
  imports Main "HOL-Library.Word"
begin

unbundle bit_operations_syntax

text \<open>
  The shared vocabulary of the development: machine integers, the byte-addressed memory with its
  little-endian 64-bit accesses, the outcome type of a kernel function (it returns, it panics, or
  it goes to sleep on a channel), and the generic lemmas on words, alignment and lists that the
  component theories use.
\<close>

section \<open>Machine types\<close>

type_synonym u8 = "8 word"
type_synonym u16 = "16 word"
type_synonym u32 = "32 word"
type_synonym u64 = "64 word"

type_synonym mem = "u64 \<Rightarrow> u8"

section \<open>Outcomes of kernel functions\<close>

text \<open>
  A channel is the \<open>void *\<close> that \<open>sleep\<close> and \<open>wakeup\<close> compare: the address of the kernel object
  a process waits for.  The model names the objects instead of giving them addresses.
\<close>

datatype chan =
    ChanNull
  | ChanProc nat
  | ChanTicks
  | ChanLog
  | ChanBufLock nat
  | ChanInodeLock nat
  | ChanPipeRead u64
  | ChanPipeWrite u64
  | ChanCons
  | ChanUartTx
  | ChanDiskFree
  | ChanDiskBuf nat

text \<open>
  \<open>Panic m\<close> is a call of \<open>panic(m)\<close>, which never returns.  \<open>Sleep c\<close> says that the run reached
  \<open>sleep(c, lk)\<close>: the calling process gives up the CPU there, and what it does afterwards depends
  on the other processes.  \<open>Diverge\<close> is a loop or a recursion that does not end.
\<close>

datatype 'a res = Ret 'a | Panic string | Sleep chan | Diverge

fun bindr :: "'a res \<Rightarrow> ('a \<Rightarrow> 'b res) \<Rightarrow> 'b res" where
  "bindr (Ret x) f = f x"
| "bindr (Panic e) f = Panic e"
| "bindr (Sleep c) f = Sleep c"
| "bindr Diverge f = Diverge"

definition of_option_res :: "'a res option \<Rightarrow> 'a res" where
  "of_option_res r = (case r of None \<Rightarrow> Diverge | Some x \<Rightarrow> x)"

named_theorems res_simps

lemma bindr_eq_Ret [res_simps]:
  "bindr r f = Ret y \<longleftrightarrow> (\<exists>x. r = Ret x \<and> f x = Ret y)"
  by (cases r) auto

lemma bindr_assoc: "bindr (bindr r f) g = bindr r (\<lambda>x. bindr (f x) g)"
  by (cases r) auto

lemma bindr_cong [fundef_cong]:
  "r = r' \<Longrightarrow> (\<And>x. r' = Ret x \<Longrightarrow> f x = g x) \<Longrightarrow> bindr r f = bindr r' g"
  by (cases r') auto

section \<open>Alignment\<close>

definition aligned :: "nat \<Rightarrow> u64 \<Rightarrow> bool" where
  "aligned k a \<longleftrightarrow> unat a mod 2 ^ k = 0"

lemma unat_less_2p64: "unat (x :: u64) < 2 ^ 64"
  using unsigned_less [of x, where ?'a = nat] by simp

lemma unat_diff_eq:
  "unat (x - a :: u64) = (if a \<le> x then unat x - unat a else unat x + 2 ^ 64 - unat a)"
  by (simp add: unat_sub_if_size word_size word_le_nat_alt)

lemma unat_add_eq: "unat (x + y :: u64) = (unat x + unat y) mod 2 ^ 64"
  by (simp add: unat_word_ariths)

lemma unat_2p: "k < 64 \<Longrightarrow> unat ((2 :: u64) ^ k) = 2 ^ k"
  using unat_of_nat [of "2 ^ k", where ?'a = 64] power_strict_increasing [of k 64 "2 :: nat"] by simp

lemma nat_div_eq_iff: "0 < d \<Longrightarrow> n div d = q \<longleftrightarrow> q * d \<le> n \<and> n < q * d + d" for d n q :: nat
proof
  assume d: "0 < d" and eq: "n div d = q"
  have "q * d \<le> n" unfolding eq [symmetric] by (rule div_times_less_eq_dividend)
  moreover have "n < q * d + d" unfolding eq [symmetric] by (rule dividend_less_div_times [OF d, THEN ord_less_eq_trans]) simp
  ultimately show "q * d \<le> n \<and> n < q * d + d" ..
next
  assume "q * d \<le> n \<and> n < q * d + d"
  then show "n div d = q" by (intro div_nat_eqI) (simp_all add: mult.commute)
qed

lemma aligned_block_iff:
  assumes "aligned k a" and "k < 64"
  shows "x - a < 2 ^ k \<longleftrightarrow> unat x div 2 ^ k = unat a div 2 ^ k"
proof -
  obtain q where q: "unat a = q * 2 ^ k"
    using assms(1) by (auto simp: aligned_def elim!: dvdE simp flip: dvd_eq_mod_eq_0)
  have split: "(2 :: nat) ^ 64 = 2 ^ (64 - k) * 2 ^ k"
    using assms(2) by (simp flip: power_add)
  have q_less: "q < 2 ^ (64 - k)"
    using unat_less_2p64 [of a] unfolding q split by simp
  have room: "unat a + 2 ^ k \<le> 2 ^ 64"
  proof -
    have "(q + 1) * 2 ^ k \<le> 2 ^ (64 - k) * 2 ^ k"
      using q_less by (intro mult_le_mono1) simp
    then show ?thesis unfolding split q by simp
  qed
  have "x - a < 2 ^ k \<longleftrightarrow> unat (x - a) < 2 ^ k"
    using assms(2) by (simp add: word_less_nat_alt unat_2p)
  also have "\<dots> \<longleftrightarrow> unat a \<le> unat x \<and> unat x < unat a + 2 ^ k"
    using room unat_less_2p64 [of x] by (auto simp: unat_diff_eq word_le_nat_alt)
  also have "\<dots> \<longleftrightarrow> unat x div 2 ^ k = q"
    unfolding q by (auto simp: nat_div_eq_iff algebra_simps)
  finally show ?thesis by (simp add: q)
qed

lemma aligned_blocks_disjoint:
  assumes "aligned k a" "aligned k b" "k < 64" "x - a < 2 ^ k" "x - b < 2 ^ k"
  shows "a = b"
proof -
  have "unat a div 2 ^ k = unat b div 2 ^ k"
    using assms by (simp add: aligned_block_iff)
  then have "unat a = unat b"
    using assms(1,2) by (metis aligned_def mod_div_mult_eq)
  then show ?thesis by (simp add: word_unat_eq_iff)
qed

lemma aligned_weaken: "aligned k a \<Longrightarrow> j \<le> k \<Longrightarrow> aligned j a"
  by (auto simp: aligned_def le_imp_power_dvd simp flip: dvd_eq_mod_eq_0 intro: dvd_trans)

lemma eq_offset_iff: "i < 2 ^ 64 \<Longrightarrow> x = p + of_nat i \<longleftrightarrow> unat (x - p) = i" for x p :: u64
proof -
  assume i: "i < 2 ^ 64"
  have "x = p + of_nat i \<longleftrightarrow> x - p = of_nat i" by (auto simp: algebra_simps)
  also have "\<dots> \<longleftrightarrow> unat (x - p) = i" using i by (simp add: word_unat_eq_iff unat_of_nat)
  finally show ?thesis .
qed

lemma unat_diff_Suc: "x \<noteq> p \<Longrightarrow> unat (x - p) = Suc (unat (x - (p + 1)))" for x p :: u64
proof -
  assume "x \<noteq> p"
  then have nz: "x - p \<noteq> 0" by simp
  have "x - (p + 1) = (x - p) - 1" by (simp add: algebra_simps)
  then have "unat (x - (p + 1)) = unat (x - p) - 1" by (simp only: unat_minus_one [OF nz])
  with nz show ?thesis by (metis Suc_pred' unat_gt_0)
qed

section \<open>Memory accesses\<close>

fun load_bytes :: "mem \<Rightarrow> u64 \<Rightarrow> nat \<Rightarrow> u64" where
  "load_bytes m a 0 = 0"
| "load_bytes m a (Suc k) = load_bytes m a k OR push_bit (8 * k) (ucast (m (a + of_nat k)))"

definition load64 :: "mem \<Rightarrow> u64 \<Rightarrow> u64" where
  "load64 m a = load_bytes m a 8"

definition store64 :: "mem \<Rightarrow> u64 \<Rightarrow> u64 \<Rightarrow> mem" where
  "store64 m a v = (\<lambda>x. if x - a < 8 then ucast (drop_bit (8 * unat (x - a)) v) else m x)"

lemma bit_load_bytes:
  "bit (load_bytes m a k) n \<longleftrightarrow> n < 8 * k \<and> n < 64 \<and> bit (m (a + of_nat (n div 8))) (n mod 8)"
proof (induction k)
  case 0
  then show ?case by simp
next
  case (Suc k)
  have "bit (push_bit (8 * k) (ucast (m (a + of_nat k)) :: u64)) n \<longleftrightarrow>
      8 * k \<le> n \<and> n < 8 * Suc k \<and> n < 64 \<and> bit (m (a + of_nat (n div 8))) (n mod 8)"
  proof (cases "8 * k \<le> n \<and> n < 8 * Suc k")
    case True
    then have "n div 8 = k" by auto
    then have "n mod 8 = n - 8 * k" by (simp add: minus_mult_div_eq_mod [symmetric])
    with True \<open>n div 8 = k\<close> show ?thesis by (auto simp: bit_simps)
  next
    case False
    then show ?thesis by (auto simp: bit_simps dest: bit_imp_le_length)
  qed
  with Suc show ?case by (auto simp: bit_simps)
qed

lemma bit_load64:
  "bit (load64 m a) n \<longleftrightarrow> n < 64 \<and> bit (m (a + of_nat (n div 8))) (n mod 8)"
  by (auto simp: load64_def bit_load_bytes)

lemma load64_cong:
  assumes "\<And>i. i < 8 \<Longrightarrow> m (a + of_nat i) = m' (b + of_nat i)"
  shows "load64 m a = load64 m' b"
  by (rule bit_word_eqI) (simp add: bit_load64 assms)

lemma load64_store64_same [simp]: "load64 (store64 m a v) a = v"
proof (rule bit_word_eqI)
  fix n assume n: "n < LENGTH(64)"
  then have i: "n div 8 < 8" by simp
  then have "(of_nat (n div 8) :: u64) < 8"
    by (simp add: word_less_nat_alt unat_of_nat)
  with i n show "bit (load64 (store64 m a v) a) n = bit v n"
    by (simp add: bit_load64 store64_def bit_simps unat_of_nat)
qed

lemma store64_outside [simp]: "\<not> x - a < 8 \<Longrightarrow> store64 m a v x = m x"
  by (simp add: store64_def)

lemma offset_in_block:
  assumes "aligned k a" "k < 64" "i < 2 ^ k"
  shows "a + of_nat i - a < 2 ^ k"
proof -
  have "i mod 2 ^ 64 \<le> i" by simp
  also note \<open>i < 2 ^ k\<close>
  finally show ?thesis using assms(2) by (simp add: word_less_nat_alt unat_of_nat unat_2p)
qed

lemma load64_store64_other:
  assumes "aligned 3 a" "aligned 3 b" "a \<noteq> b"
  shows "load64 (store64 m a v) b = load64 m b"
proof (rule load64_cong)
  fix i :: nat assume "i < 8"
  then have "b + of_nat i - b < 2 ^ 3"
    using assms(2) by (intro offset_in_block) auto
  then have "\<not> b + of_nat i - a < 2 ^ 3"
    using aligned_blocks_disjoint [of 3 a b "b + of_nat i"] assms by auto
  then show "store64 m a v (b + of_nat i) = m (b + of_nat i)" by simp
qed

end
