(* ===== verification/Kstring.thy ===== *)
theory Kstring
  imports Prelude
begin

text \<open>
  The kernel's byte and string routines, \<^verbatim>\<open>kernel/string.c\<close>, as functions on the byte memory.  Each loop
  of the source is a recursive function; the closed forms \<open>fill\<close> and \<open>blit\<close> say what \<open>memset\<close> and
  \<open>memmove\<close> leave in memory, and the component theories use those through the equations proved here.
\<close>

section \<open>The routines\<close>

text \<open>\<open>memset\<close>: the loop index \<open>i\<close> runs from 0 to \<open>n\<close>; the \<open>int\<close> argument is narrowed to a byte.\<close>

function memset_loop :: "mem \<Rightarrow> u64 \<Rightarrow> u8 \<Rightarrow> nat \<Rightarrow> nat \<Rightarrow> mem" where
  "memset_loop m dst c i n =
     (if i < n then memset_loop (m(dst + of_nat i := c)) dst c (Suc i) n else m)"
  by pat_completeness auto
termination
  by (relation "measure (\<lambda>(m, dst, c, i, n). n - i)") auto

declare memset_loop.simps [simp del]

definition memset :: "mem \<Rightarrow> u64 \<Rightarrow> u32 \<Rightarrow> u32 \<Rightarrow> mem" where
  "memset m dst c n = memset_loop m dst (ucast c) 0 (unat n)"

fun memcmp :: "mem \<Rightarrow> u64 \<Rightarrow> u64 \<Rightarrow> nat \<Rightarrow> int" where
  "memcmp m s1 s2 0 = 0"
| "memcmp m s1 s2 (Suc n) =
     (if m s1 \<noteq> m s2 then uint (m s1) - uint (m s2) else memcmp m (s1 + 1) (s2 + 1) n)"

text \<open>\<open>memmove\<close>: the two copy loops, backwards and forwards, and the overlap test that picks one.\<close>

fun copy_back :: "mem \<Rightarrow> u64 \<Rightarrow> u64 \<Rightarrow> nat \<Rightarrow> mem" where
  "copy_back m d s 0 = m"
| "copy_back m d s (Suc n) = copy_back (m(d - 1 := m (s - 1))) (d - 1) (s - 1) n"

fun copy_fwd :: "mem \<Rightarrow> u64 \<Rightarrow> u64 \<Rightarrow> nat \<Rightarrow> mem" where
  "copy_fwd m d s 0 = m"
| "copy_fwd m d s (Suc n) = copy_fwd (m(d := m s)) (d + 1) (s + 1) n"

definition memmove :: "mem \<Rightarrow> u64 \<Rightarrow> u64 \<Rightarrow> u32 \<Rightarrow> mem" where
  "memmove m dst src n =
     (if n = 0 then m
      else if src < dst \<and> src + ucast n > dst
      then copy_back m (dst + ucast n) (src + ucast n) (unat n)
      else copy_fwd m dst src (unat n))"

definition memcpy :: "mem \<Rightarrow> u64 \<Rightarrow> u64 \<Rightarrow> u32 \<Rightarrow> mem" where
  "memcpy m dst src n = memmove m dst src n"

fun strncmp :: "mem \<Rightarrow> u64 \<Rightarrow> u64 \<Rightarrow> nat \<Rightarrow> int" where
  "strncmp m p q n =
     (if n > 0 \<and> m p \<noteq> 0 \<and> m p = m q then strncmp m (p + 1) (q + 1) (n - 1)
      else if n = 0 then 0
      else uint (m p) - uint (m q))"

declare strncmp.simps [simp del]

text \<open>\<open>strncpy\<close>: the copy loop stops after a NUL or after \<open>n\<close> bytes, the second loop pads with NULs.\<close>

fun strncpy_pad :: "mem \<Rightarrow> u64 \<Rightarrow> nat \<Rightarrow> mem" where
  "strncpy_pad m s 0 = m"
| "strncpy_pad m s (Suc n) = strncpy_pad (m(s := 0)) (s + 1) n"

fun strncpy_copy :: "mem \<Rightarrow> u64 \<Rightarrow> u64 \<Rightarrow> nat \<Rightarrow> mem" where
  "strncpy_copy m s t 0 = m"
| "strncpy_copy m s t (Suc n) =
     (let c = m t; m' = m(s := c) in
      if c \<noteq> 0 then strncpy_copy m' (s + 1) (t + 1) n else strncpy_pad m' (s + 1) n)"

definition strncpy :: "mem \<Rightarrow> u64 \<Rightarrow> u64 \<Rightarrow> int \<Rightarrow> mem" where
  "strncpy m s t n = strncpy_copy m s t (nat n)"

text \<open>\<open>safestrcpy\<close>: copies at most \<open>n - 1\<close> bytes and always stores a NUL where it stopped.\<close>

fun safestrcpy_loop :: "mem \<Rightarrow> u64 \<Rightarrow> u64 \<Rightarrow> nat \<Rightarrow> mem" where
  "safestrcpy_loop m s t 0 = m(s := 0)"
| "safestrcpy_loop m s t (Suc n) =
     (let c = m t; m' = m(s := c) in
      if c \<noteq> 0 then safestrcpy_loop m' (s + 1) (t + 1) n else m'(s + 1 := 0))"

definition safestrcpy :: "mem \<Rightarrow> u64 \<Rightarrow> u64 \<Rightarrow> int \<Rightarrow> mem" where
  "safestrcpy m s t n = (if n \<le> 0 then m else safestrcpy_loop m s t (nat (n - 1)))"

text \<open>\<open>strlen\<close> scans for the NUL and does not stop without one: its model returns an option.\<close>

partial_function (option) strlen_loop :: "mem \<Rightarrow> u64 \<Rightarrow> nat \<Rightarrow> nat option" where
  "strlen_loop m s n = (if m (s + of_nat n) \<noteq> 0 then strlen_loop m s (Suc n) else Some n)"

definition strlen :: "mem \<Rightarrow> u64 \<Rightarrow> nat option" where
  "strlen m s = strlen_loop m s 0"

section \<open>Closed forms\<close>

definition fill :: "mem \<Rightarrow> u64 \<Rightarrow> u8 \<Rightarrow> nat \<Rightarrow> mem" where
  "fill m p c n = (\<lambda>x. if unat (x - p) < n then c else m x)"

definition blit :: "mem \<Rightarrow> u64 \<Rightarrow> u64 \<Rightarrow> nat \<Rightarrow> mem" where
  "blit m d s n = (\<lambda>x. if unat (x - d) < n then m (s + (x - d)) else m x)"

text \<open>The NUL-terminated byte string at an address.\<close>

fun cstr :: "mem \<Rightarrow> u64 \<Rightarrow> u8 list \<Rightarrow> bool" where
  "cstr m p [] \<longleftrightarrow> m p = 0"
| "cstr m p (x # xs) \<longleftrightarrow> m p = x \<and> x \<noteq> 0 \<and> cstr m (p + 1) xs"

lemma memset_loop_eq:
  "n \<le> 2 ^ 64 \<Longrightarrow>
    memset_loop m dst c i n = (\<lambda>x. if i \<le> unat (x - dst) \<and> unat (x - dst) < n then c else m x)"
proof (induction m dst c i n rule: memset_loop.induct)
  case (1 m dst c i n)
  show ?case
  proof (cases "i < n")
    case True
    with "1.prems" have "i < 2 ^ 64" by simp
    then have off: "\<And>x. x = dst + of_nat i \<longleftrightarrow> unat (x - dst) = i" by (rule eq_offset_iff)
    have "memset_loop m dst c i n = memset_loop (m(dst + of_nat i := c)) dst c (Suc i) n"
      using True by (simp add: memset_loop.simps [of m dst c i n])
    also have "\<dots> = (\<lambda>x. if Suc i \<le> unat (x - dst) \<and> unat (x - dst) < n then c
        else (m(dst + of_nat i := c)) x)"
      by (rule "1.IH" [OF True "1.prems"])
    also have "\<dots> = (\<lambda>x. if i \<le> unat (x - dst) \<and> unat (x - dst) < n then c else m x)"
      using True by (auto simp: fun_eq_iff off)
    finally show ?thesis .
  next
    case False
    then show ?thesis by (subst memset_loop.simps) (auto simp: fun_eq_iff)
  qed
qed

lemma unat_u32_le: "unat (n :: u32) < 2 ^ 32"
  using unsigned_less [of n, where ?'a = nat] by simp

lemma memset_eq: "memset m dst c n = fill m dst (ucast c) (unat n)"
  using unat_u32_le [of n] by (simp add: memset_def fill_def memset_loop_eq)

lemma copy_fwd_eq:
  assumes "\<And>i j. i < j \<Longrightarrow> j < k \<Longrightarrow> d + of_nat i \<noteq> s + of_nat j"
  shows "copy_fwd m d s k = blit m d s k"
  using assms
proof (induction k arbitrary: m d s)
  case 0
  then show ?case by (simp add: blit_def)
next
  case (Suc k)
  have ok: "(d + 1) + of_nat i \<noteq> (s + 1) + of_nat j" if "i < j" "j < k" for i j
    using Suc.prems [of "Suc i" "Suc j"] that by (simp add: algebra_simps)
  have d: "s + of_nat (Suc i) \<noteq> d" if "i < k" for i
    using Suc.prems [of 0 "Suc i"] that by auto
  have "copy_fwd m d s (Suc k) = blit (m(d := m s)) (d + 1) (s + 1) k"
    using Suc.IH [OF ok] by simp
  also have "\<dots> = blit m d s (Suc k)"
  proof
    fix x
    have "s + 1 + (x - (d + 1)) \<noteq> d" if "unat (x - (d + 1)) < k"
      using d [OF that] by (simp add: algebra_simps)
    then show "blit (m(d := m s)) (d + 1) (s + 1) k x = blit m d s (Suc k) x"
      by (cases "x = d") (auto simp: blit_def unat_diff_Suc)
  qed
  finally show ?case .
qed

lemma copy_back_eq:
  assumes "k < 2 ^ 64"
    and "\<And>i j. j < i \<Longrightarrow> i < k \<Longrightarrow> d + of_nat i \<noteq> s + of_nat j"
  shows "copy_back m (d + of_nat k) (s + of_nat k) k = blit m d s k"
  using assms
proof (induction k arbitrary: m)
  case 0
  then show ?case by (simp add: blit_def)
next
  case (Suc k)
  let ?m = "m(d + of_nat k := m (s + of_nat k))"
  have "copy_back m (d + of_nat (Suc k)) (s + of_nat (Suc k)) (Suc k) =
      copy_back ?m (d + of_nat k) (s + of_nat k) k"
    by (simp add: algebra_simps)
  also have "\<dots> = blit ?m d s k"
    using Suc.prems by (intro Suc.IH) auto
  also have "\<dots> = blit m d s (Suc k)"
  proof
    fix x
    have k: "k < 2 ^ 64" using Suc.prems(1) by simp
    have "s + (x - d) \<noteq> d + of_nat k" if "unat (x - d) < k"
      using Suc.prems(2) [of "unat (x - d)" k] that by auto
    then show "blit ?m d s k x = blit m d s (Suc k) x"
      by (auto simp: blit_def eq_offset_iff [OF k] less_Suc_eq)
  qed
  finally show ?case .
qed

text \<open>
  \<open>memmove\<close> copies the bytes that were at \<open>src\<close> before the call, whether the two regions overlap or
  not: the overlap test selects the direction in which no source byte is overwritten before it is
  read.  The regions must not reach the end of the address space, where \<open>src + n\<close> wraps around.
\<close>

lemma memmove_eq:
  assumes "unat src + unat n < 2 ^ 64" and "unat dst + unat n < 2 ^ 64"
  shows "memmove m dst src n = blit m dst src (unat n)"
proof -
  have n: "of_nat (unat n) = (ucast n :: u64)" and un: "unat (ucast n :: u64) = unat n"
    using unat_u32_le [of n] by (simp_all add: unsigned_ucast_eq word_unat_eq_iff unat_of_nat take_bit_nat_eq_self)
  have lt: "unat n < 2 ^ 64" using unat_u32_le [of n] by simp
  have off: "unat (p + of_nat i) = unat p + i" if "unat p + i < 2 ^ 64" for p :: u64 and i
    using that by (simp add: unat_add_eq unat_of_nat mod_add_right_eq)
  have srcn: "unat (src + ucast n) = unat src + unat n"
    using assms(1) by (simp add: unat_add_eq un)
  show ?thesis
  proof (cases "src < dst \<and> src + ucast n > dst")
    case True
    then have ord: "unat src < unat dst" by (simp add: word_less_nat_alt)
    have "copy_back m (dst + of_nat (unat n)) (src + of_nat (unat n)) (unat n) = blit m dst src (unat n)"
    proof (intro copy_back_eq [OF lt])
      fix i j assume ij: "j < i" "i < unat n"
      have "unat (dst + of_nat i) \<noteq> unat (src + of_nat j)"
        using ord ij assms by (simp add: off)
      then show "dst + of_nat i \<noteq> src + of_nat j" by metis
    qed
    with True show ?thesis by (auto simp: memmove_def n blit_def)
  next
    case False
    then have ord: "unat dst \<le> unat src \<or> unat src + unat n \<le> unat dst"
      unfolding word_less_nat_alt srcn by linarith
    have "copy_fwd m dst src (unat n) = blit m dst src (unat n)"
    proof (intro copy_fwd_eq)
      fix i j assume ij: "i < j" "j < unat n"
      have "unat (dst + of_nat i) \<noteq> unat (src + of_nat j)"
        using ord ij assms by (auto simp: off)
      then show "dst + of_nat i \<noteq> src + of_nat j" by metis
    qed
    moreover have "memmove m dst src n = copy_fwd m dst src (unat n)"
      using False by (auto simp: memmove_def)
    ultimately show ?thesis by simp
  qed
qed

section \<open>Strings\<close>

text \<open>The \<open>n\<close> bytes from an address on, and the name they hold: the bytes before the first NUL.\<close>

fun bytes :: "mem \<Rightarrow> u64 \<Rightarrow> nat \<Rightarrow> u8 list" where
  "bytes m p 0 = []"
| "bytes m p (Suc n) = m p # bytes m (p + 1) n"

definition name_of :: "u8 list \<Rightarrow> u8 list" where
  "name_of bs = takeWhile (\<lambda>b. b \<noteq> 0) bs"

definition pad :: "nat \<Rightarrow> u8 list \<Rightarrow> u8 list" where
  "pad n bs = bs @ replicate (n - length bs) 0"

lemma name_of_simps [simp]:
  "name_of [] = []" "name_of (b # bs) = (if b = 0 then [] else b # name_of bs)"
  by (simp_all add: name_of_def)

lemma length_bytes [simp]: "length (bytes m p n) = n"
  by (induction n arbitrary: p) auto

lemma nth_bytes: "i < n \<Longrightarrow> bytes m p n ! i = m (p + of_nat i)"
  by (induction n arbitrary: p i) (auto simp: nth_Cons' algebra_simps split: nat.splits)

lemma bytes_cong: "(\<And>i. i < n \<Longrightarrow> m (p + of_nat i) = m' (q + of_nat i)) \<Longrightarrow> bytes m p n = bytes m' q n"
  by (rule nth_equalityI) (auto simp: nth_bytes)

lemma length_name_of: "length (name_of bs) \<le> length bs"
  by (simp add: name_of_def length_takeWhile_le)

lemma name_of_pad: "0 \<notin> set bs \<Longrightarrow> name_of (pad n bs) = bs"
  unfolding pad_def name_of_def by (subst takeWhile_append2) (auto simp: takeWhile_replicate)

lemma zero_notin_name_of: "0 \<notin> set (name_of bs)"
  by (induction bs) auto

lemma memcmp_eq_0_iff: "memcmp m p q n = 0 \<longleftrightarrow> bytes m p n = bytes m q n"
  by (induction m p q n rule: memcmp.induct) (auto simp: word_uint_eq_iff)

lemma strncmp_eq_0_iff: "strncmp m p q n = 0 \<longleftrightarrow> name_of (bytes m p n) = name_of (bytes m q n)"
proof (induction m p q n rule: strncmp.induct)
  case (1 m p q n)
  show ?case
  proof (cases n)
    case 0
    then show ?thesis by (simp add: strncmp.simps)
  next
    case (Suc k)
    with "1.IH" show ?thesis
      by (subst strncmp.simps) (auto simp: word_uint_eq_iff)
  qed
qed

lemma strncpy_pad_frame:
  assumes "\<And>i. i < n \<Longrightarrow> x \<noteq> s + of_nat i"
  shows "strncpy_pad m s n x = m x"
  using assms
proof (induction n arbitrary: m s)
  case (Suc n)
  have "x \<noteq> s" using Suc.prems [of 0] by simp
  moreover have "x \<noteq> s + 1 + of_nat i" if "i < n" for i
    using Suc.prems [of "Suc i"] that by (simp add: algebra_simps)
  then have "strncpy_pad (m(s := 0)) (s + 1) n x = (m(s := 0)) x" by (intro Suc.IH) auto
  ultimately show ?case by simp
qed simp

lemma strncpy_copy_frame:
  assumes "\<And>i. i < n \<Longrightarrow> x \<noteq> s + of_nat i"
  shows "strncpy_copy m s t n x = m x"
  using assms
proof (induction n arbitrary: m s t)
  case (Suc n)
  have "x \<noteq> s" using Suc.prems [of 0] by simp
  moreover have out: "x \<noteq> s + 1 + of_nat i" if "i < n" for i
    using Suc.prems [of "Suc i"] that by (simp add: algebra_simps)
  then have "strncpy_copy (m(s := m t)) (s + 1) (t + 1) n x = (m(s := m t)) x"
    by (intro Suc.IH) auto
  ultimately show ?case by (simp add: Let_def strncpy_pad_frame out)
qed simp

lemma offset_neq_self: "i < n \<Longrightarrow> n < 2 ^ 64 \<Longrightarrow> s \<noteq> s + 1 + of_nat i" for s :: u64
  using eq_offset_iff [of "Suc i" s s] by (simp add: algebra_simps)

lemma bytes_strncpy_pad: "n \<le> 2 ^ 64 \<Longrightarrow> bytes (strncpy_pad m s n) s n = replicate n 0"
proof (induction n arbitrary: m s)
  case (Suc n)
  have "strncpy_pad (m(s := 0)) (s + 1) n s = 0"
    using Suc.prems by (subst strncpy_pad_frame) (auto dest: offset_neq_self [of _ n s])
  with Suc show ?case by simp
qed simp

text \<open>
  \<open>strncpy\<close> leaves in its destination exactly the source's name, cut off or padded with NULs to
  \<open>n\<close> bytes, when source and destination do not overlap.
\<close>

lemma bytes_strncpy_copy:
  assumes "n \<le> 2 ^ 64" and "\<And>i j. i < n \<Longrightarrow> j < n \<Longrightarrow> s + of_nat i \<noteq> t + of_nat j"
  shows "bytes (strncpy_copy m s t n) s n = pad n (name_of (bytes m t n))"
  using assms
proof (induction n arbitrary: m s t)
  case 0
  then show ?case by (simp add: pad_def)
next
  case (Suc n)
  let ?m = "m(s := m t)"
  have s_out: "s \<noteq> s + 1 + of_nat i" if "i < n" for i
    using that Suc.prems(1) by (intro offset_neq_self [of _ n]) auto
  show ?case
  proof (cases "m t = 0")
    case True
    then have "bytes (strncpy_copy m s t (Suc n)) s (Suc n) =
        strncpy_pad ?m (s + 1) n s # bytes (strncpy_pad ?m (s + 1) n) (s + 1) n"
      by simp
    with True Suc.prems(1) show ?thesis
      by (simp add: bytes_strncpy_pad strncpy_pad_frame s_out pad_def)
  next
    case False
    have eq: "bytes ?m (t + 1) n = bytes m (t + 1) n"
    proof (rule bytes_cong)
      fix i assume "i < n"
      then have "s \<noteq> t + 1 + of_nat i" using Suc.prems(2) [of 0 "Suc i"] by (simp add: algebra_simps)
      then show "?m (t + 1 + of_nat i) = m (t + 1 + of_nat i)" by simp
    qed
    have "s + 1 + of_nat i \<noteq> t + 1 + of_nat j" if "i < n" "j < n" for i j
      using Suc.prems(2) [of "Suc i" "Suc j"] that by (simp add: algebra_simps)
    then have "bytes (strncpy_copy ?m (s + 1) (t + 1) n) (s + 1) n = pad n (name_of (bytes ?m (t + 1) n))"
      using Suc.prems(1) by (intro Suc.IH) auto
    note this [unfolded eq]
    moreover have "strncpy_copy ?m (s + 1) (t + 1) n s = m t"
      by (subst strncpy_copy_frame) (auto dest: s_out)
    ultimately show ?thesis
      using False by (simp add: pad_def)
  qed
qed

lemma strncpy_strncmp:
  assumes "0 \<le> n" "n \<le> 2 ^ 31"
    and "\<And>i j. i < nat n \<Longrightarrow> j < nat n \<Longrightarrow> s + of_nat i \<noteq> t + of_nat j"
  shows "strncmp (strncpy m s t n) t s (nat n) = 0"
proof -
  have n: "nat n \<le> 2 ^ 64" using assms(1,2) by simp
  have "bytes (strncpy m s t n) t (nat n) = bytes m t (nat n)"
    unfolding strncpy_def
    by (intro bytes_cong strncpy_copy_frame) (metis assms(3))
  then show ?thesis
    using bytes_strncpy_copy [OF n assms(3)]
    by (simp add: strncmp_eq_0_iff strncpy_def name_of_pad zero_notin_name_of)
qed

lemma safestrcpy_loop_frame:
  assumes "\<And>i. i \<le> n \<Longrightarrow> x \<noteq> s + of_nat i"
  shows "safestrcpy_loop m s t n x = m x"
  using assms
proof (induction n arbitrary: m s t)
  case 0
  then show ?case using "0.prems" [of 0] by simp
next
  case (Suc n)
  have s: "x \<noteq> s" using Suc.prems [of 0] by simp
  have out: "x \<noteq> s + 1 + of_nat i" if "i \<le> n" for i
    using Suc.prems [of "Suc i"] that by (simp add: algebra_simps)
  then have "safestrcpy_loop (m(s := m t)) (s + 1) (t + 1) n x = (m(s := m t)) x"
    by (intro Suc.IH) auto
  with s out [of 0] show ?case by (auto simp: Let_def)
qed

lemma safestrcpy_loop_name:
  assumes "n < 2 ^ 64 - 1" and "\<And>i j. i \<le> n \<Longrightarrow> j < n \<Longrightarrow> s + of_nat i \<noteq> t + of_nat j"
  shows "name_of (bytes (safestrcpy_loop m s t n) s (Suc n)) = name_of (bytes m t n) \<and>
    0 \<in> set (bytes (safestrcpy_loop m s t n) s (Suc n))"
  using assms
proof (induction n arbitrary: m s t)
  case 0
  then show ?case by simp
next
  case (Suc n)
  let ?m = "m(s := m t)"
  have s_out: "s \<noteq> s + 1 + of_nat i" if "i \<le> n" for i
    using that Suc.prems(1) by (intro offset_neq_self [of _ "Suc n"]) auto
  show ?case
  proof (cases "m t = 0")
    case True
    have "s \<noteq> s + 1" using s_out [of 0] by simp
    with True show ?thesis by simp
  next
    case False
    have eq: "bytes ?m (t + 1) n = bytes m (t + 1) n"
    proof (rule bytes_cong)
      fix i assume "i < n"
      then have "s \<noteq> t + 1 + of_nat i" using Suc.prems(2) [of 0 "Suc i"] by (simp add: algebra_simps)
      then show "?m (t + 1 + of_nat i) = m (t + 1 + of_nat i)" by simp
    qed
    have "s + 1 + of_nat i \<noteq> t + 1 + of_nat j" if "i \<le> n" "j < n" for i j
      using Suc.prems(2) [of "Suc i" "Suc j"] that by (simp add: algebra_simps)
    then have "name_of (bytes (safestrcpy_loop ?m (s + 1) (t + 1) n) (s + 1) (Suc n)) = name_of (bytes ?m (t + 1) n) \<and>
        0 \<in> set (bytes (safestrcpy_loop ?m (s + 1) (t + 1) n) (s + 1) (Suc n))"
      using Suc.prems(1) by (intro Suc.IH) auto
    note this [unfolded eq]
    moreover have "safestrcpy_loop ?m (s + 1) (t + 1) n s = m t"
      by (subst safestrcpy_loop_frame) (auto dest: s_out)
    ultimately show ?thesis
      using False by simp
  qed
qed

lemma strlen_loop_cstr: "cstr m (s + of_nat n) xs \<Longrightarrow> strlen_loop m s n = Some (n + length xs)"
proof (induction xs arbitrary: n)
  case Nil
  then show ?case by (simp add: strlen_loop.simps [of m s n])
next
  case (Cons x xs)
  then have "strlen_loop m s (Suc n) = Some (Suc n + length xs)"
    by (intro Cons.IH) (simp add: algebra_simps)
  with Cons.prems show ?case by (simp add: strlen_loop.simps [of m s n])
qed

lemma strlen_cstr: "cstr m p xs \<Longrightarrow> strlen m p = Some (length xs)"
  using strlen_loop_cstr [of m p 0] by (simp add: strlen_def)

section \<open>Properties\<close>

text \<open>
  C34: \<open>memmove\<close> leaves at \<open>dst\<close> the bytes that were at \<open>src\<close> before the call and changes nothing else,
  for regions that overlap in either direction, as long as neither reaches the top of the address
  space (where the pointer comparison \<open>s + n > d\<close> would wrap around).
\<close>

theorem memmove_copies:
  assumes "unat src + unat n < 2 ^ 64" and "unat dst + unat n < 2 ^ 64"
  shows "memmove m dst src n x =
    (if unat (x - dst) < unat n then m (src + (x - dst)) else m x)"
  by (simp add: memmove_eq [OF assms] blit_def)

theorem memmove_copies_witness:
  "memmove (\<lambda>a. ucast a) 1003 1000 8 1005 = (if unat (1005 - 1003 :: u64) < unat (8 :: u32) then 234 else 237)"
  using memmove_copies [of 1000 8 1003 "\<lambda>a. ucast a" 1005] by simp

text \<open>
  C35: \<open>safestrcpy\<close> stores the source string cut to \<open>n - 1\<close> bytes, always ends it with a NUL inside the
  \<open>n\<close> bytes of the destination, and writes no byte outside them.
\<close>

theorem safestrcpy_terminates:
  assumes "0 < n" "n < 2 ^ 31"
    and "\<And>i j. i < nat n \<Longrightarrow> j < nat n \<Longrightarrow> s + of_nat i \<noteq> t + of_nat j"
  shows "name_of (bytes (safestrcpy m s t n) s (nat n)) = name_of (bytes m t (nat n - 1)) \<and>
    0 \<in> set (bytes (safestrcpy m s t n) s (nat n)) \<and>
    (\<forall>x. \<not> unat (x - s) < nat n \<longrightarrow> safestrcpy m s t n x = m x)"
proof -
  obtain k where k: "nat n = Suc k" using assms(1) by (cases "nat n") auto
  then have nk: "nat (n - 1) = k" by simp
  have "k < 2 ^ 64 - 1" using k assms(2) by simp
  moreover have "\<And>i j. i \<le> k \<Longrightarrow> j < k \<Longrightarrow> s + of_nat i \<noteq> t + of_nat j"
    using assms(3) k by simp
  ultimately have 1: "name_of (bytes (safestrcpy_loop m s t k) s (Suc k)) = name_of (bytes m t k) \<and>
      0 \<in> set (bytes (safestrcpy_loop m s t k) s (Suc k))"
    by (rule safestrcpy_loop_name)
  have 2: "safestrcpy_loop m s t k x = m x" if "\<not> unat (x - s) < Suc k" for x
  proof (rule safestrcpy_loop_frame)
    fix i assume "i \<le> k"
    then show "x \<noteq> s + of_nat i"
      using that \<open>k < 2 ^ 64 - 1\<close> by (subst eq_offset_iff) auto
  qed
  have "safestrcpy m s t n = safestrcpy_loop m s t k"
    using assms(1) nk by (simp add: safestrcpy_def)
  with 1 2 k show ?thesis by simp
qed

theorem safestrcpy_terminates_witness:
  "name_of (bytes (safestrcpy (\<lambda>_. 7) 100 200 4) 100 4) = [7, 7, 7] \<and>
    0 \<in> set (bytes (safestrcpy (\<lambda>_. 7) 100 200 4) 100 4) \<and>
    safestrcpy (\<lambda>_. 7) 100 200 4 104 = 7"
proof -
  have "(100 :: u64) + of_nat i \<noteq> 200 + of_nat j" if "i < 4" "j < 4" for i j
    using that by (auto simp: word_unat_eq_iff unat_add_eq unat_of_nat)
  then have "name_of (bytes (safestrcpy (\<lambda>_. 7) 100 200 4) 100 4) = name_of (bytes (\<lambda>_. 7) 200 3) \<and>
      0 \<in> set (bytes (safestrcpy (\<lambda>_. 7) 100 200 4) 100 4) \<and>
      (\<forall>x. \<not> unat (x - 100) < 4 \<longrightarrow> safestrcpy (\<lambda>_. 7) 100 200 4 x = 7)"
    using safestrcpy_terminates [of 4 100 200 "\<lambda>_. 7"] by simp
  moreover have "name_of (bytes (\<lambda>_. 7 :: u8) 200 3) = [7, 7, 7]"
    by (simp add: name_of_def numeral_3_eq_3)
  ultimately show ?thesis by simp
qed

end
