(* ===== verification/Kalloc.thy ===== *)
theory Kalloc
  imports Kstring "HOL-Library.Multiset"
begin

text \<open>
  The physical page allocator, \<^verbatim>\<open>kernel/kalloc.c\<close>, with the page macros of \<^verbatim>\<open>kernel/riscv.h\<close> and the
  memory layout of \<^verbatim>\<open>kernel/memlayout.h\<close>.  The free list is the linked list the code keeps inside the
  free pages themselves: \<open>freelist\<close> is the address of the first free page and the first eight bytes
  of each free page hold the address of the next.  A section between \<open>acquire(&kmem.lock)\<close> and
  \<open>release(&kmem.lock)\<close> is one step of the model.

  The addresses the linker supplies (\<open>end\<close>, \<open>etext\<close>, \<open>trampoline\<close>) are fields of the state that
  nothing writes.  The record is extensible: the state of every later component extends it, and the
  allocator applies to those states as it is.
\<close>

section \<open>Pages and layout\<close>

definition PGSIZE :: u64 where "PGSIZE = 4096"

definition PGROUNDUP :: "u64 \<Rightarrow> u64" where
  "PGROUNDUP sz = (sz + PGSIZE - 1) AND NOT (PGSIZE - 1)"

definition PGROUNDDOWN :: "u64 \<Rightarrow> u64" where
  "PGROUNDDOWN a = a AND NOT (PGSIZE - 1)"

definition KERNBASE :: u64 where "KERNBASE = 0x80000000"
definition PHYSTOP :: u64 where "PHYSTOP = KERNBASE + 128 * 1024 * 1024"

section \<open>The allocator\<close>

record kmem =
  pmem :: mem
  freelist :: u64
  sym_end :: u64
  sym_etext :: u64
  sym_trampoline :: u64

definition kfree :: "'z kmem_scheme \<Rightarrow> u64 \<Rightarrow> 'z kmem_scheme res" where
  "kfree s pa =
     (if pa mod PGSIZE \<noteq> 0 \<or> pa < sym_end s \<or> PHYSTOP \<le> pa then Panic ''kfree''
      else
        let s1 = s\<lparr>pmem := memset (pmem s) pa 1 (ucast PGSIZE)\<rparr>;
            s2 = s1\<lparr>pmem := store64 (pmem s1) pa (freelist s1)\<rparr>
        in Ret (s2\<lparr>freelist := pa\<rparr>))"

definition kalloc :: "'z kmem_scheme \<Rightarrow> u64 \<times> 'z kmem_scheme" where
  "kalloc s =
     (let r = freelist s;
          s1 = (if r \<noteq> 0 then s\<lparr>freelist := load64 (pmem s) r\<rparr> else s);
          s2 = (if r \<noteq> 0 then s1\<lparr>pmem := memset (pmem s1) r 5 (ucast PGSIZE)\<rparr> else s1)
      in (r, s2))"

lemma kfree_more_less: "kfree s p = Ret s' \<Longrightarrow> p < PHYSTOP"
  by (auto simp: kfree_def Let_def split: if_splits)

function freerange_loop :: "'z kmem_scheme \<Rightarrow> u64 \<Rightarrow> u64 \<Rightarrow> 'z kmem_scheme res" where
  "freerange_loop s p pa_end =
     (if p + PGSIZE \<le> pa_end
      then bindr (kfree s p) (\<lambda>s. freerange_loop s (p + PGSIZE) pa_end)
      else Ret s)"
  by pat_completeness auto
termination
proof (relation "measure (\<lambda>(s, p, e). unat PHYSTOP - unat p)")
  fix s :: "'z kmem_scheme" and p pa_end s'
  assume "kfree s p = Ret s'"
  then have "unat p < 0x88000000"
    by (auto dest!: kfree_more_less simp: PHYSTOP_def KERNBASE_def word_less_nat_alt)
  then show "((s', p + PGSIZE, pa_end), (s, p, pa_end)) \<in> measure (\<lambda>(s, p, e). unat PHYSTOP - unat p)"
    by (simp add: PHYSTOP_def KERNBASE_def PGSIZE_def unat_add_eq)
qed auto

declare freerange_loop.simps [simp del]

definition freerange :: "'z kmem_scheme \<Rightarrow> u64 \<Rightarrow> u64 \<Rightarrow> 'z kmem_scheme res" where
  "freerange s pa_start pa_end = freerange_loop s (PGROUNDUP pa_start) pa_end"

text \<open>\<open>kinit\<close>: the allocator's lock is initialised with the locks; its free list starts out null.\<close>

definition kinit :: "'z kmem_scheme \<Rightarrow> 'z kmem_scheme res" where
  "kinit s = freerange s (sym_end s) PHYSTOP"

section \<open>The free list\<close>

definition in_page :: "u64 \<Rightarrow> u64 \<Rightarrow> bool" where
  "in_page p x \<longleftrightarrow> unat (x - p) < 4096"

definition page_ok :: "'z kmem_scheme \<Rightarrow> u64 \<Rightarrow> bool" where
  "page_ok s p \<longleftrightarrow> aligned 12 p \<and> sym_end s \<le> p \<and> p < PHYSTOP"

fun chain :: "mem \<Rightarrow> u64 \<Rightarrow> u64 list \<Rightarrow> bool" where
  "chain m p [] \<longleftrightarrow> p = 0"
| "chain m p (a # as) \<longleftrightarrow> p = a \<and> a \<noteq> 0 \<and> chain m (load64 m a) as"

text \<open>The free list of a state is \<open>ps\<close>: the linked list visits \<open>ps\<close>, distinct pages of usable memory.\<close>

definition free_pages :: "'z kmem_scheme \<Rightarrow> u64 list \<Rightarrow> bool" where
  "free_pages s ps \<longleftrightarrow>
     chain (pmem s) (freelist s) ps \<and> distinct ps \<and> list_all (page_ok s) ps \<and> 0 < sym_end s"

lemma aligned12_iff: "aligned 12 p \<longleftrightarrow> p mod PGSIZE = 0"
  by (simp add: aligned_def PGSIZE_def word_unat_eq_iff unat_mod)

lemma in_page_iff: "in_page p x \<longleftrightarrow> x - p < 2 ^ 12"
  by (simp add: in_page_def word_less_nat_alt)

lemma in_page_unique: "aligned 12 p \<Longrightarrow> aligned 12 q \<Longrightarrow> in_page p x \<Longrightarrow> in_page q x \<Longrightarrow> p = q"
  by (rule aligned_blocks_disjoint [of 12 p q x]) (simp_all add: in_page_iff)

lemma in_page_self: "in_page p p"
  by (simp add: in_page_def)

lemma in_page_offset: "i < 4096 \<Longrightarrow> in_page p (p + of_nat i)"
  by (simp add: in_page_def unat_of_nat)

lemma load64_page_cong:
  assumes "\<And>x. in_page p x \<Longrightarrow> m x = m' x" and "k + 8 \<le> 4096"
  shows "load64 m (p + of_nat k) = load64 m' (p + of_nat k)"
proof (rule load64_cong)
  fix i :: nat assume "i < 8"
  with assms(2) have "in_page p (p + of_nat (k + i))"
    by (intro in_page_offset) simp
  then show "m (p + of_nat k + of_nat i) = m' (p + of_nat k + of_nat i)"
    using assms(1) by (simp add: algebra_simps)
qed

lemma chain_cong:
  assumes "\<And>a x. a \<in> set ps \<Longrightarrow> in_page a x \<Longrightarrow> m x = m' x"
  shows "chain m p ps = chain m' p ps"
  using assms
proof (induction ps arbitrary: p)
  case (Cons a ps)
  have "load64 m a = load64 m' a"
    using load64_page_cong [of a m m' 0] Cons.prems [of a] by simp
  moreover have "chain m q ps = chain m' q ps" for q
    using Cons.prems by (intro Cons.IH) auto
  ultimately show ?case by simp
qed simp

lemma chain_unique: "chain m p ps \<Longrightarrow> chain m p qs \<Longrightarrow> ps = qs"
proof (induction ps arbitrary: p qs)
  case Nil
  then show ?case by (cases qs) auto
next
  case (Cons a ps)
  then show ?case by (cases qs) auto
qed

lemma ucast_PGSIZE [simp]: "ucast PGSIZE = (4096 :: u32)"
  by (simp add: PGSIZE_def)

lemma page_ok_nonzero: "page_ok s p \<Longrightarrow> 0 < sym_end s \<Longrightarrow> p \<noteq> 0"
  by (auto simp: page_ok_def)

lemma kalloc_empty: "free_pages s [] \<Longrightarrow> kalloc s = (0, s)"
  by (simp add: kalloc_def free_pages_def)

lemma kalloc_page:
  "free_pages s (p # ps) \<Longrightarrow>
    kalloc s = (p, s\<lparr>pmem := fill (pmem s) p 5 4096, freelist := load64 (pmem s) p\<rparr>)"
  by (simp add: kalloc_def free_pages_def memset_eq Let_def)

lemma kfree_cond: "(pa mod PGSIZE \<noteq> 0 \<or> pa < sym_end s \<or> PHYSTOP \<le> pa) \<longleftrightarrow> \<not> page_ok s pa"
  by (simp only: page_ok_def aligned12_iff not_le not_less de_Morgan_conj)

lemma kfree_page:
  "page_ok s p \<Longrightarrow>
    kfree s p = Ret (s\<lparr>pmem := store64 (fill (pmem s) p 1 4096) p (freelist s), freelist := p\<rparr>)"
  unfolding kfree_def kfree_cond by (simp add: memset_eq Let_def)

lemma kfree_panics: "\<not> page_ok s p \<Longrightarrow> kfree s p = Panic ''kfree''"
  unfolding kfree_def kfree_cond by simp

lemma fill_outside: "\<not> in_page p x \<Longrightarrow> fill m p c 4096 x = m x"
  by (simp add: fill_def in_page_def)

lemma fill_inside: "in_page p x \<Longrightarrow> fill m p c 4096 x = c"
  by (simp add: fill_def in_page_def)

lemma store64_in_page:
  assumes "k + 8 \<le> 4096" and "\<not> in_page p x"
  shows "store64 m (p + of_nat k) v x = m x"
proof (rule store64_outside, rule notI)
  assume "x - (p + of_nat k) < 8"
  then have "unat (x - (p + of_nat k)) < 8" by (simp add: word_less_nat_alt)
  moreover have "unat (x - p) = (unat (x - (p + of_nat k)) + k) mod 2 ^ 64"
    using unat_add_eq [of "x - (p + of_nat k)" "of_nat k"] by (simp add: unat_of_nat mod_add_right_eq)
  ultimately have "unat (x - p) < 4096" using assms(1) by simp
  with assms(2) show False by (simp add: in_page_def)
qed

lemma store64_page_outside: "\<not> in_page p x \<Longrightarrow> store64 m p v x = m x"
  using store64_in_page [of 0] by simp

lemma free_pages_kalloc:
  assumes "free_pages s (p # ps)"
  shows "free_pages (snd (kalloc s)) ps"
proof -
  have *: "chain (fill (pmem s) p 5 4096) (load64 (pmem s) p) ps = chain (pmem s) (load64 (pmem s) p) ps"
  proof (rule chain_cong)
    fix a x assume "a \<in> set ps" "in_page a x"
    moreover have "a \<noteq> p" "aligned 12 a" "aligned 12 p"
      using assms \<open>a \<in> set ps\<close> by (auto simp: free_pages_def page_ok_def list_all_iff)
    ultimately have "\<not> in_page p x" by (metis in_page_unique)
    then show "fill (pmem s) p 5 4096 x = pmem s x" by (rule fill_outside)
  qed
  with assms show ?thesis
    by (auto simp: kalloc_page [OF assms] free_pages_def list_all_iff page_ok_def)
qed

lemma free_pages_kfree:
  assumes "free_pages s ps" "page_ok s p" "p \<notin> set ps" "kfree s p = Ret s'"
  shows "free_pages s' (p # ps)"
proof -
  let ?m = "store64 (fill (pmem s) p 1 4096) p (freelist s)"
  have s': "s' = s\<lparr>pmem := ?m, freelist := p\<rparr>"
    using assms(4) by (simp add: kfree_page [OF assms(2)])
  have "chain ?m (freelist s) ps = chain (pmem s) (freelist s) ps"
  proof (rule chain_cong)
    fix a x assume "a \<in> set ps" "in_page a x"
    moreover have "a \<noteq> p" "aligned 12 a" "aligned 12 p"
      using assms \<open>a \<in> set ps\<close> by (auto simp: free_pages_def page_ok_def list_all_iff)
    ultimately have "\<not> in_page p x" by (metis in_page_unique)
    then show "?m x = pmem s x" by (simp add: fill_outside store64_page_outside)
  qed
  with assms(1-3) show ?thesis
    by (auto simp: s' free_pages_def list_all_iff page_ok_def)
qed

section \<open>The allocator's contract\<close>

text \<open>
  What the callers of the allocator rely on: \<open>alloc\<close> takes the first free page or reports that
  there is none, \<open>free\<close> accepts every valid page that is not free already.
\<close>

locale page_allocator =
  fixes alloc :: "'s \<Rightarrow> u64 \<times> 's"
    and free :: "'s \<Rightarrow> u64 \<Rightarrow> 's res"
    and frees :: "'s \<Rightarrow> u64 list \<Rightarrow> bool"
    and valid :: "'s \<Rightarrow> u64 \<Rightarrow> bool"
  assumes alloc_empty: "frees s [] \<Longrightarrow> alloc s = (0, s)"
    and alloc_page: "frees s (p # ps) \<Longrightarrow>
      \<exists>s'. alloc s = (p, s') \<and> p \<noteq> 0 \<and> frees s' ps \<and> valid s' = valid s"
    and free_page: "frees s ps \<Longrightarrow> valid s p \<Longrightarrow> p \<notin> set ps \<Longrightarrow>
      \<exists>s'. free s p = Ret s' \<and> frees s' (p # ps) \<and> valid s' = valid s"
    and frees_valid: "frees s ps \<Longrightarrow> distinct ps \<and> list_all (valid s) ps"

text \<open>
  A client that allocates and frees pages in any order and frees only pages it holds: the state
  is the allocator's and the list of pages held.
\<close>

datatype page_op = Alloc | Free u64

fun page_client ::
  "('s \<Rightarrow> u64 \<times> 's) \<Rightarrow> ('s \<Rightarrow> u64 \<Rightarrow> 's res) \<Rightarrow> 's \<Rightarrow> u64 list \<Rightarrow> page_op list \<Rightarrow> ('s \<times> u64 list) res"
where
  "page_client alloc free s held [] = Ret (s, held)"
| "page_client alloc free s held (Alloc # ops) =
     (let (p, s') = alloc s in
      page_client alloc free s' (if p \<noteq> 0 then p # held else held) ops)"
| "page_client alloc free s held (Free p # ops) =
     (if p \<in> set held
      then bindr (free s p) (\<lambda>s'. page_client alloc free s' (remove1 p held) ops)
      else page_client alloc free s held ops)"

context page_allocator
begin

lemma client_safe:
  assumes "frees s ps" "distinct (held @ ps)" "list_all (valid s) held"
  shows "\<exists>s' held' ps'. page_client alloc free s held ops = Ret (s', held') \<and> frees s' ps' \<and>
    distinct (held' @ ps') \<and> mset (held' @ ps') = mset (held @ ps)"
  using assms
proof (induction ops arbitrary: s held ps)
  case Nil
  then show ?case by auto
next
  case (Cons op ops)
  show ?case
  proof (cases op)
    case Alloc
    show ?thesis
    proof (cases ps)
      case Nil
      with Cons.prems Alloc show ?thesis using Cons.IH [of s ps held] by (simp add: alloc_empty)
    next
      case (Cons p qs)
      then obtain s' where s': "alloc s = (p, s')" "p \<noteq> 0" "frees s' qs" "valid s' = valid s"
        using alloc_page Cons.prems(1) by blast
      have "valid s p" using frees_valid [OF Cons.prems(1)] Cons by simp
      then have "distinct ((p # held) @ qs)" "list_all (valid s') (p # held)"
        using Cons.prems(2,3) \<open>ps = p # qs\<close> s'(4) by auto
      from Cons.IH [OF s'(3) this] show ?thesis
        using Alloc s'(1,2) \<open>ps = p # qs\<close> by simp
    qed
  next
    case (Free p)
    show ?thesis
    proof (cases "p \<in> set held")
      case True
      then have "valid s p" "p \<notin> set ps" using Cons.prems by (auto simp: list_all_iff)
      then obtain s' where s': "free s p = Ret s'" "frees s' (p # ps)" "valid s' = valid s"
        using free_page Cons.prems(1) by blast
      have "distinct (remove1 p held @ p # ps)" "list_all (valid s') (remove1 p held)"
        using Cons.prems(2,3) True s'(3) \<open>p \<notin> set ps\<close>
        by (auto simp: list_all_iff dest: notin_set_remove1 in_set_remove1 set_remove1_subset [THEN subsetD])
      from Cons.IH [OF s'(2) this] show ?thesis
        using Free True s'(1) by simp
    next
      case False
      with Cons.prems Free show ?thesis using Cons.IH [of s ps held] by simp
    qed
  qed
qed

end


section \<open>Booting the allocator\<close>

lemma PHYSTOP_val: "unat PHYSTOP = 0x88000000"
  by (simp add: PHYSTOP_def KERNBASE_def)

lemma PGSIZE_mask: "PGSIZE - 1 = mask 12"
  by (simp add: PGSIZE_def mask_eq_exp_minus_1)

lemma unat_and_not_mask12: "unat (a AND NOT (mask 12) :: u64) = unat a div 4096 * 4096"
proof -
  have eq: "a AND NOT (mask 12) = push_bit 12 (drop_bit 12 a)"
    by (rule bit_word_eqI) (auto simp: bit_simps)
  have "unat (push_bit 12 (drop_bit 12 a)) = (unat a div 4096 * 4096) mod 2 ^ 64"
    by (simp add: push_bit_eq_mult unat_word_ariths unat_drop_bit_eq drop_bit_eq_div mod_mult_left_eq)
  also have "\<dots> = unat a div 4096 * 4096"
    using unat_less_2p64 [of a] by (intro mod_less) simp
  finally show ?thesis by (simp add: eq)
qed

lemma PGROUNDDOWN_unat: "unat (PGROUNDDOWN a) = unat a div 4096 * 4096"
  by (simp only: PGROUNDDOWN_def PGSIZE_mask unat_and_not_mask12)

lemma PGROUNDUP_unat:
  "unat a + 4095 < 2 ^ 64 \<Longrightarrow> unat (PGROUNDUP a) = (unat a + 4095) div 4096 * 4096"
proof -
  assume a: "unat a + 4095 < 2 ^ 64"
  have "a + PGSIZE - 1 = a + 4095" by (simp add: PGSIZE_def)
  then have "unat (a + PGSIZE - 1) = unat (a + 4095)" by (simp only:)
  also have "\<dots> = unat a + 4095" using a by (simp add: unat_add_eq)
  finally have "unat (a + PGSIZE - 1) = unat a + 4095" .
  then show ?thesis by (simp only: PGROUNDUP_def PGSIZE_mask unat_and_not_mask12)
qed

lemma PGROUNDDOWN_aligned [simp]: "aligned 12 (PGROUNDDOWN a)"
  by (simp add: aligned_def PGROUNDDOWN_unat)

lemma PGROUNDUP_aligned [simp]: "aligned 12 (PGROUNDUP a)"
  by (simp only: PGROUNDUP_def PGSIZE_mask aligned_def unat_and_not_mask12) simp

lemma aligned12_next:
  assumes "aligned 12 p" "aligned 12 q" "p \<le> PHYSTOP"
  shows "p + PGSIZE \<le> q \<longleftrightarrow> p < q" and "aligned 12 (p + PGSIZE)"
proof -
  have p: "unat p \<le> 0x88000000" using assms(3) by (simp add: word_le_nat_alt PHYSTOP_val)
  then have u: "unat (p + PGSIZE) = unat p + 4096" by (simp add: unat_add_eq PGSIZE_def)
  obtain i j where ij: "unat p = 4096 * i" "unat q = 4096 * j"
    using assms(1,2) by (auto simp: aligned_def elim!: dvdE)
  show "p + PGSIZE \<le> q \<longleftrightarrow> p < q"
    unfolding word_le_nat_alt word_less_nat_alt u ij by auto
  show "aligned 12 (p + PGSIZE)"
    unfolding aligned_def u ij by simp
qed

lemma freerange_loop_frees:
  assumes "free_pages s ps" "aligned 12 p" "sym_end s \<le> p" "p \<le> PHYSTOP" "aligned 12 e" "e \<le> PHYSTOP"
    and "\<And>q. q \<in> set ps \<Longrightarrow> q < p"
  shows "\<exists>s' qs. freerange_loop s p e = Ret s' \<and> free_pages s' qs \<and> sym_end s' = sym_end s \<and>
    set qs = set ps \<union> {q. aligned 12 q \<and> p \<le> q \<and> q < e}"
  using assms
proof (induction s p e arbitrary: ps rule: freerange_loop.induct)
  case (1 s p e)
  note nxt = aligned12_next [OF "1.prems"(2) _ "1.prems"(4)]
  show ?case
  proof (cases "p < e")
    case True
    then have pok: "page_ok s p" using "1.prems" by (auto simp: page_ok_def)
    obtain s1 where s1: "kfree s p = Ret s1" using pok by (simp add: kfree_page)
    have fp: "free_pages s1 (p # ps)"
      using "1.prems"(1,7) pok s1 by (intro free_pages_kfree) auto
    have sym: "sym_end s1 = sym_end s" using s1 by (auto simp: kfree_page [OF pok])
    have le: "p + PGSIZE \<le> e" using nxt(1) [OF "1.prems"(5)] True by simp
    have al: "aligned 12 (p + PGSIZE)" using nxt(2) [OF "1.prems"(5)] .
    have lt: "p < p + PGSIZE" using nxt(1) [OF al] by simp
    have "\<exists>s' qs. freerange_loop s1 (p + PGSIZE) e = Ret s' \<and> free_pages s' qs \<and> sym_end s' = sym_end s1 \<and>
        set qs = set (p # ps) \<union> {q. aligned 12 q \<and> p + PGSIZE \<le> q \<and> q < e}"
      using le lt "1.prems" sym
      by (intro "1.IH" [OF le s1 fp al]) (auto dest: less_trans)
    moreover have "{q. aligned 12 q \<and> p \<le> q \<and> q < e} = insert p {q. aligned 12 q \<and> p + PGSIZE \<le> q \<and> q < e}"
      using True "1.prems"(2) nxt(1) by (auto simp: order_less_le)
    ultimately show ?thesis
      using le s1 sym by (simp add: freerange_loop.simps [of s p e])
  next
    case False
    then have "\<not> p + PGSIZE \<le> e" using nxt(1) [OF "1.prems"(5)] by simp
    then have "freerange_loop s p e = Ret s" by (simp add: freerange_loop.simps [of s p e])
    moreover have "{q. aligned 12 q \<and> p \<le> q \<and> q < e} = {}" using False by auto
    ultimately show ?thesis using "1.prems"(1) by auto
  qed
qed

lemma kinit_frees:
  assumes "freelist s = 0" "0 < sym_end s" "sym_end s \<le> PHYSTOP"
  shows "\<exists>s' qs. kinit s = Ret s' \<and> free_pages s' qs \<and> sym_end s' = sym_end s \<and>
    set qs = {q. page_ok s q}"
proof -
  let ?p = "PGROUNDUP (sym_end s)"
  have e: "unat (sym_end s) \<le> 0x88000000" using assms(3) by (simp add: word_le_nat_alt PHYSTOP_val)
  then have up: "unat ?p = (unat (sym_end s) + 4095) div 4096 * 4096" by (simp add: PGROUNDUP_unat)
  define d where "d = (unat (sym_end s) + 4095) div 4096"
  have d: "unat (sym_end s) \<le> d * 4096" "d * 4096 \<le> unat (sym_end s) + 4095"
    using div_mult_mod_eq [of "unat (sym_end s) + 4095" 4096] mod_less_divisor [of 4096 "unat (sym_end s) + 4095"]
    unfolding d_def by linarith+
  have d3: "d \<le> 0x88000"
    using e div_le_mono [of "unat (sym_end s) + 4095" "0x88000FFF" 4096] unfolding d_def by simp
  note up = up [folded d_def]
  have ge: "sym_end s \<le> ?p" and le: "?p \<le> PHYSTOP"
    using d d3 unfolding word_le_nat_alt up PHYSTOP_val by linarith+
  have "?p \<le> q \<longleftrightarrow> sym_end s \<le> q" if q: "aligned 12 q" for q
  proof -
    obtain j where uq: "unat q = 4096 * j" using q by (auto simp: aligned_def elim!: dvdE)
    have "d * 4096 \<le> 4096 * j \<longleftrightarrow> d < Suc j" by (simp add: less_Suc_eq_le)
    also have "\<dots> \<longleftrightarrow> unat (sym_end s) \<le> 4096 * j"
    proof
      assume "d < Suc j"
      then have "d * 4096 \<le> 4096 * j" by simp
      with d(1) show "unat (sym_end s) \<le> 4096 * j" by linarith
    next
      assume "unat (sym_end s) \<le> 4096 * j"
      with d(2) have "d * 4096 < Suc j * 4096" by simp
      then show "d < Suc j" by simp
    qed
    finally show ?thesis unfolding word_le_nat_alt up uq .
  qed
  then have "{q. aligned 12 q \<and> ?p \<le> q \<and> q < PHYSTOP} = {q. page_ok s q}"
    by (auto simp: page_ok_def)
  moreover have "aligned 12 PHYSTOP" by (simp add: aligned_def PHYSTOP_val)
  moreover have "free_pages s []" using assms(1,2) by (simp add: free_pages_def)
  ultimately show ?thesis
    using freerange_loop_frees [of s "[]" ?p PHYSTOP] ge le by (simp add: kinit_def freerange_def)
qed

interpretation kmem_alloc: page_allocator
  "kalloc :: 'z kmem_scheme \<Rightarrow> u64 \<times> 'z kmem_scheme" kfree free_pages page_ok
proof
  fix s :: "'z kmem_scheme" and p ps
  show "free_pages s [] \<Longrightarrow> kalloc s = (0, s)" by (rule kalloc_empty)
  show "\<exists>s'. kalloc s = (p, s') \<and> p \<noteq> 0 \<and> free_pages s' ps \<and> page_ok s' = page_ok s"
    if "free_pages s (p # ps)"
    using free_pages_kalloc [OF that] that
    by (auto simp: kalloc_page [OF that] free_pages_def page_ok_def fun_eq_iff)
  show "\<exists>s'. kfree s p = Ret s' \<and> free_pages s' (p # ps) \<and> page_ok s' = page_ok s"
    if "free_pages s ps" "page_ok s p" "p \<notin> set ps"
    using free_pages_kfree [OF that] that(2)
    by (auto simp: kfree_page page_ok_def fun_eq_iff)
  show "free_pages s ps \<Longrightarrow> distinct ps \<and> list_all (page_ok s) ps"
    by (simp add: free_pages_def)
qed

text \<open>
  C31: \<open>kinit\<close> does not panic and puts on the free list exactly the whole pages between the end of the
  kernel image and the top of RAM, each once.
\<close>

theorem kinit_frees_all_ram:
  assumes "freelist s = 0" "0 < sym_end s" "sym_end s \<le> PHYSTOP"
  shows "\<exists>s' ps. kinit s = Ret s' \<and> free_pages s' ps \<and> distinct ps \<and>
    (\<forall>p. p \<in> set ps \<longleftrightarrow> p mod PGSIZE = 0 \<and> sym_end s \<le> p \<and> p < PHYSTOP)"
proof -
  obtain s' ps where *: "kinit s = Ret s'" "free_pages s' ps" "set ps = {q. page_ok s q}"
    using kinit_frees [OF assms] by blast
  then have "distinct ps" by (simp add: free_pages_def)
  moreover have "\<forall>p. p \<in> set ps \<longleftrightarrow> p mod PGSIZE = 0 \<and> sym_end s \<le> p \<and> p < PHYSTOP"
    unfolding *(3) by (simp add: page_ok_def aligned12_iff)
  ultimately show ?thesis using * by blast
qed

text \<open>
  C6: a client that calls \<open>kalloc\<close> and \<open>kfree\<close> in any order, freeing only pages it holds, is never
  handed a page it already holds or that is still free, never makes \<open>kfree\<close> panic, and loses no
  page: the pages held and the pages free are always the pages there were at the start.
\<close>

theorem kalloc_kfree_conserve_pages:
  assumes "free_pages s ps" "distinct (held @ ps)" "list_all (page_ok s) held"
  shows "\<exists>s' held' ps'. page_client kalloc kfree s held ops = Ret (s', held') \<and> free_pages s' ps' \<and>
    distinct (held' @ ps') \<and> mset (held' @ ps') = mset (held @ ps)"
  using assms by (rule kmem_alloc.client_safe)


definition boot_kmem :: kmem where
  "boot_kmem = \<lparr>pmem = (\<lambda>_. 0), freelist = 0, sym_end = 0x80022000, sym_etext = 0x80008000,
     sym_trampoline = 0x80007000\<rparr>"

theorem kinit_frees_all_ram_witness:
  "\<exists>s' ps. kinit boot_kmem = Ret s' \<and> free_pages s' ps \<and> distinct ps \<and>
    (\<forall>p. p \<in> set ps \<longleftrightarrow> p mod PGSIZE = 0 \<and> 0x80022000 \<le> p \<and> p < PHYSTOP)"
  using kinit_frees_all_ram [of boot_kmem] by (simp add: boot_kmem_def PHYSTOP_def KERNBASE_def)

theorem kalloc_kfree_conserve_pages_witness:
  "\<exists>s' held' ps'. page_client kalloc kfree boot_kmem [0x80100000, 0x80200000]
      [Free 0x80200000, Alloc, Alloc, Free 0x80100000] = Ret (s', held') \<and>
    free_pages s' ps' \<and> distinct (held' @ ps') \<and>
    mset (held' @ ps') = mset [0x80100000, 0x80200000]"
  using kalloc_kfree_conserve_pages
    [of boot_kmem "[]" "[0x80100000, 0x80200000]" "[Free 0x80200000, Alloc, Alloc, Free 0x80100000]"]
  by (simp add: boot_kmem_def free_pages_def page_ok_def aligned_def PHYSTOP_def KERNBASE_def)

end
