(* ===== verification/Vm.thy ===== *)
theory Vm
  imports Kalloc
begin

text \<open>
  Virtual memory, \<^verbatim>\<open>kernel/vm.c\<close>, with the page-table macros of \<^verbatim>\<open>kernel/riscv.h\<close>.  Page tables are the
  three-level Sv39 trees the code builds in physical memory: a \<open>pagetable_t\<close> is the address of a page
  of 512 entries and every access to an entry is a 64-bit load or store.  Objects of the kernel
  itself (its static data and its stack) are values of the model and not bytes of \<open>pmem\<close>: \<open>copyout\<close>
  takes the bytes to copy as a list and \<open>copyin\<close> and \<open>copyinstr\<close> return the bytes they store through
  \<open>dst\<close>.
\<close>

section \<open>Page-table entries\<close>

definition PTE_V :: u64 where "PTE_V = 1"
definition PTE_R :: u64 where "PTE_R = 2"
definition PTE_W :: u64 where "PTE_W = 4"
definition PTE_X :: u64 where "PTE_X = 8"
definition PTE_U :: u64 where "PTE_U = 16"

definition PA2PTE :: "u64 \<Rightarrow> u64" where "PA2PTE pa = push_bit 10 (drop_bit 12 pa)"
definition PTE2PA :: "u64 \<Rightarrow> u64" where "PTE2PA pte = push_bit 12 (drop_bit 10 pte)"
definition PTE_FLAGS :: "u64 \<Rightarrow> u64" where "PTE_FLAGS pte = pte AND 0x3FF"

definition PX :: "nat \<Rightarrow> u64 \<Rightarrow> u64" where
  "PX level va = drop_bit (12 + 9 * level) va AND 0x1FF"

definition MAXVA :: u64 where "MAXVA = 2 ^ (9 + 9 + 9 + 12 - 1)"
definition TRAMPOLINE :: u64 where "TRAMPOLINE = MAXVA - PGSIZE"
definition TRAPFRAME :: u64 where "TRAPFRAME = TRAMPOLINE - PGSIZE"

text \<open>The address of entry \<open>PX(level, va)\<close> of the table at \<open>pt\<close>, i.e. \<open>&pagetable[PX(level, va)]\<close>.\<close>

definition slot :: "u64 \<Rightarrow> nat \<Rightarrow> u64 \<Rightarrow> u64" where
  "slot pt level va = pt + 8 * PX level va"

section \<open>Walking and mapping\<close>

fun walk_loop :: "'z kmem_scheme \<Rightarrow> u64 \<Rightarrow> u64 \<Rightarrow> bool \<Rightarrow> nat \<Rightarrow> u64 \<times> 'z kmem_scheme" where
  "walk_loop s pagetable va alloc 0 = (slot pagetable 0 va, s)"
| "walk_loop s pagetable va alloc (Suc l) =
     (let pte = slot pagetable (Suc l) va in
      if load64 (pmem s) pte AND PTE_V \<noteq> 0
      then walk_loop s (PTE2PA (load64 (pmem s) pte)) va alloc l
      else if \<not> alloc then (0, s)
      else
        let (p, s1) = kalloc s in
        if p = 0 then (0, s1)
        else
          let s2 = s1\<lparr>pmem := memset (pmem s1) p 0 (ucast PGSIZE)\<rparr>;
              s3 = s2\<lparr>pmem := store64 (pmem s2) pte (PA2PTE p OR PTE_V)\<rparr>
          in walk_loop s3 p va alloc l)"

definition walk :: "'z kmem_scheme \<Rightarrow> u64 \<Rightarrow> u64 \<Rightarrow> bool \<Rightarrow> (u64 \<times> 'z kmem_scheme) res" where
  "walk s pagetable va alloc =
     (if MAXVA \<le> va then Panic ''walk'' else Ret (walk_loop s pagetable va alloc 2))"

definition walkaddr :: "'z kmem_scheme \<Rightarrow> u64 \<Rightarrow> u64 \<Rightarrow> u64" where
  "walkaddr s pagetable va =
     (if MAXVA \<le> va then 0
      else
        let pte = fst (walk_loop s pagetable va False 2) in
        if pte = 0 then 0
        else if load64 (pmem s) pte AND PTE_V = 0 then 0
        else if load64 (pmem s) pte AND PTE_U = 0 then 0
        else PTE2PA (load64 (pmem s) pte))"

lemma walk_Ret_less: "walk s pt va alloc = Ret r \<Longrightarrow> unat va < 2 ^ 38"
  by (auto simp: walk_def MAXVA_def word_le_nat_alt split: if_splits)

text \<open>The loops below end because \<open>walk\<close> panics at \<open>MAXVA\<close>: the address they step through is the measure.\<close>

lemma page_step_decreases: "unat a < 2 ^ 38 \<Longrightarrow> 2 ^ 38 - unat (a + PGSIZE) < 2 ^ 38 - unat a"
  by (simp add: PGSIZE_def unat_add_eq)

function mappages_loop ::
  "'z kmem_scheme \<Rightarrow> u64 \<Rightarrow> u64 \<Rightarrow> u64 \<Rightarrow> u64 \<Rightarrow> u64 \<Rightarrow> (int \<times> 'z kmem_scheme) res"
where
  "mappages_loop s pagetable a lst pa perm =
     bindr (walk s pagetable a True) (\<lambda>(pte, s1).
       if pte = 0 then Ret (-1, s1)
       else if load64 (pmem s1) pte AND PTE_V \<noteq> 0 then Panic ''mappages: remap''
       else
         let s2 = s1\<lparr>pmem := store64 (pmem s1) pte (PA2PTE pa OR perm OR PTE_V)\<rparr> in
         if a = lst then Ret (0, s2)
         else mappages_loop s2 pagetable (a + PGSIZE) lst (pa + PGSIZE) perm)"
  by pat_completeness auto
termination
  by (relation "measure (\<lambda>(s, pt, a, lst, pa, perm). 2 ^ 38 - unat a)")
    (auto dest!: walk_Ret_less intro!: page_step_decreases [simplified])

declare mappages_loop.simps [simp del]

definition mappages ::
  "'z kmem_scheme \<Rightarrow> u64 \<Rightarrow> u64 \<Rightarrow> u64 \<Rightarrow> u64 \<Rightarrow> u64 \<Rightarrow> (int \<times> 'z kmem_scheme) res"
where
  "mappages s pagetable va sz pa perm =
     (if va mod PGSIZE \<noteq> 0 then Panic ''mappages: va not aligned''
      else if sz mod PGSIZE \<noteq> 0 then Panic ''mappages: size not aligned''
      else if sz = 0 then Panic ''mappages: size''
      else mappages_loop s pagetable va (va + sz - PGSIZE) pa perm)"

definition kvmmap ::
  "'z kmem_scheme \<Rightarrow> u64 \<Rightarrow> u64 \<Rightarrow> u64 \<Rightarrow> u64 \<Rightarrow> u64 \<Rightarrow> 'z kmem_scheme res"
where
  "kvmmap s kpgtbl va pa sz perm =
     bindr (mappages s kpgtbl va sz pa perm) (\<lambda>(r, s1).
       if r \<noteq> 0 then Panic ''kvmmap'' else Ret s1)"

function uvmunmap_loop :: "'z kmem_scheme \<Rightarrow> u64 \<Rightarrow> u64 \<Rightarrow> u64 \<Rightarrow> bool \<Rightarrow> 'z kmem_scheme res" where
  "uvmunmap_loop s pagetable a lim do_free =
     (if a < lim then
        bindr (walk s pagetable a False) (\<lambda>(pte, s1).
          if pte = 0 then Panic ''uvmunmap: walk''
          else if load64 (pmem s1) pte AND PTE_V = 0 then Panic ''uvmunmap: not mapped''
          else if PTE_FLAGS (load64 (pmem s1) pte) = PTE_V then Panic ''uvmunmap: not a leaf''
          else
            bindr (if do_free then kfree s1 (PTE2PA (load64 (pmem s1) pte)) else Ret s1) (\<lambda>s2.
              uvmunmap_loop (s2\<lparr>pmem := store64 (pmem s2) pte 0\<rparr>) pagetable (a + PGSIZE) lim do_free))
      else Ret s)"
  by pat_completeness auto
termination
  by (relation "measure (\<lambda>(s, pt, a, lim, do_free). 2 ^ 38 - unat a)")
    (auto dest!: walk_Ret_less intro!: page_step_decreases [simplified])

declare uvmunmap_loop.simps [simp del]

definition uvmunmap :: "'z kmem_scheme \<Rightarrow> u64 \<Rightarrow> u64 \<Rightarrow> u64 \<Rightarrow> bool \<Rightarrow> 'z kmem_scheme res" where
  "uvmunmap s pagetable va npages do_free =
     (if va mod PGSIZE \<noteq> 0 then Panic ''uvmunmap: not aligned''
      else uvmunmap_loop s pagetable va (va + npages * PGSIZE) do_free)"


section \<open>The kernel's own page table\<close>

definition NPROC :: nat where "NPROC = 64"

definition UART0 :: u64 where "UART0 = 0x10000000"
definition VIRTIO0 :: u64 where "VIRTIO0 = 0x10001000"
definition PLIC :: u64 where "PLIC = 0x0c000000"

definition KSTACK :: "nat \<Rightarrow> u64" where
  "KSTACK p = TRAMPOLINE - (of_nat p + 1) * 2 * PGSIZE"

text \<open>\<open>proc_mapstacks\<close> (\<^verbatim>\<open>kernel/proc.c\<close>): one kernel stack page for each of the \<open>n\<close> processes from \<open>p\<close> on.\<close>

fun proc_mapstacks_loop :: "'z kmem_scheme \<Rightarrow> u64 \<Rightarrow> nat \<Rightarrow> nat \<Rightarrow> 'z kmem_scheme res" where
  "proc_mapstacks_loop s kpgtbl p 0 = Ret s"
| "proc_mapstacks_loop s kpgtbl p (Suc n) =
     (let (pa, s1) = kalloc s in
      if pa = 0 then Panic ''kalloc''
      else
        let va = KSTACK p in
        bindr (kvmmap s1 kpgtbl va pa PGSIZE (PTE_R OR PTE_W)) (\<lambda>s2.
          proc_mapstacks_loop s2 kpgtbl (Suc p) n))"

definition proc_mapstacks :: "'z kmem_scheme \<Rightarrow> u64 \<Rightarrow> 'z kmem_scheme res" where
  "proc_mapstacks s kpgtbl = proc_mapstacks_loop s kpgtbl 0 NPROC"

definition kvmmake :: "'z kmem_scheme \<Rightarrow> (u64 \<times> 'z kmem_scheme) res" where
  "kvmmake s =
     (let (kpgtbl, s0) = kalloc s;
          s1 = s0\<lparr>pmem := memset (pmem s0) kpgtbl 0 (ucast PGSIZE)\<rparr> in
      bindr (kvmmap s1 kpgtbl UART0 UART0 PGSIZE (PTE_R OR PTE_W)) (\<lambda>s2.
      bindr (kvmmap s2 kpgtbl VIRTIO0 VIRTIO0 PGSIZE (PTE_R OR PTE_W)) (\<lambda>s3.
      bindr (kvmmap s3 kpgtbl PLIC PLIC 0x4000000 (PTE_R OR PTE_W)) (\<lambda>s4.
      bindr (kvmmap s4 kpgtbl KERNBASE KERNBASE (sym_etext s4 - KERNBASE) (PTE_R OR PTE_X)) (\<lambda>s5.
      bindr (kvmmap s5 kpgtbl (sym_etext s5) (sym_etext s5) (PHYSTOP - sym_etext s5) (PTE_R OR PTE_W)) (\<lambda>s6.
      bindr (kvmmap s6 kpgtbl TRAMPOLINE (sym_trampoline s6) PGSIZE (PTE_R OR PTE_X)) (\<lambda>s7.
      bindr (proc_mapstacks s7 kpgtbl) (\<lambda>s8.
        Ret (kpgtbl, s8)))))))))"

section \<open>User page tables\<close>

definition uvmcreate :: "'z kmem_scheme \<Rightarrow> u64 \<times> 'z kmem_scheme" where
  "uvmcreate s =
     (let (pagetable, s1) = kalloc s in
      if pagetable = 0 then (0, s1)
      else (pagetable, s1\<lparr>pmem := memset (pmem s1) pagetable 0 (ucast PGSIZE)\<rparr>))"

text \<open>\<open>store_bytes m a bs\<close> is the memory after copying the kernel bytes \<open>bs\<close> to \<open>a\<close>.\<close>

definition store_bytes :: "mem \<Rightarrow> u64 \<Rightarrow> u8 list \<Rightarrow> mem" where
  "store_bytes m a bs = (\<lambda>x. if unat (x - a) < length bs then bs ! unat (x - a) else m x)"

definition uvmfirst :: "'z kmem_scheme \<Rightarrow> u64 \<Rightarrow> u8 list \<Rightarrow> 'z kmem_scheme res" where
  "uvmfirst s pagetable src =
     (if length src \<ge> 4096 then Panic ''uvmfirst: more than a page''
      else
        let (page, s1) = kalloc s;
            s2 = s1\<lparr>pmem := memset (pmem s1) page 0 (ucast PGSIZE)\<rparr> in
        bindr (mappages s2 pagetable 0 PGSIZE page (PTE_W OR PTE_R OR PTE_X OR PTE_U)) (\<lambda>(r, s3).
          Ret (s3\<lparr>pmem := store_bytes (pmem s3) page src\<rparr>)))"

definition uvmdealloc :: "'z kmem_scheme \<Rightarrow> u64 \<Rightarrow> u64 \<Rightarrow> u64 \<Rightarrow> (u64 \<times> 'z kmem_scheme) res" where
  "uvmdealloc s pagetable oldsz newsz =
     (if newsz \<ge> oldsz then Ret (oldsz, s)
      else if PGROUNDUP newsz < PGROUNDUP oldsz then
        (let npages = scast (ucast ((PGROUNDUP oldsz - PGROUNDUP newsz) div PGSIZE) :: u32) in
         bindr (uvmunmap s pagetable (PGROUNDUP newsz) npages True) (\<lambda>s1. Ret (newsz, s1)))
      else Ret (newsz, s))"

lemma mappages_Ret_less: "mappages s pt a sz pa perm = Ret r \<Longrightarrow> unat a < 2 ^ 38"
  by (auto simp: mappages_def mappages_loop.simps [of s pt a] res_simps dest!: walk_Ret_less split: if_splits)

function uvmalloc_loop ::
  "'z kmem_scheme \<Rightarrow> u64 \<Rightarrow> u64 \<Rightarrow> u64 \<Rightarrow> u64 \<Rightarrow> u64 \<Rightarrow> (u64 \<times> 'z kmem_scheme) res"
where
  "uvmalloc_loop s pagetable oldsz a newsz xperm =
     (if a < newsz then
        (let (page, s1) = kalloc s in
         if page = 0 then
           bindr (uvmdealloc s1 pagetable a oldsz) (\<lambda>(_, s2). Ret (0, s2))
         else
           let s2 = s1\<lparr>pmem := memset (pmem s1) page 0 (ucast PGSIZE)\<rparr> in
           bindr (mappages s2 pagetable a PGSIZE page (PTE_R OR PTE_U OR xperm)) (\<lambda>(r, s3).
             if r \<noteq> 0 then
               bindr (kfree s3 page) (\<lambda>s4.
               bindr (uvmdealloc s4 pagetable a oldsz) (\<lambda>(_, s5). Ret (0, s5)))
             else uvmalloc_loop s3 pagetable oldsz (a + PGSIZE) newsz xperm))
      else Ret (newsz, s))"
  by pat_completeness auto
termination
  by (relation "measure (\<lambda>(s, pt, oldsz, a, newsz, xperm). 2 ^ 38 - unat a)")
    (auto dest!: mappages_Ret_less intro!: page_step_decreases [simplified])

declare uvmalloc_loop.simps [simp del]

definition uvmalloc :: "'z kmem_scheme \<Rightarrow> u64 \<Rightarrow> u64 \<Rightarrow> u64 \<Rightarrow> u64 \<Rightarrow> (u64 \<times> 'z kmem_scheme) res" where
  "uvmalloc s pagetable oldsz newsz xperm =
     (if newsz < oldsz then Ret (oldsz, s)
      else
        let oldsz = PGROUNDUP oldsz in
        uvmalloc_loop s pagetable oldsz oldsz newsz xperm)"

text \<open>
  \<open>freewalk\<close>: entry \<open>i\<close> of the table at \<open>pagetable\<close> and the ones after it, then the table itself.  The
  recursion ends only on a finite tree, so the function returns an option, \<open>None\<close> where it does not.
\<close>

partial_function (option) freewalk_loop :: "'z kmem_scheme \<Rightarrow> u64 \<Rightarrow> nat \<Rightarrow> 'z kmem_scheme res option" where
  "freewalk_loop s pagetable i =
     (if i < 512 then
        let pte = load64 (pmem s) (pagetable + 8 * of_nat i) in
        if pte AND PTE_V \<noteq> 0 \<and> pte AND (PTE_R OR PTE_W OR PTE_X) = 0 then
          Option.bind (freewalk_loop s (PTE2PA pte) 0)
            (\<lambda>r.
               (case r of
                  Ret s1 \<Rightarrow>
                    freewalk_loop (s1\<lparr>pmem := store64 (pmem s1) (pagetable + 8 * of_nat i) 0\<rparr>) pagetable (Suc i)
                | Panic e \<Rightarrow> Some (Panic e)
                | Sleep c \<Rightarrow> Some (Sleep c)
                | Diverge \<Rightarrow> Some Diverge))
        else if pte AND PTE_V \<noteq> 0 then Some (Panic ''freewalk: leaf'')
        else freewalk_loop s pagetable (Suc i)
      else Some (kfree s pagetable))"

definition freewalk :: "'z kmem_scheme \<Rightarrow> u64 \<Rightarrow> 'z kmem_scheme res" where
  "freewalk s pagetable = of_option_res (freewalk_loop s pagetable 0)"

definition uvmfree :: "'z kmem_scheme \<Rightarrow> u64 \<Rightarrow> u64 \<Rightarrow> 'z kmem_scheme res" where
  "uvmfree s pagetable sz =
     bindr (if sz > 0 then uvmunmap s pagetable 0 (PGROUNDUP sz div PGSIZE) True else Ret s) (\<lambda>s1.
       freewalk s1 pagetable)"

function uvmcopy_loop ::
  "'z kmem_scheme \<Rightarrow> u64 \<Rightarrow> u64 \<Rightarrow> u64 \<Rightarrow> u64 \<Rightarrow> (int \<times> 'z kmem_scheme) res"
where
  "uvmcopy_loop s old new i sz =
     (if i < sz then
        bindr (walk s old i False) (\<lambda>(pte, s1).
          if pte = 0 then Panic ''uvmcopy: pte should exist''
          else if load64 (pmem s1) pte AND PTE_V = 0 then Panic ''uvmcopy: page not present''
          else
            let pa = PTE2PA (load64 (pmem s1) pte);
                flags = PTE_FLAGS (load64 (pmem s1) pte);
                (page, s2) = kalloc s1 in
            if page = 0 then
              bindr (uvmunmap s2 new 0 (i div PGSIZE) True) (\<lambda>s3. Ret (-1, s3))
            else
              let s3 = s2\<lparr>pmem := memmove (pmem s2) page pa (ucast PGSIZE)\<rparr> in
              bindr (mappages s3 new i PGSIZE page flags) (\<lambda>(r, s4).
                if r \<noteq> 0 then
                  bindr (kfree s4 page) (\<lambda>s5.
                  bindr (uvmunmap s5 new 0 (i div PGSIZE) True) (\<lambda>s6. Ret (-1, s6)))
                else uvmcopy_loop s4 old new (i + PGSIZE) sz))
      else Ret (0, s))"
  by pat_completeness auto
termination
  by (relation "measure (\<lambda>(s, old, new, i, sz). 2 ^ 38 - unat i)")
    (auto dest!: walk_Ret_less intro!: page_step_decreases [simplified])

declare uvmcopy_loop.simps [simp del]

definition uvmcopy :: "'z kmem_scheme \<Rightarrow> u64 \<Rightarrow> u64 \<Rightarrow> u64 \<Rightarrow> (int \<times> 'z kmem_scheme) res" where
  "uvmcopy s old new sz = uvmcopy_loop s old new 0 sz"

definition uvmclear :: "'z kmem_scheme \<Rightarrow> u64 \<Rightarrow> u64 \<Rightarrow> 'z kmem_scheme res" where
  "uvmclear s pagetable va =
     bindr (walk s pagetable va False) (\<lambda>(pte, s1).
       if pte = 0 then Panic ''uvmclear''
       else Ret (s1\<lparr>pmem := store64 (pmem s1) pte (load64 (pmem s1) pte AND NOT PTE_U)\<rparr>))"

section \<open>Copying between kernel and user memory\<close>

text \<open>\<open>n = PGSIZE - (va - va0)\<close>, cut to the bytes that are left.\<close>

definition chunk :: "u64 \<Rightarrow> nat \<Rightarrow> nat" where
  "chunk va len = (let n = unat (PGSIZE - (va - PGROUNDDOWN va)) in if n > len then len else n)"

lemma PGROUNDDOWN_offset: "unat (va - PGROUNDDOWN va) = unat va mod 4096"
proof -
  have "PGROUNDDOWN va \<le> va" by (simp add: word_le_nat_alt PGROUNDDOWN_unat)
  then show ?thesis by (simp add: unat_diff_eq PGROUNDDOWN_unat minus_div_mult_eq_mod)
qed

lemma chunk_eq: "chunk va len = min (4096 - unat va mod 4096) len"
proof -
  have "unat (PGSIZE - (va - PGROUNDDOWN va)) = 4096 - unat va mod 4096"
    unfolding unat_diff_eq [of PGSIZE] PGROUNDDOWN_offset word_le_nat_alt by (simp add: PGSIZE_def less_imp_le)
  then show ?thesis by (auto simp: chunk_def Let_def)
qed

lemma chunk_pos: "0 < len \<Longrightarrow> 0 < chunk va len"
  by (simp add: chunk_eq)

lemma chunk_le: "chunk va len \<le> len"
  by (simp add: chunk_eq)

function copyout :: "'z kmem_scheme \<Rightarrow> u64 \<Rightarrow> u64 \<Rightarrow> u8 list \<Rightarrow> int \<times> 'z kmem_scheme" where
  "copyout s pagetable dstva src =
     (if length src > 0 then
        let va0 = PGROUNDDOWN dstva in
        if va0 \<ge> MAXVA then (-1, s)
        else
          let pte = fst (walk_loop s pagetable va0 False 2) in
          if pte = 0 \<or> load64 (pmem s) pte AND PTE_V = 0 \<or> load64 (pmem s) pte AND PTE_U = 0 \<or>
             load64 (pmem s) pte AND PTE_W = 0
          then (-1, s)
          else
            let pa0 = PTE2PA (load64 (pmem s) pte);
                n = chunk dstva (length src);
                s1 = s\<lparr>pmem := store_bytes (pmem s) (pa0 + (dstva - va0)) (take n src)\<rparr>
            in copyout s1 pagetable (va0 + PGSIZE) (drop n src)
      else (0, s))"
  by pat_completeness auto
termination
  by (relation "measure (\<lambda>(s, pt, dstva, src). length src)") (auto simp: chunk_pos)

declare copyout.simps [simp del]

text \<open>\<open>copyin\<close>: the bytes stored through \<open>dst\<close>, and the return value.\<close>

function copyin :: "'z kmem_scheme \<Rightarrow> u64 \<Rightarrow> u64 \<Rightarrow> nat \<Rightarrow> int \<times> u8 list" where
  "copyin s pagetable srcva len =
     (if len > 0 then
        let va0 = PGROUNDDOWN srcva;
            pa0 = walkaddr s pagetable va0 in
        if pa0 = 0 then (-1, [])
        else
          let n = chunk srcva len;
              bs = bytes (pmem s) (pa0 + (srcva - va0)) n;
              (r, rest) = copyin s pagetable (va0 + PGSIZE) (len - n)
          in (r, bs @ rest)
      else (0, []))"
  by pat_completeness auto
termination
  by (relation "measure (\<lambda>(s, pt, srcva, len). len)") (auto simp: chunk_pos)

declare copyin.simps [simp del]

text \<open>
  \<open>copyinstr\<close>: one page's worth of the inner loop (the bytes copied up to a NUL, and whether there
  was one), then the outer loop.
\<close>

fun copyinstr_page :: "mem \<Rightarrow> u64 \<Rightarrow> nat \<Rightarrow> bool \<times> u8 list" where
  "copyinstr_page m p 0 = (False, [])"
| "copyinstr_page m p (Suc n) =
     (if m p = 0 then (True, [0])
      else let (got_null, bs) = copyinstr_page m (p + 1) n in (got_null, m p # bs))"

function copyinstr :: "'z kmem_scheme \<Rightarrow> u64 \<Rightarrow> u64 \<Rightarrow> nat \<Rightarrow> int \<times> u8 list" where
  "copyinstr s pagetable srcva max_len =
     (if max_len > 0 then
        let va0 = PGROUNDDOWN srcva;
            pa0 = walkaddr s pagetable va0 in
        if pa0 = 0 then (-1, [])
        else
          let n = chunk srcva max_len;
              (got_null, bs) = copyinstr_page (pmem s) (pa0 + (srcva - va0)) n in
          if got_null then (0, bs)
          else let (r, rest) = copyinstr s pagetable (va0 + PGSIZE) (max_len - n) in (r, bs @ rest)
      else (-1, []))"
  by pat_completeness auto
termination
  by (relation "measure (\<lambda>(s, pt, srcva, max_len). max_len)") (auto simp: chunk_pos)

declare copyinstr.simps [simp del]

end
