(* ===== verification/PageTable.thy ===== *)
theory PageTable
  imports Vm
begin

text \<open>
  Page tables as trees.  \<open>tables\<close> lists the pages a three-level table occupies in memory, \<open>leaf\<close> is the
  entry that a virtual address ends at, and a tree is well formed (\<open>tree_ok\<close>) when its pages are
  distinct usable pages outside the free list.  The theory shows how the code's accesses move between
  such trees: a walk that allocates grows the tree and changes no leaf, and a store to the entry a walk
  returns changes the leaf of that page and no other.
\<close>

section \<open>The tree of table pages\<close>

definition eaddr :: "u64 \<Rightarrow> nat \<Rightarrow> u64" where
  "eaddr pt i = pt + of_nat (8 * i)"

definition ent :: "mem \<Rightarrow> u64 \<Rightarrow> nat \<Rightarrow> u64" where
  "ent m pt i = load64 m (eaddr pt i)"

definition ix :: "nat \<Rightarrow> u64 \<Rightarrow> nat" where
  "ix l va = unat (PX l va)"

abbreviation valid :: "u64 \<Rightarrow> bool" where
  "valid pte \<equiv> pte AND PTE_V \<noteq> 0"

fun tables :: "mem \<Rightarrow> u64 \<Rightarrow> nat \<Rightarrow> u64 list" where
  "tables m pt 0 = [pt]"
| "tables m pt (Suc l) =
     pt # concat (map (\<lambda>i. if valid (ent m pt i) then tables m (PTE2PA (ent m pt i)) l else []) [0..<512])"

definition subtables :: "mem \<Rightarrow> u64 \<Rightarrow> nat \<Rightarrow> nat \<Rightarrow> u64 list" where
  "subtables m pt l i = (if valid (ent m pt i) then tables m (PTE2PA (ent m pt i)) l else [])"

lemma tables_Suc: "tables m pt (Suc l) = pt # concat (map (subtables m pt l) [0..<512])"
  by (simp add: subtables_def [abs_def])

declare tables.simps(2) [simp del]

lemma subtables_valid: "valid (ent m pt i) \<Longrightarrow> subtables m pt l i = tables m (PTE2PA (ent m pt i)) l"
  by (simp add: subtables_def)

lemma subtables_invalid: "\<not> valid (ent m pt i) \<Longrightarrow> subtables m pt l i = []"
  by (simp add: subtables_def)

fun descend :: "mem \<Rightarrow> u64 \<Rightarrow> u64 \<Rightarrow> nat \<Rightarrow> u64 option" where
  "descend m pt va 0 = Some pt"
| "descend m pt va (Suc l) =
     (let e = ent m pt (ix (Suc l) va) in if valid e then descend m (PTE2PA e) va l else None)"

fun leaf :: "mem \<Rightarrow> u64 \<Rightarrow> u64 \<Rightarrow> nat \<Rightarrow> u64" where
  "leaf m pt va 0 = ent m pt (ix 0 va)"
| "leaf m pt va (Suc l) =
     (let e = ent m pt (ix (Suc l) va) in if valid e then leaf m (PTE2PA e) va l else 0)"

text \<open>
  The entries above the last level point to tables: none of them has a permission bit, which is how
  \<open>freewalk\<close> tells them from leaves.
\<close>

definition interior_entry :: "u64 \<Rightarrow> bool" where
  "interior_entry e \<longleftrightarrow> e AND (PTE_R OR PTE_W OR PTE_X) = 0"

fun interior :: "mem \<Rightarrow> u64 \<Rightarrow> nat \<Rightarrow> bool" where
  "interior m pt 0 \<longleftrightarrow> True"
| "interior m pt (Suc l) \<longleftrightarrow>
     (\<forall>i<512. valid (ent m pt i) \<longrightarrow> interior_entry (ent m pt i) \<and> interior m (PTE2PA (ent m pt i)) l)"

definition same_on :: "u64 set \<Rightarrow> mem \<Rightarrow> mem \<Rightarrow> bool" where
  "same_on ps m m' \<longleftrightarrow> (\<forall>p\<in>ps. \<forall>x. in_page p x \<longrightarrow> m x = m' x)"

lemma same_onD: "same_on ps m m' \<Longrightarrow> p \<in> ps \<Longrightarrow> in_page p x \<Longrightarrow> m x = m' x"
  by (auto simp: same_on_def)

lemma same_on_mono: "same_on ps m m' \<Longrightarrow> qs \<subseteq> ps \<Longrightarrow> same_on qs m m'"
  by (auto simp: same_on_def)

lemma ix_less [simp]: "ix l va < 512"
proof -
  have "PX l va \<le> 0x1FF" by (simp add: PX_def word_and_le1)
  then show ?thesis by (simp add: ix_def word_le_nat_alt)
qed

lemma slot_eq: "slot pt l va = eaddr pt (ix l va)"
  by (simp add: slot_def ix_def eaddr_def)

lemma load64_slot: "load64 m (slot pt l va) = ent m pt (ix l va)"
  by (simp add: slot_eq ent_def)

lemma ent_cong: "same_on {pt} m m' \<Longrightarrow> i < 512 \<Longrightarrow> ent m pt i = ent m' pt i"
  unfolding ent_def eaddr_def by (rule load64_page_cong) (auto simp: same_on_def)

lemma tables_self [simp]: "pt \<in> set (tables m pt l)"
  by (cases l) (auto simp: tables_Suc)

lemma set_tables_Suc: "set (tables m pt (Suc l)) = insert pt (\<Union>i<512. set (subtables m pt l i))"
  by (auto simp: tables_Suc)

lemma subtables_subset: "i < 512 \<Longrightarrow> set (subtables m pt l i) \<subseteq> set (tables m pt (Suc l))"
  unfolding set_tables_Suc by blast

lemma tables_cong: "same_on (set (tables m pt l)) m m' \<Longrightarrow> tables m' pt l = tables m pt l"
proof (induction l arbitrary: pt)
  case (Suc l)
  have e: "ent m' pt i = ent m pt i" if "i < 512" for i
    using ent_cong [of pt m m' i] that same_on_mono [OF Suc.prems, of "{pt}"] by simp
  have "subtables m' pt l i = subtables m pt l i" if "i < 512" for i
    using Suc.IH [of "PTE2PA (ent m pt i)"] same_on_mono [OF Suc.prems subtables_subset [OF that]] e [OF that]
    by (cases "valid (ent m pt i)") (simp_all add: subtables_valid subtables_invalid)
  then have "map (subtables m' pt l) [0..<512] = map (subtables m pt l) [0..<512]" by simp
  then show ?case by (simp only: tables_Suc)
qed simp

lemma leaf_cong: "same_on (set (tables m pt l)) m m' \<Longrightarrow> leaf m' pt va l = leaf m pt va l"
proof (induction l arbitrary: pt)
  case 0
  then show ?case using ent_cong [of pt m m' "ix 0 va"] by simp
next
  case (Suc l)
  let ?i = "ix (Suc l) va"
  have e: "ent m' pt ?i = ent m pt ?i"
    using ent_cong [of pt m m' ?i] same_on_mono [OF Suc.prems, of "{pt}"] by simp
  show ?case
    using Suc.IH [of "PTE2PA (ent m pt ?i)"] same_on_mono [OF Suc.prems subtables_subset [of ?i]] e
    by (cases "valid (ent m pt ?i)") (simp_all add: Let_def subtables_valid)
qed

lemma descend_cong: "same_on (set (tables m pt l)) m m' \<Longrightarrow> descend m' pt va l = descend m pt va l"
proof (induction l arbitrary: pt)
  case (Suc l)
  let ?i = "ix (Suc l) va"
  have e: "ent m' pt ?i = ent m pt ?i"
    using ent_cong [of pt m m' ?i] same_on_mono [OF Suc.prems, of "{pt}"] by simp
  show ?case
    using Suc.IH [of "PTE2PA (ent m pt ?i)"] same_on_mono [OF Suc.prems subtables_subset [of ?i]] e
    by (cases "valid (ent m pt ?i)") (simp_all add: Let_def subtables_valid)
qed simp

lemma interior_cong: "same_on (set (tables m pt l)) m m' \<Longrightarrow> interior m' pt l = interior m pt l"
proof (induction l arbitrary: pt)
  case (Suc l)
  have e: "ent m' pt i = ent m pt i" if "i < 512" for i
    using ent_cong [of pt m m' i] that same_on_mono [OF Suc.prems, of "{pt}"] by simp
  have "interior m' (PTE2PA (ent m pt i)) l = interior m (PTE2PA (ent m pt i)) l"
    if "i < 512" "valid (ent m pt i)" for i
    using Suc.IH [of "PTE2PA (ent m pt i)"] same_on_mono [OF Suc.prems subtables_subset [OF that(1)]] that(2)
    by (simp add: subtables_valid)
  with e show ?case by auto
qed simp

lemma descend_in_tables: "descend m pt va l = Some t \<Longrightarrow> t \<in> set (tables m pt l)"
proof (induction l arbitrary: pt)
  case (Suc l)
  let ?i = "ix (Suc l) va"
  from Suc have "t \<in> set (subtables m pt l ?i)" by (auto simp: Let_def subtables_def split: if_splits)
  then show ?case using subtables_subset [of ?i m pt l] by auto
qed simp

lemma leaf_descend:
  "leaf m pt va l = (case descend m pt va l of None \<Rightarrow> 0 | Some t \<Rightarrow> ent m t (ix 0 va))"
  by (induction l arbitrary: pt) (simp_all add: Let_def)

lemma walk_noalloc:
  "walk_loop s pt va False l =
     ((case descend (pmem s) pt va l of None \<Rightarrow> 0 | Some t \<Rightarrow> slot t 0 va), s)"
  by (induction l arbitrary: pt) (simp_all add: Let_def load64_slot)

lemma concat_upt_split:
  assumes "i < n"
  shows "concat (map f [0..<n]) = concat (map f [0..<i]) @ f i @ concat (map f [Suc i..<n])"
proof -
  have "[0..<n] = [0..<i] @ i # [Suc i..<n]"
    using assms upt_add_eq_append [of 0 i "n - i"] by (simp add: upt_conv_Cons)
  then show ?thesis by simp
qed

lemma distinct_subtables:
  assumes "distinct (tables m pt (Suc l))" "i < 512"
  shows "distinct (subtables m pt l i)" "pt \<notin> set (subtables m pt l i)"
    "\<And>j. j < 512 \<Longrightarrow> j \<noteq> i \<Longrightarrow> set (subtables m pt l i) \<inter> set (subtables m pt l j) = {}"
proof -
  let ?f = "subtables m pt l"
  have *: "distinct (pt # concat (map ?f [0..<i]) @ ?f i @ concat (map ?f [Suc i..<512]))"
    using assms(1) unfolding tables_Suc concat_upt_split [OF assms(2)] .
  then show "distinct (?f i)" "pt \<notin> set (?f i)" by simp_all
  fix j :: nat assume "j < 512" "j \<noteq> i"
  then have "set (?f j) \<subseteq> set (concat (map ?f [0..<i])) \<union> set (concat (map ?f [Suc i..<512]))"
    by (cases "j < i") force+
  moreover have "set (?f i) \<inter> (set (concat (map ?f [0..<i])) \<union> set (concat (map ?f [Suc i..<512]))) = {}"
    using * by (simp only: distinct.simps distinct_append set_append) blast
  ultimately show "set (?f i) \<inter> set (?f j) = {}" by blast
qed

lemma tables_slot_change:
  assumes "i < 512" and "\<And>j. j < 512 \<Longrightarrow> j \<noteq> i \<Longrightarrow> ent m' pt j = ent m pt j"
    and "\<And>j. j < 512 \<Longrightarrow> j \<noteq> i \<Longrightarrow> same_on (set (subtables m pt l j)) m m'"
  shows "mset (tables m' pt (Suc l)) + mset (subtables m pt l i) =
      mset (tables m pt (Suc l)) + mset (subtables m' pt l i)"
    and "ix (Suc l) va \<noteq> i \<Longrightarrow> leaf m' pt va (Suc l) = leaf m pt va (Suc l)"
proof -
  have eq: "subtables m' pt l j = subtables m pt l j" if "j < 512" "j \<noteq> i" for j
    using assms(2,3) [OF that] tables_cong [of m "PTE2PA (ent m pt j)" l m']
    by (cases "valid (ent m pt j)") (simp_all add: subtables_valid subtables_invalid)
  have maps: "map (subtables m' pt l) [0..<i] = map (subtables m pt l) [0..<i]"
    "map (subtables m' pt l) [Suc i..<512] = map (subtables m pt l) [Suc i..<512]"
    using assms(1) by (intro map_cong refl eq; simp)+
  show "mset (tables m' pt (Suc l)) + mset (subtables m pt l i) =
      mset (tables m pt (Suc l)) + mset (subtables m' pt l i)"
    unfolding tables_Suc concat_upt_split [OF assms(1)] maps by simp
  assume "ix (Suc l) va \<noteq> i"
  then show "leaf m' pt va (Suc l) = leaf m pt va (Suc l)"
    using assms(2,3) [of "ix (Suc l) va"] leaf_cong [of m "PTE2PA (ent m pt (ix (Suc l) va))" l m']
    by (cases "valid (ent m pt (ix (Suc l) va))") (simp_all add: Let_def subtables_valid)
qed

lemma interior_slot_change:
  assumes "i < 512" and "\<And>j. j < 512 \<Longrightarrow> j \<noteq> i \<Longrightarrow> ent m' pt j = ent m pt j"
    and "\<And>j. j < 512 \<Longrightarrow> j \<noteq> i \<Longrightarrow> same_on (set (subtables m pt l j)) m m'"
    and "interior m pt (Suc l)"
    and "valid (ent m' pt i) \<Longrightarrow> interior_entry (ent m' pt i) \<and> interior m' (PTE2PA (ent m' pt i)) l"
  shows "interior m' pt (Suc l)"
proof -
  have "interior_entry (ent m' pt j) \<and> interior m' (PTE2PA (ent m' pt j)) l"
    if j: "j < 512" "valid (ent m' pt j)" for j
  proof (cases "j = i")
    case False
    then show ?thesis
      using assms(2,3) [OF j(1) False] assms(4) j interior_cong [of m "PTE2PA (ent m pt j)" l m']
      by (simp add: subtables_valid)
  qed (use assms(5) j in simp)
  then show ?thesis by simp
qed

section \<open>Entries\<close>

lemma valid_leaf [simp]: "valid (e OR PTE_V)"
proof
  assume "(e OR PTE_V) AND PTE_V = 0"
  moreover have "bit ((e OR PTE_V) AND PTE_V) 0" by (simp add: PTE_V_def bit_simps)
  ultimately show False by simp
qed

lemma PTE_V_nonzero [simp]: "PTE_V \<noteq> 0" by (simp add: PTE_V_def)

lemma not_valid_0 [simp]: "\<not> valid 0" by simp

lemma interior_table_entry: "interior_entry (PA2PTE p OR PTE_V)"
proof -
  have "push_bit 10 q AND take_bit 4 f = 0" for q f :: u64
    by (rule bit_word_eqI) (auto simp: bit_simps)
  from this [of _ 14] have "push_bit 10 q AND 14 = 0" for q :: u64 by simp
  then show ?thesis
    by (simp add: interior_entry_def PTE_R_def PTE_W_def PTE_X_def PA2PTE_def PTE_V_def bit.conj_disj_distrib2)
qed

lemma PTE2PA_PA2PTE:
  assumes "aligned 12 p" "f < 1024"
  shows "PTE2PA (PA2PTE p OR f) = p"
proof (rule bit_word_eqI)
  fix n assume n: "n < LENGTH(64)"
  have lo: "\<not> bit p k" if "k < 12" for k
  proof -
    have "take_bit 12 p = 0"
      using assms(1) by (simp add: aligned_def take_bit_eq_mod word_unat_eq_iff unat_mod)
    with that show ?thesis by (metis bit_take_bit_iff bit_0_eq bot_apply bot_bool_def)
  qed
  have hi: "\<not> bit f k" if "k \<ge> 10" for k
  proof -
    have "drop_bit 10 f = 0"
      using assms(2) by (simp add: drop_bit_eq_div word_unat_eq_iff unat_div word_less_nat_alt)
    then have "\<not> bit (drop_bit 10 f) (k - 10)" by simp
    with that show ?thesis by (simp add: bit_drop_bit_eq)
  qed
  show "bit (PTE2PA (PA2PTE p OR f)) n = bit p n"
    using n lo [of n] hi [of "n - 12 + 10"] by (cases "n < 12") (auto simp: PTE2PA_def PA2PTE_def bit_simps)
qed

section \<open>Walking with allocation\<close>

text \<open>The state changes only in its memory and its free list.\<close>

definition kmem_only :: "'z kmem_scheme \<Rightarrow> 'z kmem_scheme \<Rightarrow> bool" where
  "kmem_only s s' \<longleftrightarrow> s' = s\<lparr>pmem := pmem s', freelist := freelist s'\<rparr>"

lemma kmem_only_refl [simp]: "kmem_only s s" by (simp add: kmem_only_def)

lemma kmem_only_trans: "kmem_only s s' \<Longrightarrow> kmem_only s' s'' \<Longrightarrow> kmem_only s s''"
  unfolding kmem_only_def by (cases s; cases s'; cases s'') simp

lemma kmem_only_page_ok: "kmem_only s s' \<Longrightarrow> page_ok s' = page_ok s"
  unfolding kmem_only_def by (cases s; cases s') (auto simp: page_ok_def)

lemma kmem_only_sym_end: "kmem_only s s' \<Longrightarrow> sym_end s' = sym_end s"
  unfolding kmem_only_def by (cases s; cases s') simp

definition unchanged_off :: "u64 set \<Rightarrow> mem \<Rightarrow> mem \<Rightarrow> bool" where
  "unchanged_off ps m m' \<longleftrightarrow> (\<forall>x. (\<forall>p\<in>ps. \<not> in_page p x) \<longrightarrow> m' x = m x)"

lemma unchanged_off_refl [simp]: "unchanged_off ps m m" by (simp add: unchanged_off_def)

lemma unchanged_off_trans:
  "unchanged_off ps m m' \<Longrightarrow> unchanged_off qs m' m'' \<Longrightarrow> unchanged_off (ps \<union> qs) m m''"
  by (auto simp: unchanged_off_def)

lemma unchanged_off_mono: "unchanged_off ps m m' \<Longrightarrow> ps \<subseteq> qs \<Longrightarrow> unchanged_off qs m m'"
  by (auto simp: unchanged_off_def)

lemma unchanged_same_on:
  assumes "unchanged_off ps m m'" "ps \<inter> qs = {}" "\<forall>p\<in>ps \<union> qs. aligned 12 p"
  shows "same_on qs m m'"
  unfolding same_on_def
proof (intro ballI allI impI)
  fix p x assume "p \<in> qs" "in_page p x"
  then have "\<not> in_page q x" if "q \<in> ps" for q
    using in_page_unique [of q p x] assms(2,3) that by blast
  then show "m x = m' x" using assms(1) by (simp add: unchanged_off_def)
qed

text \<open>A page just cleared is a tree with one table and no leaf.\<close>

lemma ent_zero_page:
  assumes "\<And>x. in_page p x \<Longrightarrow> m x = 0" "i < 512"
  shows "ent m p i = 0"
proof -
  have "ent m p i = ent (\<lambda>_. 0) p i"
    using assms by (intro ent_cong) (auto simp: same_on_def)
  also have "\<dots> = 0"
    unfolding ent_def by (rule bit_word_eqI) (simp add: bit_load64)
  finally show ?thesis .
qed

lemma zero_page_tree:
  assumes "\<And>x. in_page p x \<Longrightarrow> m x = 0"
  shows "tables m p l = [p]" "leaf m p va l = 0" "interior m p l"
proof -
  show "tables m p l = [p]"
  proof (cases l)
    case (Suc k)
    have "map (subtables m p k) [0..<512] = map (\<lambda>_. []) [0..<512]"
      using ent_zero_page [OF assms] by (intro map_cong refl) (simp add: subtables_def)
    moreover have "concat (map (\<lambda>_. []) xs) = ([] :: u64 list)" for xs :: "nat list"
      by (induction xs) auto
    ultimately show ?thesis by (simp only: Suc tables_Suc)
  qed simp
  show "leaf m p va l = 0" "interior m p l"
    using ent_zero_page [OF assms] by (cases l; simp)+
qed


text \<open>
  \<open>tree_ok s pt l ps\<close>: the table pages of the tree at \<open>pt\<close> are distinct usable pages and none of them
  is free; \<open>ps\<close> is the free list.  \<open>evolved s s' pt l us rs\<close>: the tree gained the table pages \<open>us\<close>, the
  free list is now \<open>rs\<close>, and no byte outside the tree changed.  \<open>grown\<close>: moreover no leaf entry changed.
\<close>

definition tree_ok :: "'z kmem_scheme \<Rightarrow> u64 \<Rightarrow> nat \<Rightarrow> u64 list \<Rightarrow> bool" where
  "tree_ok s pt l ps \<longleftrightarrow>
     free_pages s ps \<and> distinct (tables (pmem s) pt l @ ps) \<and> list_all (page_ok s) (tables (pmem s) pt l)"

definition evolved :: "'z kmem_scheme \<Rightarrow> 'z kmem_scheme \<Rightarrow> u64 \<Rightarrow> nat \<Rightarrow> u64 list \<Rightarrow> u64 list \<Rightarrow> bool" where
  "evolved s s' pt l us rs \<longleftrightarrow>
     free_pages s' rs \<and> kmem_only s s' \<and>
     mset (tables (pmem s') pt l) = mset (tables (pmem s) pt l) + mset us \<and>
     (interior (pmem s) pt l \<longrightarrow> interior (pmem s') pt l) \<and>
     unchanged_off (set (tables (pmem s) pt l) \<union> set us) (pmem s) (pmem s')"

definition grown :: "'z kmem_scheme \<Rightarrow> 'z kmem_scheme \<Rightarrow> u64 \<Rightarrow> nat \<Rightarrow> u64 list \<Rightarrow> u64 list \<Rightarrow> bool" where
  "grown s s' pt l us rs \<longleftrightarrow>
     evolved s s' pt l us rs \<and> (\<forall>va. leaf (pmem s') pt va l = leaf (pmem s) pt va l)"

lemma tree_ok_aligned:
  assumes "tree_ok s pt l ps" "p \<in> set (tables (pmem s) pt l) \<union> set ps"
  shows "aligned 12 p"
  using assms by (auto simp: tree_ok_def free_pages_def page_ok_def list_all_iff)

lemma tree_ok_root_used: "tree_ok s pt l ps \<Longrightarrow> pt \<notin> set ps"
  unfolding tree_ok_def by (metis tables_self disjoint_iff distinct_append)

lemma evolved_set: "evolved s s' pt l us rs \<Longrightarrow> set (tables (pmem s') pt l) = set (tables (pmem s) pt l) \<union> set us"
  unfolding evolved_def by (metis set_mset_mset set_mset_union)

lemma evolved_tree_ok:
  assumes "tree_ok s pt l (us @ rs)" "evolved s s' pt l us rs"
  shows "tree_ok s' pt l rs"
proof -
  have ok: "page_ok s' = page_ok s" using assms(2) by (simp add: evolved_def kmem_only_page_ok)
  have "mset (tables (pmem s') pt l @ rs) = mset (tables (pmem s) pt l @ us @ rs)"
    using assms(2) by (simp add: evolved_def)
  then have "distinct (tables (pmem s') pt l @ rs)"
    using assms(1) mset_eq_imp_distinct_iff unfolding tree_ok_def by blast
  moreover have "list_all (page_ok s') (tables (pmem s') pt l)"
    using assms(1) evolved_set [OF assms(2)] unfolding ok
    by (auto simp: tree_ok_def free_pages_def list_all_iff)
  ultimately show ?thesis using assms(2) by (simp add: tree_ok_def evolved_def)
qed

lemma evolved_refl: "free_pages s ps \<Longrightarrow> evolved s s pt l [] ps"
  by (simp add: evolved_def)

lemma evolved_trans:
  assumes "evolved s s1 pt l us rs1" "evolved s1 s2 pt l us' rs"
  shows "evolved s s2 pt l (us @ us') rs"
proof -
  have "unchanged_off ((set (tables (pmem s) pt l) \<union> set us) \<union> (set (tables (pmem s1) pt l) \<union> set us')) (pmem s) (pmem s2)"
    by (rule unchanged_off_trans [of _ _ "pmem s1"]) (use assms in \<open>simp_all add: evolved_def\<close>)
  then have "unchanged_off (set (tables (pmem s) pt l) \<union> set (us @ us')) (pmem s) (pmem s2)"
    using evolved_set [OF assms(1)] by (simp add: Un_ac)
  then show ?thesis
    using assms kmem_only_trans [of s s1 s2] by (auto simp: evolved_def)
qed

lemma grown_refl: "free_pages s ps \<Longrightarrow> grown s s pt l [] ps"
  by (simp add: grown_def evolved_refl)

lemma grown_trans: "grown s s1 pt l us rs1 \<Longrightarrow> grown s1 s2 pt l us' rs \<Longrightarrow> grown s s2 pt l (us @ us') rs"
  unfolding grown_def using evolved_trans by metis

lemma grown_tree_ok: "tree_ok s pt l (us @ rs) \<Longrightarrow> grown s s' pt l us rs \<Longrightarrow> tree_ok s' pt l rs"
  unfolding grown_def using evolved_tree_ok by blast

lemma tree_ok_child:
  assumes "tree_ok s pt (Suc l) ps" "i < 512" "valid (ent (pmem s) pt i)"
  shows "tree_ok s (PTE2PA (ent (pmem s) pt i)) l ps"
proof -
  have sub: "set (tables (pmem s) (PTE2PA (ent (pmem s) pt i)) l) \<subseteq> set (tables (pmem s) pt (Suc l))"
    using subtables_subset [OF assms(2), of "pmem s" pt l] assms(3) by (simp add: subtables_valid)
  moreover have "distinct (tables (pmem s) (PTE2PA (ent (pmem s) pt i)) l)"
    using distinct_subtables(1) [of "pmem s" pt l i] assms by (simp add: subtables_valid tree_ok_def)
  ultimately show ?thesis using assms(1) by (auto simp: tree_ok_def list_all_iff)
qed

text \<open>Growth below one entry is growth of the whole tree.\<close>

lemma grown_child:
  assumes ok: "tree_ok s pt (Suc l) (us @ rs)" and i: "i < 512" and v: "valid (ent (pmem s) pt i)"
    and c: "c = PTE2PA (ent (pmem s) pt i)" and g: "grown s s' c l us rs"
  shows "grown s s' pt (Suc l) us rs" "ent (pmem s') pt i = ent (pmem s) pt i"
proof -
  let ?m = "pmem s" and ?m' = "pmem s'"
  have dist: "distinct (tables ?m pt (Suc l))" using ok by (simp add: tree_ok_def)
  have sub_i: "subtables ?m pt l i = tables ?m c l" using v c by (simp add: subtables_valid)
  have off: "unchanged_off (set (tables ?m c l) \<union> set us) ?m ?m'" using g by (simp add: grown_def evolved_def)
  have keep: "same_on qs ?m ?m'"
    if "qs \<subseteq> set (tables ?m pt (Suc l))" "qs \<inter> set (tables ?m c l) = {}" for qs
  proof (rule unchanged_same_on [OF off])
    have "qs \<inter> set us = {}" using ok that(1) by (auto simp: tree_ok_def)
    with that(2) show "(set (tables ?m c l) \<union> set us) \<inter> qs = {}" by blast
    have "set (tables ?m c l) \<subseteq> set (tables ?m pt (Suc l))"
      using subtables_subset [OF i] unfolding sub_i [symmetric] .
    then show "\<forall>p\<in>set (tables ?m c l) \<union> set us \<union> qs. aligned 12 p"
      using tree_ok_aligned [OF ok] that(1) by auto
  qed
  have "same_on {pt} ?m ?m'"
    using keep [of "{pt}"] distinct_subtables(2) [OF dist i] by (simp add: sub_i)
  then have ent: "ent ?m' pt j = ent ?m pt j" if "j < 512" for j
    using ent_cong [of pt ?m ?m' j] that by simp
  show "ent ?m' pt i = ent ?m pt i" using ent [OF i] .
  have others: "same_on (set (subtables ?m pt l j)) ?m ?m'" if "j < 512" "j \<noteq> i" for j
    using keep [OF subtables_subset [OF that(1)]] distinct_subtables(3) [OF dist i that]
    by (simp add: sub_i Int_commute)
  note change = tables_slot_change [OF i ent others, simplified]
  have sub_i': "subtables ?m' pt l i = tables ?m' c l" using v c ent [OF i] by (simp add: subtables_valid)
  have "mset (tables ?m' pt (Suc l)) = mset (tables ?m pt (Suc l)) + mset us"
    using change(1) g unfolding sub_i sub_i' by (simp add: grown_def evolved_def)
  moreover have "leaf ?m' pt va (Suc l) = leaf ?m pt va (Suc l)" for va
    using change(2) [of va] g v c ent [OF i]
    by (cases "ix (Suc l) va = i") (simp_all add: grown_def Let_def)
  moreover have "unchanged_off (set (tables ?m pt (Suc l)) \<union> set us) ?m ?m'"
    using subtables_subset [OF i, of ?m pt l] unfolding sub_i by (intro unchanged_off_mono [OF off]) auto
  moreover have "interior ?m pt (Suc l) \<longrightarrow> interior ?m' pt (Suc l)"
    using interior_slot_change [OF i ent others, simplified] g v c i ent [OF i]
    by (auto simp: grown_def evolved_def)
  ultimately show "grown s s' pt (Suc l) us rs" using g unfolding grown_def evolved_def by blast
qed


lemma free_pages_cong:
  assumes "free_pages s ps" "same_on (set ps) (pmem s) (pmem s')" "kmem_only s s'" "freelist s' = freelist s"
  shows "free_pages s' ps"
proof -
  have "chain (pmem s) (freelist s) ps = chain (pmem s') (freelist s) ps"
    using assms(2) by (intro chain_cong) (auto simp: same_on_def)
  moreover have "sym_end s' = sym_end s" "page_ok s' = page_ok s"
    using assms(3) by (simp_all add: kmem_only_page_ok kmem_only_sym_end)
  ultimately show ?thesis using assms(1,4) by (simp add: free_pages_def)
qed

lemma ent_store64_same: "i < 512 \<Longrightarrow> ent (store64 m (eaddr pt i) v) pt i = v"
  by (simp add: ent_def)

lemma unat_slot:
  assumes "aligned 12 pt" "i < 512"
  shows "unat (eaddr pt i) = unat pt + 8 * i"
proof -
  obtain q where q: "unat pt = 4096 * q" using assms(1) by (auto simp: aligned_def elim!: dvdE)
  moreover have "unat (of_nat (8 * i) :: u64) = 8 * i"
    using assms(2) unat_of_nat [of "8 * i", where ?'a = 64] by (simp del: of_nat_mult)
  ultimately show ?thesis
    using unat_less_2p64 [of pt] assms(2) by (simp add: unat_add_eq eaddr_def del: of_nat_mult)
qed

lemma slot_aligned: "aligned 12 pt \<Longrightarrow> i < 512 \<Longrightarrow> aligned 3 (eaddr pt i)"
  unfolding aligned_def by (subst unat_slot) (auto simp: aligned_def elim!: dvdE)

lemma ent_store64_other:
  assumes "aligned 12 pt" "i < 512" "j < 512" "j \<noteq> i"
  shows "ent (store64 m (eaddr pt i) v) pt j = ent m pt j"
proof -
  have "eaddr pt i \<noteq> eaddr pt j"
    using unat_slot [of pt i] unat_slot [of pt j] assms by auto
  then show ?thesis
    using assms slot_aligned unfolding ent_def by (intro load64_store64_other) auto
qed

lemma store64_off: "i < 512 \<Longrightarrow> unchanged_off {pt} m (store64 m (eaddr pt i) v)"
  using store64_in_page [of "8 * i" pt _ m v] by (auto simp: unchanged_off_def eaddr_def)

lemma fill_off: "unchanged_off {p} m (fill m p c 4096)"
  by (auto simp: unchanged_off_def fill_outside)

definition installed :: "'z kmem_scheme \<Rightarrow> u64 \<Rightarrow> nat \<Rightarrow> u64 \<Rightarrow> 'z kmem_scheme" where
  "installed s pt i p = s\<lparr>freelist := load64 (pmem s) p,
     pmem := store64 (fill (fill (pmem s) p 5 4096) p 0 4096) (eaddr pt i) (PA2PTE p OR PTE_V)\<rparr>"

lemma installed_mem:
  assumes "aligned 12 pt" "aligned 12 p" "pt \<noteq> p" "i < 512"
  shows "ent (pmem (installed s pt i p)) pt i = PA2PTE p OR PTE_V"
    "\<And>j. j < 512 \<Longrightarrow> j \<noteq> i \<Longrightarrow> ent (pmem (installed s pt i p)) pt j = ent (pmem s) pt j"
    "unchanged_off {pt, p} (pmem s) (pmem (installed s pt i p))"
    "\<And>x. in_page p x \<Longrightarrow> pmem (installed s pt i p) x = 0"
proof -
  let ?m1 = "fill (fill (pmem s) p 5 4096) p 0 4096"
  have off1: "unchanged_off {p} (pmem s) ?m1"
    using unchanged_off_trans [OF fill_off [of p "pmem s" 5] fill_off [of p _ 0]] by simp
  have same: "same_on {pt} (pmem s) ?m1"
    using assms by (intro unchanged_same_on [OF off1]) auto
  show "ent (pmem (installed s pt i p)) pt i = PA2PTE p OR PTE_V"
    by (simp add: installed_def ent_store64_same assms)
  show "ent (pmem (installed s pt i p)) pt j = ent (pmem s) pt j" if "j < 512" "j \<noteq> i" for j
    using ent_cong [OF same that(1)] that assms by (simp add: installed_def ent_store64_other)
  show "unchanged_off {pt, p} (pmem s) (pmem (installed s pt i p))"
    using unchanged_off_trans [OF off1 store64_off [OF assms(4), of pt _ "PA2PTE p OR PTE_V"]]
    by (simp add: installed_def insert_commute)
  fix x assume x: "in_page p x"
  then have "\<not> in_page pt x" using in_page_unique assms by blast
  with x show "pmem (installed s pt i p) x = 0"
    using store64_in_page [of "8 * i" pt x] assms(4) by (simp add: installed_def fill_inside eaddr_def)
qed

lemma install_grows:
  assumes ok: "tree_ok s pt (Suc l) (p # ps)" and i: "i < 512" and inv: "\<not> valid (ent (pmem s) pt i)"
  shows "grown s (installed s pt i p) pt (Suc l) [p] ps"
proof -
  let ?s = "installed s pt i p" and ?m = "pmem s"
  have al: "aligned 12 pt" "aligned 12 p" using tree_ok_aligned [OF ok] by auto
  have np: "pt \<noteq> p" "p \<notin> set (tables ?m pt (Suc l))"
    using tree_ok_root_used [OF ok] ok by (auto simp: tree_ok_def)
  note mem = installed_mem [OF al np(1) i, where s = s]
  have dist: "distinct (tables ?m pt (Suc l))" using ok by (simp add: tree_ok_def)
  have keep: "same_on qs ?m (pmem ?s)" if "pt \<notin> qs" "p \<notin> qs" "qs \<subseteq> set (tables ?m pt (Suc l)) \<union> set ps" for qs
    using that al tree_ok_aligned [OF ok] by (intro unchanged_same_on [OF mem(3)]) auto
  have others: "same_on (set (subtables ?m pt l j)) ?m (pmem ?s)" if "j < 512" for j
  proof (rule keep)
    show "pt \<notin> set (subtables ?m pt l j)" by (rule distinct_subtables(2) [OF dist that])
    show "p \<notin> set (subtables ?m pt l j)" using np(2) subtables_subset [OF that] by blast
    show "set (subtables ?m pt l j) \<subseteq> set (tables ?m pt (Suc l)) \<union> set ps"
      using subtables_subset [OF that] by blast
  qed
  have sub_p: "subtables (pmem ?s) pt l i = [p]"
    using mem(1) PTE2PA_PA2PTE [OF al(2), of PTE_V] zero_page_tree(1) [OF mem(4)]
    by (simp add: subtables_valid PTE_V_def)
  note change = tables_slot_change [OF i mem(2) others, simplified]
  have "mset (tables (pmem ?s) pt (Suc l)) = mset (tables ?m pt (Suc l)) + mset [p]"
    using change(1) inv unfolding sub_p by (simp add: subtables_invalid)
  moreover have "leaf (pmem ?s) pt va (Suc l) = leaf ?m pt va (Suc l)" for va
    using change(2) [of va] inv mem(1) zero_page_tree(2) [OF mem(4)] PTE2PA_PA2PTE [OF al(2), of PTE_V]
    by (cases "ix (Suc l) va = i") (simp_all add: Let_def PTE_V_def)
  moreover have "free_pages ?s ps"
  proof -
    have "pt \<notin> set ps" "p \<notin> set ps" using tree_ok_root_used [OF ok] ok by (auto simp: tree_ok_def)
    then have "chain (pmem s) q ps = chain (pmem ?s) q ps" for q
      using keep [of "set ps"] by (intro chain_cong) (auto simp: same_on_def)
    then show ?thesis
      using ok by (auto simp: tree_ok_def free_pages_def installed_def page_ok_def list_all_iff)
  qed
  moreover have "unchanged_off (set (tables ?m pt (Suc l)) \<union> set [p]) ?m (pmem ?s)"
    by (rule unchanged_off_mono [OF mem(3)]) simp
  moreover have "kmem_only s ?s" by (simp add: kmem_only_def installed_def)
  moreover have "interior ?m pt (Suc l) \<longrightarrow> interior (pmem ?s) pt (Suc l)"
    using interior_slot_change [OF i mem(2) others, simplified] mem(1) interior_table_entry
      zero_page_tree(3) [OF mem(4)] PTE2PA_PA2PTE [OF al(2), of PTE_V]
    by (auto simp: PTE_V_def)
  ultimately show ?thesis unfolding grown_def evolved_def by blast
qed

lemma walk_install:
  assumes "free_pages s (p # ps)" "\<not> valid (ent (pmem s) pt (ix (Suc l) va))"
  shows "walk_loop s pt va True (Suc l) = walk_loop (installed s pt (ix (Suc l) va) p) p va True l"
proof -
  have "load64 (pmem s) (slot pt (Suc l) va) AND PTE_V = 0" using assms(2) by (simp add: load64_slot)
  moreover have "p \<noteq> 0" using assms(1) by (simp add: free_pages_def)
  ultimately show ?thesis
    by (simp add: kalloc_page [OF assms(1)] installed_def memset_eq Let_def flip: slot_eq)
qed

lemma walk_alloc:
  assumes "tree_ok s pt l ps" "walk_loop s pt va True l = (pte, s')"
  shows "\<exists>us rs. ps = us @ rs \<and> grown s s' pt l us rs \<and>
    (case descend (pmem s') pt va l of None \<Rightarrow> pte = 0 \<and> rs = [] | Some t \<Rightarrow> pte = slot t 0 va)"
  using assms
proof (induction l arbitrary: s pt ps)
  case 0
  then show ?case by (auto simp: tree_ok_def intro!: grown_refl)
next
  case (Suc l)
  let ?i = "ix (Suc l) va"
  have valid_case: "\<exists>us rs. qs = us @ rs \<and> grown s1 s' pt (Suc l) us rs \<and>
      (case descend (pmem s') pt va (Suc l) of None \<Rightarrow> pte = 0 \<and> rs = [] | Some t \<Rightarrow> pte = slot t 0 va)"
    if ok: "tree_ok s1 pt (Suc l) qs" and v: "valid (ent (pmem s1) pt ?i)"
      and w: "walk_loop s1 (PTE2PA (ent (pmem s1) pt ?i)) va True l = (pte, s')" for s1 qs
  proof -
    obtain us rs where *: "qs = us @ rs" "grown s1 s' (PTE2PA (ent (pmem s1) pt ?i)) l us rs"
      "case descend (pmem s') (PTE2PA (ent (pmem s1) pt ?i)) va l of None \<Rightarrow> pte = 0 \<and> rs = [] | Some t \<Rightarrow> pte = slot t 0 va"
      using Suc.IH [OF tree_ok_child [OF ok _ v] w] by auto
    note up = grown_child [OF ok [unfolded *(1)] _ v refl *(2), simplified]
    have "descend (pmem s') pt va (Suc l) = descend (pmem s') (PTE2PA (ent (pmem s1) pt ?i)) va l"
      using up(2) v by (simp add: Let_def)
    with * up(1) show ?thesis by metis
  qed
  show ?case
  proof (cases "valid (ent (pmem s) pt ?i)")
    case True
    then show ?thesis using Suc.prems by (intro valid_case) (simp_all add: Let_def load64_slot)
  next
    case inv: False
    show ?thesis
    proof (cases ps)
      case Nil
      then have fp: "free_pages s []" using Suc.prems(1) by (simp add: tree_ok_def)
      have "load64 (pmem s) (slot pt (Suc l) va) AND PTE_V = 0" using inv by (simp add: load64_slot)
      then have "pte = 0" "s' = s" using Suc.prems(2) kalloc_empty [OF fp] by (simp_all add: Let_def)
      moreover have "descend (pmem s) pt va (Suc l) = None" using inv by (simp add: Let_def)
      ultimately show ?thesis using grown_refl [OF fp] Nil by auto
    next
      case (Cons p qs)
      have fp: "free_pages s (p # qs)" and ok: "tree_ok s pt (Suc l) (p # qs)"
        using Suc.prems(1) Cons by (simp_all add: tree_ok_def)
      let ?s = "installed s pt ?i p"
      have g: "grown s ?s pt (Suc l) [p] qs" using install_grows [OF ok _ inv] by simp
      have ok1: "tree_ok ?s pt (Suc l) qs" using grown_tree_ok [of s pt "Suc l" "[p]" qs] ok g by simp
      have al: "aligned 12 pt" "aligned 12 p" "pt \<noteq> p"
        using tree_ok_aligned [OF ok] tree_ok_root_used [OF ok] by auto
      have e: "ent (pmem ?s) pt ?i = PA2PTE p OR PTE_V" using installed_mem(1) [OF al ix_less] .
      have p: "PTE2PA (ent (pmem ?s) pt ?i) = p" using PTE2PA_PA2PTE [OF al(2), of PTE_V] by (simp add: e PTE_V_def)
      have v: "valid (ent (pmem ?s) pt ?i)" by (simp add: e)
      have w: "walk_loop ?s (PTE2PA (ent (pmem ?s) pt ?i)) va True l = (pte, s')"
        using Suc.prems(2) unfolding p walk_install [OF fp inv] .
      obtain us rs where "qs = us @ rs" "grown ?s s' pt (Suc l) us rs"
        "case descend (pmem s') pt va (Suc l) of None \<Rightarrow> pte = 0 \<and> rs = [] | Some t \<Rightarrow> pte = slot t 0 va"
        using valid_case [OF ok1 v w] by blast
      with grown_trans [OF g this(2)] Cons show ?thesis by (intro exI [of _ "p # us"] exI [of _ rs]) simp
    qed
  qed
qed

section \<open>Changing one leaf\<close>

lemma subtables_cong:
  "ent m' pt j = ent m pt j \<Longrightarrow> same_on (set (subtables m pt l j)) m m' \<Longrightarrow> subtables m' pt l j = subtables m pt l j"
  using tables_cong [of m "PTE2PA (ent m pt j)" l m']
  by (cases "valid (ent m pt j)") (simp_all add: subtables_valid subtables_invalid)

lemma tables_Suc_cong:
  assumes "\<And>j. j < 512 \<Longrightarrow> subtables m' pt l j = subtables m pt l j"
  shows "tables m' pt (Suc l) = tables m pt (Suc l)"
proof -
  have "map (subtables m' pt l) [0..<512] = map (subtables m pt l) [0..<512]"
    using assms by (intro map_cong) auto
  then show ?thesis by (simp only: tables_Suc)
qed

lemma leaf_Suc_cong:
  "ent m' pt (ix (Suc l) va) = ent m pt (ix (Suc l) va) \<Longrightarrow>
   same_on (set (subtables m pt l (ix (Suc l) va))) m m' \<Longrightarrow> leaf m' pt va (Suc l) = leaf m pt va (Suc l)"
  using leaf_cong [of m "PTE2PA (ent m pt (ix (Suc l) va))" l m' va]
  by (cases "valid (ent m pt (ix (Suc l) va))") (simp_all add: Let_def subtables_valid)

lemma store_leaf:
  assumes "distinct (tables m pt l)" "\<forall>p\<in>set (tables m pt l). aligned 12 p" "descend m pt va l = Some t"
    and "m' = store64 m (slot t 0 va) v"
  shows "tables m' pt l = tables m pt l" "interior m' pt l = interior m pt l"
    and "leaf m' pt va' l = (if \<forall>k\<le>l. ix k va' = ix k va then v else leaf m pt va' l)"
proof -
  have off: "unchanged_off {t} m m'" using assms(4) by (simp add: slot_eq store64_off)
  have "tables m' pt l = tables m pt l \<and> interior m' pt l = interior m pt l \<and>
      leaf m' pt va' l = (if \<forall>k\<le>l. ix k va' = ix k va then v else leaf m pt va' l)"
    using assms(1-3)
  proof (induction l arbitrary: pt)
    case 0
    then show ?case
      by (simp add: assms(4) slot_eq ent_store64_same ent_store64_other)
  next
    case (Suc l)
    let ?i = "ix (Suc l) va" and ?j = "ix (Suc l) va'"
    define c where "c = PTE2PA (ent m pt ?i)"
    have v: "valid (ent m pt ?i)" and t: "descend m c va l = Some t"
      using Suc.prems(3) by (auto simp: Let_def c_def split: if_splits)
    have sub: "subtables m pt l ?i = tables m c l" using v by (simp add: subtables_valid c_def)
    have t_in: "t \<in> set (subtables m pt l ?i)" using descend_in_tables [OF t] by (simp add: sub)
    have keep: "same_on qs m m'" if "t \<notin> qs" "qs \<subseteq> set (tables m pt (Suc l))" for qs
      using that Suc.prems(2) t_in subtables_subset [OF ix_less, of m pt l "Suc l" va]
      by (intro unchanged_same_on [OF off]) auto
    have "same_on {pt} m m'"
      using t_in distinct_subtables(2) [OF Suc.prems(1) ix_less] by (intro keep) auto
    then have e: "ent m' pt j = ent m pt j" if "j < 512" for j
      using ent_cong [of pt m m' j] that by simp
    have IH: "tables m' c l = tables m c l \<and> interior m' c l = interior m c l \<and>
        leaf m' c va' l = (if \<forall>k\<le>l. ix k va' = ix k va then v else leaf m c va' l)"
    proof (rule Suc.IH)
      show "distinct (tables m c l)" using distinct_subtables(1) [OF Suc.prems(1) ix_less] sub by metis
      show "\<forall>p\<in>set (tables m c l). aligned 12 p"
        using subtables_subset [OF ix_less, of m pt l "Suc l" va] Suc.prems(2) unfolding sub by auto
      show "descend m c va l = Some t" by (rule t)
    qed
    have others: "same_on (set (subtables m pt l j)) m m'" if "j < 512" "j \<noteq> ?i" for j
      using t_in distinct_subtables(3) [OF Suc.prems(1) ix_less that] subtables_subset [OF that(1)]
      by (intro keep) auto
    have 1: "tables m' pt (Suc l) = tables m pt (Suc l)"
    proof (rule tables_Suc_cong)
      fix j :: nat assume j: "j < 512"
      show "subtables m' pt l j = subtables m pt l j"
        using IH e [OF j] v others [OF j] subtables_cong [of m' pt j m l]
        by (cases "j = ?i") (simp_all add: subtables_valid c_def)
    qed
    have 4: "interior m' pt (Suc l) = interior m pt (Suc l)"
    proof -
      have "interior m' (PTE2PA (ent m pt j)) l = interior m (PTE2PA (ent m pt j)) l"
        if "j < 512" "valid (ent m pt j)" for j
        using IH others [OF that(1)] interior_cong [of m "PTE2PA (ent m pt j)" l m'] that(2)
        by (cases "j = ?i") (simp_all add: c_def subtables_valid)
      then show ?thesis using e by simp
    qed
    have 2: "leaf m' pt va' (Suc l) = leaf m pt va' (Suc l)" if "?j \<noteq> ?i"
      using leaf_Suc_cong [OF e [OF ix_less] others [OF ix_less that]] .
    have 3: "leaf m' pt va' (Suc l) = leaf m' c va' l" "leaf m pt va' (Suc l) = leaf m c va' l" if "?j = ?i"
      using that v e [of ?i] by (simp_all add: Let_def c_def)
    have all: "(\<forall>k\<le>Suc l. ix k va' = ix k va) \<longleftrightarrow> ?j = ?i \<and> (\<forall>k\<le>l. ix k va' = ix k va)"
      by (auto simp: le_Suc_eq)
    show ?case using 1 2 3 4 IH unfolding all by (cases "?j = ?i") auto
  qed
  then show "tables m' pt l = tables m pt l" "interior m' pt l = interior m pt l"
    and "leaf m' pt va' l = (if \<forall>k\<le>l. ix k va' = ix k va then v else leaf m pt va' l)" by simp_all
qed

definition pg :: "u64 \<Rightarrow> nat" where "pg va = unat va div 4096"

lemma ix_eq: "ix k va = unat va div 2 ^ (12 + 9 * k) mod 512"
proof -
  have "(0x1FF :: u64) = mask 9" by (simp add: mask_eq_exp_minus_1)
  then have "PX k va = take_bit 9 (drop_bit (12 + 9 * k) va)" by (simp only: PX_def take_bit_eq_mask)
  then have "ix k va = take_bit 9 (drop_bit (12 + 9 * k) (unat va))"
    by (simp only: ix_def unsigned_take_bit_eq unat_drop_bit_eq)
  then show ?thesis by (simp add: take_bit_eq_mod drop_bit_eq_div)
qed

lemma MAXVA_below: "va < MAXVA \<Longrightarrow> va < 2 ^ 39"
  by (simp add: MAXVA_def word_less_nat_alt)

lemma same_ix_iff:
  assumes "va < 2 ^ 39" "va' < 2 ^ 39"
  shows "(\<forall>k\<le>2. ix k va' = ix k va) \<longleftrightarrow> pg va' = pg va"
proof -
  have dec: "pg v = ix 0 v + 512 * (ix 1 v + 512 * ix 2 v)" if "v < 2 ^ 39" for v
  proof -
    have "unat v < 2 ^ 39" using that by (simp add: word_less_nat_alt)
    then have "pg v < 2 ^ 27" by (simp add: pg_def div_less_iff_less_mult)
    moreover have "ix 0 v = pg v mod 512" "ix 1 v = pg v div 512 mod 512" "ix 2 v = pg v div 512 div 512 mod 512"
      by (simp_all add: ix_eq pg_def div_mult2_eq [symmetric])
    ultimately show ?thesis by (simp add: div_less_iff_less_mult)
  qed
  have all: "(\<forall>k\<le>2. ix k va' = ix k va) \<longleftrightarrow> ix 0 va' = ix 0 va \<and> ix 1 va' = ix 1 va \<and> ix 2 va' = ix 2 va"
    by (auto simp: le_Suc_eq numeral_2_eq_2)
  show ?thesis
  proof
    assume "\<forall>k\<le>2. ix k va' = ix k va"
    then show "pg va' = pg va" unfolding all using dec [OF assms(1)] dec [OF assms(2)] by simp
  next
    assume *: "pg va' = pg va"
    have "ix k va' = ix k va" for k
      using arg_cong [OF *, of "\<lambda>n. n div 2 ^ (9 * k) mod 512"]
      by (simp add: pg_def ix_eq power_add div_mult2_eq)
    then show "\<forall>k\<le>2. ix k va' = ix k va" by simp
  qed
qed


section \<open>Mapping pages\<close>

abbreviation pte_of :: "'z kmem_scheme \<Rightarrow> u64 \<Rightarrow> u64 \<Rightarrow> u64" where
  "pte_of s pt va \<equiv> leaf (pmem s) pt va 2"

lemma slot_nonzero:
  assumes "tree_ok s pt l ps" "t \<in> set (tables (pmem s) pt l)"
  shows "slot t 0 va \<noteq> 0"
proof -
  have "page_ok s t" "0 < sym_end s" using assms by (auto simp: tree_ok_def free_pages_def list_all_iff)
  then have "0 < unat t" "aligned 12 t" by (auto simp: page_ok_def unat_gt_0)
  then have "0 < unat (slot t 0 va)" unfolding slot_eq by (subst unat_slot) auto
  then show ?thesis by (metis less_irrefl unat_0)
qed

text \<open>A store to the entry a walk found.\<close>

lemma store_evolved:
  assumes ok: "tree_ok s pt 2 ps" and va: "va < MAXVA"
    and d: "descend (pmem s) pt va 2 = Some t" and s': "s' = s\<lparr>pmem := store64 (pmem s) (slot t 0 va) v\<rparr>"
  shows "evolved s s' pt 2 [] ps"
    and "va' < 2 ^ 39 \<Longrightarrow> pte_of s' pt va' = (if pg va' = pg va then v else pte_of s pt va')"
proof -
  let ?m = "pmem s"
  have al: "\<forall>p\<in>set (tables ?m pt 2). aligned 12 p" using tree_ok_aligned [OF ok] by blast
  have dist: "distinct (tables ?m pt 2)" using ok by (simp add: tree_ok_def)
  have m': "pmem s' = store64 ?m (slot t 0 va) v" by (simp add: s')
  note st = store_leaf [OF dist al d m']
  have t: "t \<in> set (tables ?m pt 2)" by (rule descend_in_tables [OF d])
  have off: "unchanged_off {t} ?m (pmem s')" unfolding m' slot_eq by (rule store64_off) simp
  have "same_on (set ps) ?m (pmem s')"
    using ok t tree_ok_aligned [OF ok] by (intro unchanged_same_on [OF off]) (auto simp: tree_ok_def)
  then have "free_pages s' ps"
    using ok by (intro free_pages_cong [of s ps s']) (auto simp: tree_ok_def kmem_only_def s')
  then show "evolved s s' pt 2 [] ps"
    using st(1,2) unchanged_off_mono [OF off, of "set (tables ?m pt 2)"] t
    by (simp add: evolved_def kmem_only_def s')
  show "pte_of s' pt va' = (if pg va' = pg va then v else pte_of s pt va')" if "va' < 2 ^ 39"
    using st(3) [of va'] same_ix_iff [OF MAXVA_below [OF va] that] by simp
qed

lemma walk_store:
  assumes ok: "tree_ok s pt 2 ps" and va: "va < MAXVA" and w: "walk_loop s pt va True 2 = (pte, s1)"
  obtains (fail) us where "pte = 0" "ps = us" "evolved s s1 pt 2 us []" "\<And>va. pte_of s1 pt va = pte_of s pt va"
  | (entry) us rs where "pte \<noteq> 0" "ps = us @ rs" "load64 (pmem s1) pte = pte_of s pt va"
      "\<And>v. evolved s (s1\<lparr>pmem := store64 (pmem s1) pte v\<rparr>) pt 2 us rs"
      "\<And>v va'. va' < 2 ^ 39 \<Longrightarrow> pte_of (s1\<lparr>pmem := store64 (pmem s1) pte v\<rparr>) pt va' =
         (if pg va' = pg va then v else pte_of s pt va')"
proof -
  obtain us rs where u: "ps = us @ rs" "grown s s1 pt 2 us rs"
    "case descend (pmem s1) pt va 2 of None \<Rightarrow> pte = 0 \<and> rs = [] | Some t \<Rightarrow> pte = slot t 0 va"
    using walk_alloc [OF ok w] by blast
  have ok1: "tree_ok s1 pt 2 rs" using grown_tree_ok ok u(1,2) by blast
  have ev: "evolved s s1 pt 2 us rs" and lf: "\<And>va. pte_of s1 pt va = pte_of s pt va"
    using u(2) by (simp_all add: grown_def)
  show thesis
  proof (cases "descend (pmem s1) pt va 2")
    case None
    then show thesis using u ev lf by (intro fail [of us]) auto
  next
    case (Some t)
    then have pte: "pte = slot t 0 va" using u(3) by simp
    note st = store_evolved [OF ok1 va Some refl]
    show thesis
    proof (rule entry)
      show "pte \<noteq> 0" unfolding pte by (rule slot_nonzero [OF ok1 descend_in_tables [OF Some]])
      show "load64 (pmem s1) pte = pte_of s pt va"
        using leaf_descend [of "pmem s1" pt va 2] Some lf [of va] by (simp add: pte load64_slot)
      show "evolved s (s1\<lparr>pmem := store64 (pmem s1) pte v\<rparr>) pt 2 us rs" for v
        using evolved_trans [OF ev st(1)] by (simp add: pte)
      show "pte_of (s1\<lparr>pmem := store64 (pmem s1) pte v\<rparr>) pt va' = (if pg va' = pg va then v else pte_of s pt va')"
        if "va' < 2 ^ 39" for v va'
        using st(2) [OF that] lf by (simp add: pte)
    qed (rule u(1))
  qed
qed

end
