(* ===== verification/VmMap.thy ===== *)
theory VmMap
  imports PageTable
begin

text \<open>
  What the operations of \<^verbatim>\<open>kernel/vm.c\<close> do to an address space: \<open>mappages\<close> and \<open>uvmunmap\<close> update the map
  from pages to entries and nothing else, \<open>freewalk\<close> returns every table page, and \<open>uvmalloc\<close>,
  \<open>uvmdealloc\<close>, \<open>uvmcopy\<close> and \<open>uvmfree\<close> keep the pages of a process, the table pages and the free pages
  apart and lose none of them.
\<close>

definition map_range :: "(u64 \<Rightarrow> u64) \<Rightarrow> u64 \<Rightarrow> nat \<Rightarrow> u64 \<Rightarrow> u64 \<Rightarrow> u64 \<Rightarrow> u64" where
  "map_range f a k pa perm va =
     (if pg a \<le> pg va \<and> pg va < pg a + k
      then PA2PTE (pa + of_nat (pg va - pg a) * PGSIZE) OR perm OR PTE_V
      else f va)"

lemma pg_next: "unat a + 4096 < 2 ^ 64 \<Longrightarrow> pg (a + PGSIZE) = Suc (pg a)"
  by (simp add: pg_def unat_add_eq PGSIZE_def)

lemma aligned_next: "aligned 12 a \<Longrightarrow> unat a + 4096 < 2 ^ 64 \<Longrightarrow> aligned 12 (a + PGSIZE)"
  by (simp add: aligned_def unat_add_eq PGSIZE_def)

lemma map_range_Suc:
  assumes "pg b = Suc (pg a)" "f' va = (if pg va = pg a then PA2PTE pa OR perm OR PTE_V else f va)"
  shows "map_range f' b k (pa + PGSIZE) perm va = map_range f a (Suc k) pa perm va"
proof (cases "Suc (pg a) \<le> pg va")
  case True
  define d where "d = pg va - Suc (pg a)"
  have "pg va - pg a = Suc d" "pg va - pg b = d" using True assms(1) by (simp_all add: d_def)
  with True assms show ?thesis by (auto simp: map_range_def algebra_simps)
next
  case False
  with assms show ?thesis by (auto simp: map_range_def)
qed

text \<open>
  What \<open>mappages\<close> does to \<open>n\<close> pages from \<open>a\<close> on: it returns 0 with all of them mapped, or -1 with the
  free list exhausted and a proper prefix of them mapped.
\<close>

definition mapped ::
  "'z kmem_scheme \<Rightarrow> u64 list \<Rightarrow> u64 \<Rightarrow> u64 \<Rightarrow> nat \<Rightarrow> u64 \<Rightarrow> u64 \<Rightarrow> int \<Rightarrow> 'z kmem_scheme \<Rightarrow> u64 list \<Rightarrow> u64 list \<Rightarrow> bool"
where
  "mapped s ps pt a n pa perm r s' us rs \<longleftrightarrow>
     ps = us @ rs \<and> evolved s s' pt 2 us rs \<and>
     (\<exists>k. (r = 0 \<and> k = n \<or> r = -1 \<and> k < n \<and> rs = []) \<and>
       (\<forall>va. va < 2 ^ 39 \<longrightarrow> pte_of s' pt va = map_range (pte_of s pt) a k pa perm va))"

lemma mappedI:
  "ps = us @ rs \<Longrightarrow> evolved s s' pt 2 us rs \<Longrightarrow> r = 0 \<and> k = n \<or> r = -1 \<and> k < n \<and> rs = [] \<Longrightarrow>
   (\<And>va. va < 2 ^ 39 \<Longrightarrow> pte_of s' pt va = map_range (pte_of s pt) a k pa perm va) \<Longrightarrow>
   mapped s ps pt a n pa perm r s' us rs"
  unfolding mapped_def by blast

lemma unat_pages: "n * 4096 < 2 ^ 64 \<Longrightarrow> unat (of_nat n * PGSIZE) = n * 4096"
  using unat_of_nat [of "n * 4096", where ?'a = 64] by (simp add: PGSIZE_def)

lemma walk_below: "va < MAXVA \<Longrightarrow> walk s pt va alloc = Ret (walk_loop s pt va alloc 2)"
  by (simp add: walk_def not_le)

lemma mapped_Suc:
  assumes "ps = us @ qs" "evolved s s2 pt 2 us qs" "mapped s2 qs pt b n (pa + PGSIZE) perm r s' us' rs"
    and "pg b = Suc (pg a)"
    and "\<And>va. va < 2 ^ 39 \<Longrightarrow> pte_of s2 pt va = (if pg va = pg a then PA2PTE pa OR perm OR PTE_V else pte_of s pt va)"
  shows "mapped s ps pt a (Suc n) pa perm r s' (us @ us') rs"
proof -
  obtain k where k: "r = 0 \<and> k = n \<or> r = -1 \<and> k < n \<and> rs = []"
    "\<And>va. va < 2 ^ 39 \<Longrightarrow> pte_of s' pt va = map_range (pte_of s2 pt) b k (pa + PGSIZE) perm va"
    using assms(3) unfolding mapped_def by blast
  show ?thesis
  proof (rule mappedI [where k = "Suc k"])
    show "ps = (us @ us') @ rs" using assms(1,3) by (simp add: mapped_def)
    show "evolved s s' pt 2 (us @ us') rs" using evolved_trans [OF assms(2)] assms(3) by (simp add: mapped_def)
    show "r = 0 \<and> Suc k = Suc n \<or> r = -1 \<and> Suc k < Suc n \<and> rs = []" using k(1) by auto
    show "pte_of s' pt va = map_range (pte_of s pt) a (Suc k) pa perm va" if "va < 2 ^ 39" for va
      unfolding k(2) [OF that] 
      by (rule map_range_Suc [where f' = "pte_of s2 pt" and f = "pte_of s pt", OF assms(4) assms(5) [OF that]])
  qed
qed

lemma mappages_loop_maps:
  assumes "tree_ok s pt 2 ps" "aligned 12 a" "unat a + 4096 * n < 2 ^ 38"
    and "\<And>va. va < 2 ^ 39 \<Longrightarrow> pg a \<le> pg va \<Longrightarrow> pg va \<le> pg a + n \<Longrightarrow> \<not> valid (pte_of s pt va)"
  shows "\<exists>r s' us rs. mappages_loop s pt a (a + of_nat n * PGSIZE) pa perm = Ret (r, s') \<and>
    mapped s ps pt a (Suc n) pa perm r s' us rs"
  using assms
proof (induction n arbitrary: s a pa ps)
  case 0
  have a: "a < MAXVA" using "0.prems"(3) by (simp add: MAXVA_def word_less_nat_alt)
  obtain pte s1 where w: "walk_loop s pt a True 2 = (pte, s1)" by fastforce
  note unf = mappages_loop.simps [of s] walk_below [OF a] w
  show ?case
  proof (rule walk_store [OF "0.prems"(1) a w])
    fix us assume f: "pte = 0" "ps = us" "evolved s s1 pt 2 us []" "\<And>va. pte_of s1 pt va = pte_of s pt va"
    then have "mapped s ps pt a (Suc 0) pa perm (-1) s1 us []"
      by (intro mappedI [where k = 0]) (auto simp: map_range_def)
    with f(1) show ?thesis by (auto simp: unf)
  next
    fix us rs assume e: "pte \<noteq> 0" "ps = us @ rs" "load64 (pmem s1) pte = pte_of s pt a"
      "\<And>v. evolved s (s1\<lparr>pmem := store64 (pmem s1) pte v\<rparr>) pt 2 us rs"
      "\<And>v va'. va' < 2 ^ 39 \<Longrightarrow> pte_of (s1\<lparr>pmem := store64 (pmem s1) pte v\<rparr>) pt va' =
         (if pg va' = pg a then v else pte_of s pt va')"
    let ?s2 = "s1\<lparr>pmem := store64 (pmem s1) pte (PA2PTE pa OR perm OR PTE_V)\<rparr>"
    have "mapped s ps pt a (Suc 0) pa perm 0 ?s2 us rs"
      using e(2,4,5) by (intro mappedI [where k = "Suc 0"]) (auto simp: map_range_def)
    moreover have "mappages_loop s pt a a pa perm = Ret (0, ?s2)"
      using e(1,3) "0.prems"(4) [OF MAXVA_below [OF a]] by (simp add: unf Let_def)
    ultimately show ?thesis by auto
  qed
next
  case (Suc n)
  let ?v = "PA2PTE pa OR perm OR PTE_V" and ?lst = "a + of_nat (Suc n) * PGSIZE"
  have a: "a < MAXVA" using Suc.prems(3) by (simp add: MAXVA_def word_less_nat_alt)
  obtain pte s1 where w: "walk_loop s pt a True 2 = (pte, s1)" by fastforce
  note unf = mappages_loop.simps [of s] walk_below [OF a] w
  show ?case
  proof (rule walk_store [OF Suc.prems(1) a w])
    fix us assume f: "pte = 0" "ps = us" "evolved s s1 pt 2 us []" "\<And>va. pte_of s1 pt va = pte_of s pt va"
    then have "mapped s ps pt a (Suc (Suc n)) pa perm (-1) s1 us []"
      by (intro mappedI [where k = 0]) (auto simp: map_range_def)
    with f(1) show ?thesis by (auto simp: unf)
  next
    fix us rs assume e: "pte \<noteq> 0" "ps = us @ rs" "load64 (pmem s1) pte = pte_of s pt a"
      "\<And>v. evolved s (s1\<lparr>pmem := store64 (pmem s1) pte v\<rparr>) pt 2 us rs"
      "\<And>v va'. va' < 2 ^ 39 \<Longrightarrow> pte_of (s1\<lparr>pmem := store64 (pmem s1) pte v\<rparr>) pt va' =
         (if pg va' = pg a then v else pte_of s pt va')"
    define s2 where "s2 = s1\<lparr>pmem := store64 (pmem s1) pte ?v\<rparr>"
    have pga: "pg (a + PGSIZE) = Suc (pg a)" using Suc.prems(3) by (simp add: pg_next)
    have lst: "?lst = a + PGSIZE + of_nat n * PGSIZE" by (simp add: algebra_simps)
    have "0 < unat (of_nat (Suc n) * PGSIZE)" using Suc.prems(3) by (subst unat_pages) auto
    then have ne: "a \<noteq> ?lst" by (metis add_cancel_right_right less_irrefl unat_0)
    have step: "mappages_loop s pt a ?lst pa perm = mappages_loop s2 pt (a + PGSIZE) ?lst (pa + PGSIZE) perm"
      using e(1,3) ne Suc.prems(4) [OF MAXVA_below [OF a]] unfolding unf by (simp add: s2_def Let_def del: of_nat_Suc)
    have "\<exists>r s' us' rs'. mappages_loop s2 pt (a + PGSIZE) (a + PGSIZE + of_nat n * PGSIZE) (pa + PGSIZE) perm = Ret (r, s') \<and>
      mapped s2 rs pt (a + PGSIZE) (Suc n) (pa + PGSIZE) perm r s' us' rs'"
    proof (rule Suc.IH)
      show "tree_ok s2 pt 2 rs" using evolved_tree_ok Suc.prems(1) e(2,4) unfolding s2_def by blast
      show "aligned 12 (a + PGSIZE)" using Suc.prems(2,3) by (intro aligned_next) auto
      show "unat (a + PGSIZE) + 4096 * n < 2 ^ 38" using Suc.prems(3) by (simp add: unat_add_eq PGSIZE_def)
      show "\<not> valid (pte_of s2 pt va)"
        if "va < 2 ^ 39" "pg (a + PGSIZE) \<le> pg va" "pg va \<le> pg (a + PGSIZE) + n" for va
        using Suc.prems(4) [OF that(1)] e(5) [OF that(1)] that(2,3) pga by (simp add: s2_def)
    qed
    then obtain r s' us' rs' where IH:
      "mappages_loop s2 pt (a + PGSIZE) ?lst (pa + PGSIZE) perm = Ret (r, s')"
      "mapped s2 rs pt (a + PGSIZE) (Suc n) (pa + PGSIZE) perm r s' us' rs'" unfolding lst by blast
    have "mapped s ps pt a (Suc (Suc n)) pa perm r s' (us @ us') rs'"
      using e(5) [of _ ?v, folded s2_def] by (rule mapped_Suc [OF e(2) e(4) [of ?v, folded s2_def] IH(2) pga])
    then show ?thesis unfolding step IH(1) by blast
  qed
qed

lemma mappages_mapped:
  assumes "tree_ok s pt 2 ps" "va mod PGSIZE = 0" "sz mod PGSIZE = 0" "sz \<noteq> 0" "unat va + unat sz \<le> 2 ^ 38"
    and "\<And>v. v < 2 ^ 39 \<Longrightarrow> pg va \<le> pg v \<Longrightarrow> pg v < pg va + unat sz div 4096 \<Longrightarrow> \<not> valid (pte_of s pt v)"
  shows "\<exists>r s' us rs. mappages s pt va sz pa perm = Ret (r, s') \<and>
    mapped s ps pt va (unat sz div 4096) pa perm r s' us rs"
proof -
  have "aligned 12 sz" using assms(3) by (simp add: aligned12_iff)
  then obtain q where q: "unat sz = 4096 * q" by (auto simp: aligned_def elim!: dvdE)
  then obtain n where n: "q = Suc n" using assms(4) by (cases q) (auto simp: unat_eq_zero)
  have "sz = of_nat (Suc n) * PGSIZE"
    using unat_pages [of "Suc n"] unat_less_2p64 [of sz] q n by (simp add: word_unat_eq_iff del: of_nat_Suc)
  then have lst: "va + sz - PGSIZE = va + of_nat n * PGSIZE" by (simp add: algebra_simps)
  have "\<exists>r s' us rs. mappages_loop s pt va (va + of_nat n * PGSIZE) pa perm = Ret (r, s') \<and>
      mapped s ps pt va (Suc n) pa perm r s' us rs"
    using assms(1,2,5,6) q n by (intro mappages_loop_maps) (auto simp: aligned12_iff)
  then show ?thesis using assms(2-4) q n by (simp add: mappages_def lst)
qed

section \<open>Unmapping pages\<close>

definition unmapped ::
  "'z kmem_scheme \<Rightarrow> 'z kmem_scheme \<Rightarrow> u64 \<Rightarrow> u64 \<Rightarrow> nat \<Rightarrow> u64 list \<Rightarrow> u64 list \<Rightarrow> bool"
where
  "unmapped s s' pt a n freed ps \<longleftrightarrow>
     free_pages s' (freed @ ps) \<and> kmem_only s s' \<and>
     mset (tables (pmem s') pt 2) = mset (tables (pmem s) pt 2) \<and>
     (interior (pmem s) pt 2 \<longrightarrow> interior (pmem s') pt 2) \<and>
     (\<forall>va. va < 2 ^ 39 \<longrightarrow>
        pte_of s' pt va = (if pg a \<le> pg va \<and> pg va < pg a + n then 0 else pte_of s pt va)) \<and>
     unchanged_off (set (tables (pmem s) pt 2) \<union> set freed) (pmem s) (pmem s')"

text \<open>The frames that \<open>n\<close> pages from \<open>a\<close> on are mapped to, and that all these pages are mapped.\<close>

fun frames :: "'z kmem_scheme \<Rightarrow> u64 \<Rightarrow> u64 \<Rightarrow> nat \<Rightarrow> u64 list" where
  "frames s pt a 0 = []"
| "frames s pt a (Suc n) = PTE2PA (pte_of s pt a) # frames s pt (a + PGSIZE) n"

fun present :: "'z kmem_scheme \<Rightarrow> u64 \<Rightarrow> u64 \<Rightarrow> nat \<Rightarrow> bool" where
  "present s pt a 0 \<longleftrightarrow> True"
| "present s pt a (Suc n) \<longleftrightarrow>
     valid (pte_of s pt a) \<and> PTE_FLAGS (pte_of s pt a) \<noteq> PTE_V \<and> present s pt (a + PGSIZE) n"

lemma range_cong:
  assumes "\<And>va. va < 2 ^ 39 \<Longrightarrow> pg a \<le> pg va \<Longrightarrow> pte_of s' pt va = pte_of s pt va" "unat a + 4096 * n \<le> 2 ^ 38"
  shows "frames s' pt a n = frames s pt a n \<and> present s' pt a n = present s pt a n"
  using assms
proof (induction n arbitrary: a)
  case (Suc n)
  have a: "a < MAXVA" using Suc.prems(2) by (simp add: MAXVA_def word_less_nat_alt)
  have e: "pte_of s' pt a = pte_of s pt a" using Suc.prems(1) [OF MAXVA_below [OF a]] by simp
  have "pg (a + PGSIZE) = Suc (pg a)" using Suc.prems(2) by (simp add: pg_next)
  then have "frames s' pt (a + PGSIZE) n = frames s pt (a + PGSIZE) n \<and>
      present s' pt (a + PGSIZE) n = present s pt (a + PGSIZE) n"
    using Suc.prems by (intro Suc.IH) (auto simp: unat_add_eq PGSIZE_def)
  with e show ?case by simp
qed simp

lemma kfree_keeps_tree:
  assumes ok: "tree_ok s pt 2 ps" and p: "page_ok s p" "p \<notin> set (tables (pmem s) pt 2)" "p \<notin> set ps"
  obtains s1 where "kfree s p = Ret s1" "free_pages s1 (p # ps)" "kmem_only s s1"
    "unchanged_off {p} (pmem s) (pmem s1)" "same_on (set (tables (pmem s) pt 2)) (pmem s) (pmem s1)"
proof -
  obtain s1 where s1: "kfree s p = Ret s1" using kfree_page [OF p(1)] by blast
  then have eq: "s1 = s\<lparr>pmem := store64 (fill (pmem s) p 1 4096) p (freelist s), freelist := p\<rparr>"
    by (simp add: kfree_page [OF p(1)])
  have "unchanged_off {p} (pmem s) (store64 (fill (pmem s) p 1 4096) (eaddr p 0) (freelist s))"
    using unchanged_off_trans [OF fill_off [of p "pmem s" 1] store64_off [of 0 p _ "freelist s"]] by simp
  then have off: "unchanged_off {p} (pmem s) (pmem s1)" by (simp add: eq eaddr_def)
  have "same_on (set (tables (pmem s) pt 2)) (pmem s) (pmem s1)"
    using p tree_ok_aligned [OF ok] by (intro unchanged_same_on [OF off]) (auto simp: page_ok_def)
  moreover have "free_pages s1 (p # ps)" using ok p s1 by (intro free_pages_kfree) (auto simp: tree_ok_def)
  ultimately show thesis using that [OF s1] off by (simp add: eq kmem_only_def)
qed

lemma tree_ok_move:
  assumes "tree_ok s pt 2 ps" "kmem_only s s1" "same_on (set (tables (pmem s) pt 2)) (pmem s) (pmem s1)"
    "free_pages s1 qs" "set qs \<inter> set (tables (pmem s) pt 2) = {}"
  shows "tree_ok s1 pt 2 qs"
  using assms tables_cong [OF assms(3)] kmem_only_page_ok [OF assms(2)]
  by (auto simp: tree_ok_def free_pages_def)

lemma unmap_one:
  assumes ok: "tree_ok s pt 2 ps" and a: "a < MAXVA" and v: "valid (pte_of s pt a)"
    and fl: "PTE_FLAGS (pte_of s pt a) \<noteq> PTE_V" and lt: "a < lim"
    and fr: "do_free \<Longrightarrow> page_ok s (PTE2PA (pte_of s pt a)) \<and> PTE2PA (pte_of s pt a) \<notin> set (tables (pmem s) pt 2) \<union> set ps"
  shows "\<exists>s2. uvmunmap_loop s pt a lim do_free = uvmunmap_loop s2 pt (a + PGSIZE) lim do_free \<and>
    unmapped s s2 pt a 1 (if do_free then [PTE2PA (pte_of s pt a)] else []) ps"
proof -
  let ?e = "pte_of s pt a"
  obtain t where t: "descend (pmem s) pt a 2 = Some t"
    using v leaf_descend [of "pmem s" pt a 2] by (cases "descend (pmem s) pt a 2") auto
  have e: "load64 (pmem s) (slot t 0 a) = ?e" using leaf_descend [of "pmem s" pt a 2] t by (simp add: load64_slot)
  have nz: "slot t 0 a \<noteq> 0" by (rule slot_nonzero [OF ok descend_in_tables [OF t]])
  define freed where "freed = (if do_free then [PTE2PA ?e] else [])"
  obtain s1 where s1: "(if do_free then kfree s (PTE2PA ?e) else Ret s) = Ret s1"
    "free_pages s1 (freed @ ps)" "kmem_only s s1" "unchanged_off (set freed) (pmem s) (pmem s1)"
    "same_on (set (tables (pmem s) pt 2)) (pmem s) (pmem s1)" "set (freed @ ps) \<inter> set (tables (pmem s) pt 2) = {}"
  proof (cases do_free)
    case True
    then have p: "page_ok s (PTE2PA ?e)" "PTE2PA ?e \<notin> set (tables (pmem s) pt 2)" "PTE2PA ?e \<notin> set ps"
      using fr by auto
    obtain s1 where "kfree s (PTE2PA ?e) = Ret s1" "free_pages s1 (PTE2PA ?e # ps)" "kmem_only s s1"
      "unchanged_off {PTE2PA ?e} (pmem s) (pmem s1)" "same_on (set (tables (pmem s) pt 2)) (pmem s) (pmem s1)"
      by (rule kfree_keeps_tree [OF ok p])
    moreover have "set (PTE2PA ?e # ps) \<inter> set (tables (pmem s) pt 2) = {}" using p ok by (auto simp: tree_ok_def)
    ultimately show thesis using True by (intro that [of s1]) (simp_all add: freed_def)
  next
    case False
    then show thesis using that [of s] ok by (auto simp: freed_def tree_ok_def same_on_def)
  qed
  have ok1: "tree_ok s1 pt 2 (freed @ ps)" by (rule tree_ok_move [OF ok s1(3,5,2,6)])
  have t1: "descend (pmem s1) pt a 2 = Some t" using descend_cong [OF s1(5)] t by simp
  define s2 where "s2 = s1\<lparr>pmem := store64 (pmem s1) (slot t 0 a) 0\<rparr>"
  note st = store_evolved [OF ok1 a t1 s2_def]
  have tb: "tables (pmem s1) pt 2 = tables (pmem s) pt 2" by (rule tables_cong [OF s1(5)])
  have "uvmunmap_loop s pt a lim do_free = uvmunmap_loop s2 pt (a + PGSIZE) lim do_free"
    unfolding uvmunmap_loop.simps [of s pt a] walk_below [OF a] walk_noalloc t
    by (simp only: bindr.simps option.case prod.case e s1(1) if_P [OF lt] if_not_P [OF nz] if_not_P [OF v] if_not_P [OF fl] s2_def)
  moreover have "unmapped s s2 pt a 1 freed ps"
    unfolding unmapped_def
  proof (intro conjI allI impI)
    show "free_pages s2 (freed @ ps)" "kmem_only s s2" "mset (tables (pmem s2) pt 2) = mset (tables (pmem s) pt 2)"
      using st(1) kmem_only_trans [OF s1(3)] tb by (simp_all add: evolved_def)
    show "interior (pmem s2) pt 2" if "interior (pmem s) pt 2"
      using st(1) interior_cong [OF s1(5)] that by (simp add: evolved_def)
    show "unchanged_off (set (tables (pmem s) pt 2) \<union> set freed) (pmem s) (pmem s2)"
      using unchanged_off_trans [OF s1(4), of "set (tables (pmem s) pt 2)" "pmem s2"] st(1) tb
      by (simp add: evolved_def Un_commute)
    show "pte_of s2 pt va = (if pg a \<le> pg va \<and> pg va < pg a + 1 then 0 else pte_of s pt va)" if "va < 2 ^ 39" for va
      using st(2) [OF that] leaf_cong [OF s1(5)] by auto
  qed
  ultimately show ?thesis unfolding freed_def by blast
qed

lemma unmapped_Suc:
  assumes "unmapped s s2 pt a 1 f1 ps" "unmapped s2 s' pt b n f2 (f1 @ ps)" "pg b = Suc (pg a)"
  shows "unmapped s s' pt a (Suc n) (f2 @ f1) ps"
proof -
  have tb: "set (tables (pmem s2) pt 2) = set (tables (pmem s) pt 2)"
    using assms(1) unfolding unmapped_def by (metis set_mset_mset)
  have "unchanged_off ((set (tables (pmem s) pt 2) \<union> set f1) \<union> (set (tables (pmem s2) pt 2) \<union> set f2)) (pmem s) (pmem s')"
    by (rule unchanged_off_trans [of _ _ "pmem s2"]) (use assms in \<open>simp_all add: unmapped_def\<close>)
  then have "unchanged_off (set (tables (pmem s) pt 2) \<union> set (f2 @ f1)) (pmem s) (pmem s')"
    unfolding tb by (rule unchanged_off_mono) auto
  then show ?thesis
    using assms kmem_only_trans [of s s2 s'] by (auto simp: unmapped_def)
qed

lemma uvmunmap_loop_unmaps:
  assumes "tree_ok s pt 2 ps" "unat a + 4096 * n \<le> 2 ^ 38" "present s pt a n"
    and "do_free \<Longrightarrow> distinct (tables (pmem s) pt 2 @ frames s pt a n @ ps) \<and> list_all (page_ok s) (frames s pt a n)"
  shows "\<exists>s'. uvmunmap_loop s pt a (a + of_nat n * PGSIZE) do_free = Ret s' \<and>
    unmapped s s' pt a n (if do_free then rev (frames s pt a n) else []) ps"
  using assms
proof (induction n arbitrary: s a ps)
  case 0
  then show ?case by (auto simp: uvmunmap_loop.simps [of s] unmapped_def tree_ok_def)
next
  case (Suc n)
  let ?lim = "a + of_nat (Suc n) * PGSIZE"
  have a: "a < MAXVA" using Suc.prems(2) by (simp add: MAXVA_def word_less_nat_alt)
  have pga: "pg (a + PGSIZE) = Suc (pg a)" using Suc.prems(2) by (simp add: pg_next)
  have lim: "?lim = a + PGSIZE + of_nat n * PGSIZE" by (simp add: algebra_simps)
  have "a < ?lim"
    using Suc.prems(2) unat_pages [of "Suc n"] by (simp add: word_less_nat_alt unat_add_eq del: of_nat_Suc)
  then obtain s2 where s2: "uvmunmap_loop s pt a ?lim do_free = uvmunmap_loop s2 pt (a + PGSIZE) ?lim do_free"
    "unmapped s s2 pt a 1 (if do_free then [PTE2PA (pte_of s pt a)] else []) ps"
    using unmap_one [OF Suc.prems(1) a, of ?lim do_free] Suc.prems(3,4) by auto
  define f1 where "f1 = (if do_free then [PTE2PA (pte_of s pt a)] else [])"
  note u = s2(2) [folded f1_def, unfolded unmapped_def]
  have tb: "mset (tables (pmem s2) pt 2) = mset (tables (pmem s) pt 2)" using u by simp
  have ok: "page_ok s2 = page_ok s" using u kmem_only_page_ok by blast
  have rc: "frames s2 pt (a + PGSIZE) n = frames s pt (a + PGSIZE) n \<and> present s2 pt (a + PGSIZE) n = present s pt (a + PGSIZE) n"
    using Suc.prems(2) u pga by (intro range_cong) (auto simp: unat_add_eq PGSIZE_def)
  have "\<exists>s'. uvmunmap_loop s2 pt (a + PGSIZE) (a + PGSIZE + of_nat n * PGSIZE) do_free = Ret s' \<and>
    unmapped s2 s' pt (a + PGSIZE) n (if do_free then rev (frames s2 pt (a + PGSIZE) n) else []) (f1 @ ps)"
  proof (rule Suc.IH)
    show "unat (a + PGSIZE) + 4096 * n \<le> 2 ^ 38" using Suc.prems(2) by (simp add: unat_add_eq PGSIZE_def)
    show "present s2 pt (a + PGSIZE) n" using Suc.prems(3) rc by simp
    have d: "distinct (tables (pmem s) pt 2 @ f1 @ ps)"
      using Suc.prems(1,4) by (auto simp: f1_def tree_ok_def)
    moreover have "mset (tables (pmem s2) pt 2 @ f1 @ ps) = mset (tables (pmem s) pt 2 @ f1 @ ps)"
      using tb by simp
    ultimately have "distinct (tables (pmem s2) pt 2 @ f1 @ ps)" using mset_eq_imp_distinct_iff by blast
    moreover have "set (tables (pmem s2) pt 2) = set (tables (pmem s) pt 2)" using tb by (metis set_mset_mset)
    ultimately show "tree_ok s2 pt 2 (f1 @ ps)" using u Suc.prems(1) by (auto simp: tree_ok_def ok list_all_iff)
    show "distinct (tables (pmem s2) pt 2 @ frames s2 pt (a + PGSIZE) n @ f1 @ ps) \<and>
        list_all (page_ok s2) (frames s2 pt (a + PGSIZE) n)" if do_free
    proof -
      have "mset (tables (pmem s2) pt 2 @ frames s2 pt (a + PGSIZE) n @ f1 @ ps) = mset (tables (pmem s) pt 2 @ frames s pt a (Suc n) @ ps)"
        using that tb rc by (simp add: f1_def)
      then have "distinct (tables (pmem s2) pt 2 @ frames s2 pt (a + PGSIZE) n @ f1 @ ps)"
        using Suc.prems(4) [OF that] mset_eq_imp_distinct_iff by blast
      then show ?thesis using Suc.prems(4) [OF that] rc ok by simp
    qed
  qed
  then obtain s' where s': "uvmunmap_loop s2 pt (a + PGSIZE) ?lim do_free = Ret s'"
    "unmapped s2 s' pt (a + PGSIZE) n (if do_free then rev (frames s pt (a + PGSIZE) n) else []) (f1 @ ps)"
    unfolding lim conjunct1 [OF rc] by blast
  have "unmapped s s' pt a (Suc n) ((if do_free then rev (frames s pt (a + PGSIZE) n) else []) @ f1) ps"
    by (rule unmapped_Suc [OF s2(2) [folded f1_def] s'(2) pga])
  then show ?case using s2(1) s'(1) by (auto simp: f1_def)
qed

section \<open>Freeing the tables\<close>

fun leafless :: "mem \<Rightarrow> u64 \<Rightarrow> nat \<Rightarrow> bool" where
  "leafless m pt 0 \<longleftrightarrow> (\<forall>i<512. \<not> valid (ent m pt i))"
| "leafless m pt (Suc l) \<longleftrightarrow>
     (\<forall>i<512. valid (ent m pt i) \<longrightarrow> interior_entry (ent m pt i) \<and> leafless m (PTE2PA (ent m pt i)) l)"

lemma leafless_cong: "same_on (set (tables m pt l)) m m' \<Longrightarrow> leafless m' pt l = leafless m pt l"
proof (induction l arbitrary: pt)
  case 0
  then show ?case using ent_cong [of pt m m'] by auto
next
  case (Suc l)
  have e: "ent m' pt i = ent m pt i" if "i < 512" for i
    using ent_cong [of pt m m' i] that same_on_mono [OF Suc.prems, of "{pt}"] by simp
  have "leafless m' (PTE2PA (ent m pt i)) l = leafless m (PTE2PA (ent m pt i)) l"
    if "i < 512" "valid (ent m pt i)" for i
    using Suc.IH [of "PTE2PA (ent m pt i)"] same_on_mono [OF Suc.prems subtables_subset [OF that(1)]] that(2)
    by (simp add: subtables_valid)
  with e show ?case by auto
qed

definition freed :: "'z kmem_scheme \<Rightarrow> 'z kmem_scheme \<Rightarrow> u64 list \<Rightarrow> u64 list \<Rightarrow> bool" where
  "freed s s' ts ps \<longleftrightarrow>
     (\<exists>qs. free_pages s' (qs @ ps) \<and> mset qs = mset ts) \<and> kmem_only s s' \<and>
     unchanged_off (set ts) (pmem s) (pmem s')"

lemma freed_trans:
  assumes "free_pages s1 (qs @ ps)" "mset qs = mset ts" "kmem_only s s1" "unchanged_off (insert p (set ts)) (pmem s) (pmem s1)"
    and "freed s1 s' (p # ts') (qs @ ps)"
  shows "freed s s' (p # ts @ ts') ps"
proof -
  obtain qs' where "free_pages s' (qs' @ qs @ ps)" "mset qs' = mset (p # ts')"
    using assms(5) unfolding freed_def by blast
  then have "free_pages s' ((qs' @ qs) @ ps) \<and> mset (qs' @ qs) = mset (p # ts @ ts')" using assms(2) by simp
  moreover have "unchanged_off (insert p (set ts) \<union> set (p # ts')) (pmem s) (pmem s')"
    by (rule unchanged_off_trans [OF assms(4)]) (use assms(5) in \<open>simp add: freed_def\<close>)
  ultimately show ?thesis
    using assms(3,5) kmem_only_trans [of s s1 s'] unfolding freed_def
    by (intro conjI exI [of _ "qs' @ qs"]) (auto simp: Un_ac)
qed

lemma freewalk_addr: "pt + 8 * of_nat i = eaddr pt i"
  by (simp add: eaddr_def)

lemma freewalk_skip:
  "i < 512 \<Longrightarrow> \<not> valid (ent (pmem s) pt i) \<Longrightarrow> freewalk_loop s pt i = freewalk_loop s pt (Suc i)"
  by (subst freewalk_loop.simps) (simp add: freewalk_addr ent_def Let_def)

lemma freewalk_end: "freewalk_loop s pt 512 = Some (kfree s pt)"
  by (subst freewalk_loop.simps) simp

lemma freewalk_child:
  "i < 512 \<Longrightarrow> valid (ent (pmem s) pt i) \<Longrightarrow> interior_entry (ent (pmem s) pt i) \<Longrightarrow>
   freewalk_loop s (PTE2PA (ent (pmem s) pt i)) 0 = Some (Ret s1) \<Longrightarrow>
   freewalk_loop s pt i = freewalk_loop (s1\<lparr>pmem := store64 (pmem s1) (eaddr pt i) 0\<rparr>) pt (Suc i)"
  by (subst freewalk_loop.simps) (simp add: freewalk_addr ent_def Let_def interior_entry_def)

lemma kfree_freed:
  assumes "free_pages s ps" "page_ok s p" "p \<notin> set ps"
  shows "\<exists>s'. kfree s p = Ret s' \<and> freed s s' [p] ps"
proof -
  have "unchanged_off {p} (pmem s) (store64 (fill (pmem s) p 1 4096) (eaddr p 0) (freelist s))"
    using unchanged_off_trans [OF fill_off [of p "pmem s" 1] store64_off [of 0 p _ "freelist s"]] by simp
  then show ?thesis
    using free_pages_kfree [OF assms kfree_page [OF assms(2)]] kfree_page [OF assms(2)]
    unfolding freed_def by (auto simp: eaddr_def kmem_only_def intro!: exI [of _ "[p]"])
qed

lemma freewalk_invalid:
  assumes "\<And>j. i \<le> j \<Longrightarrow> j < 512 \<Longrightarrow> \<not> valid (ent (pmem s) pt j)" "i \<le> 512"
  shows "freewalk_loop s pt i = Some (kfree s pt)"
  using assms
proof (induction "512 - i" arbitrary: i)
  case 0
  then have "i = 512" by simp
  then show ?case by (simp only: freewalk_end)
next
  case (Suc n)
  then have i: "i < 512" by simp
  have "freewalk_loop s pt i = freewalk_loop s pt (Suc i)"
    using Suc.prems(1) [of i] i by (intro freewalk_skip) auto
  also have "\<dots> = Some (kfree s pt)"
    using Suc.hyps(2) Suc.prems i by (intro Suc.hyps(1)) auto
  finally show ?case .
qed

lemma freewalk_child_step:
  assumes fr: "freed s s1 ts ps" and i: "i < 512" and d: "distinct (pt # (ts @ us) @ ps)"
    and ok: "list_all (page_ok s) (pt # ts @ us)" and s2: "s2 = s1\<lparr>pmem := store64 (pmem s1) (eaddr pt i) 0\<rparr>"
  shows "\<exists>qs. free_pages s2 (qs @ ps) \<and> mset qs = mset ts \<and> kmem_only s s2 \<and>
    unchanged_off (insert pt (set ts)) (pmem s) (pmem s2) \<and> same_on (set us) (pmem s) (pmem s2) \<and>
    (\<forall>j. j < 512 \<longrightarrow> j \<noteq> i \<longrightarrow> ent (pmem s2) pt j = ent (pmem s) pt j)"
proof -
  obtain qs where q: "free_pages s1 (qs @ ps)" "mset qs = mset ts"
    and k: "kmem_only s s1" and off1: "unchanged_off (set ts) (pmem s) (pmem s1)"
    using fr by (auto simp: freed_def)
  have set_q: "set qs = set ts" using q(2) by (metis set_mset_mset)
  have al: "aligned 12 p" if "p \<in> insert pt (set ts \<union> set us \<union> set ps)" for p
  proof -
    have "list_all (page_ok s) ps"
      using q(1) kmem_only_page_ok [OF k] by (simp add: free_pages_def list_all_iff)
    then show ?thesis using ok that by (auto simp: list_all_iff page_ok_def)
  qed
  have off2: "unchanged_off {pt} (pmem s1) (pmem s2)" unfolding s2 using store64_off [OF i] by simp
  have off: "unchanged_off (insert pt (set ts)) (pmem s) (pmem s2)"
    using unchanged_off_trans [OF off1 off2] by simp
  have "same_on {pt} (pmem s) (pmem s1)" using d al by (intro unchanged_same_on [OF off1]) auto
  then have "ent (pmem s2) pt j = ent (pmem s) pt j" if "j < 512" "j \<noteq> i" for j
    using ent_cong [of pt "pmem s" "pmem s1" j] ent_store64_other [of pt i j] al [of pt] i that by (simp add: s2)
  moreover have "same_on (set us) (pmem s) (pmem s2)" using d al by (intro unchanged_same_on [OF off]) auto
  moreover have "kmem_only s s2" using k by (cases s; cases s1) (auto simp: kmem_only_def s2)
  moreover have "free_pages s2 (qs @ ps)"
  proof (rule free_pages_cong [OF q(1)])
    show "same_on (set (qs @ ps)) (pmem s1) (pmem s2)"
      using d al set_q by (intro unchanged_same_on [OF off2]) auto
  qed (auto simp: s2 kmem_only_def)
  ultimately show ?thesis using q(2) off by blast
qed

text \<open>The loop over the entries from \<open>i\<close> on, given that the recursive calls free their subtrees.\<close>

lemma freewalk_entries:
  fixes s :: "'z kmem_scheme"
  assumes rec: "\<And>(s :: 'z kmem_scheme) c ps. leafless (pmem s) c l \<Longrightarrow> tree_ok s c l ps \<Longrightarrow>
      \<exists>s'. freewalk_loop s c 0 = Some (Ret s') \<and> freed s s' (tables (pmem s) c l) ps"
    and "i \<le> 512" "free_pages s ps"
    and "distinct (pt # concat (map (subtables (pmem s) pt l) [i..<512]) @ ps)"
    and "list_all (page_ok s) (pt # concat (map (subtables (pmem s) pt l) [i..<512]))"
    and "\<And>j. i \<le> j \<Longrightarrow> j < 512 \<Longrightarrow> valid (ent (pmem s) pt j) \<Longrightarrow>
      interior_entry (ent (pmem s) pt j) \<and> leafless (pmem s) (PTE2PA (ent (pmem s) pt j)) l"
  shows "\<exists>s'. freewalk_loop s pt i = Some (Ret s') \<and>
    freed s s' (pt # concat (map (subtables (pmem s) pt l) [i..<512])) ps"
  using assms(2-)
proof (induction "512 - i" arbitrary: i s ps)
  case 0
  then have i: "i = 512" by simp
  have "page_ok s pt" "pt \<notin> set ps" using "0.prems"(3,4) by auto
  then show ?case using kfree_freed [OF "0.prems"(2), of pt] unfolding i freewalk_end by simp
next
  case (Suc n)
  then have i: "i < 512" by simp
  let ?m = "pmem s" and ?sub = "subtables (pmem s) pt l"
  define ts where "ts = concat (map ?sub [Suc i..<512])"
  have split: "concat (map ?sub [i..<512]) = ?sub i @ ts" using i by (simp add: upt_conv_Cons ts_def)
  note dist = Suc.prems(3) [unfolded split] and pok = Suc.prems(4) [unfolded split]
  show ?case
  proof (cases "valid (ent ?m pt i)")
    case False
    have "\<exists>s'. freewalk_loop s pt (Suc i) = Some (Ret s') \<and> freed s s' (pt # concat (map ?sub [Suc i..<512])) ps"
      using Suc.hyps(2) Suc.prems(2,5) i dist pok False
      by (intro Suc.hyps(1)) (auto simp: ts_def subtables_invalid)
    then show ?thesis
      using freewalk_skip [OF i False] False by (simp add: split subtables_invalid ts_def)
  next
    case True
    define c where "c = PTE2PA (ent ?m pt i)"
    have sub: "?sub i = tables ?m c l" using True by (simp add: subtables_valid c_def)
    have "leafless ?m c l" and int: "interior_entry (ent ?m pt i)"
      using Suc.prems(5) [of i] i True by (auto simp: c_def)
    moreover have "tree_ok s c l ps" using Suc.prems(2) dist pok by (auto simp: tree_ok_def sub)
    ultimately obtain s1 where s1: "freewalk_loop s c 0 = Some (Ret s1)" "freed s s1 (?sub i) ps"
      using rec by (metis sub)
    define s2 where "s2 = s1\<lparr>pmem := store64 (pmem s1) (eaddr pt i) 0\<rparr>"
    obtain qs where q: "free_pages s2 (qs @ ps)" "mset qs = mset (?sub i)" "kmem_only s s2"
      "unchanged_off (insert pt (set (?sub i))) ?m (pmem s2)" "same_on (set ts) ?m (pmem s2)"
      "\<And>j. j < 512 \<Longrightarrow> j \<noteq> i \<Longrightarrow> ent (pmem s2) pt j = ent ?m pt j"
      using freewalk_child_step [OF s1(2) i dist pok s2_def] by metis
    have subj: "set (?sub j) \<subseteq> set ts" if "Suc i \<le> j" "j < 512" for j using that by (auto simp: ts_def)
    have subs: "subtables (pmem s2) pt l j = ?sub j" if "Suc i \<le> j" "j < 512" for j
      using that q(6) subj [OF that] by (intro subtables_cong same_on_mono [OF q(5)]) auto
    then have ts: "concat (map (subtables (pmem s2) pt l) [Suc i..<512]) = ts"
      unfolding ts_def by (intro arg_cong [where f = concat] map_cong) auto
    have "\<exists>s'. freewalk_loop s2 pt (Suc i) = Some (Ret s') \<and>
      freed s2 s' (pt # concat (map (subtables (pmem s2) pt l) [Suc i..<512])) (qs @ ps)"
    proof (rule Suc.hyps(1))
      show "n = 512 - Suc i" "Suc i \<le> 512" using Suc.hyps(2) i by auto
      show "free_pages s2 (qs @ ps)" by (rule q(1))
      have "mset (pt # ts @ qs @ ps) = mset (pt # (?sub i @ ts) @ ps)" using q(2) by simp
      then show "distinct (pt # concat (map (subtables (pmem s2) pt l) [Suc i..<512]) @ qs @ ps)"
        unfolding ts using dist mset_eq_imp_distinct_iff by blast
      show "list_all (page_ok s2) (pt # concat (map (subtables (pmem s2) pt l) [Suc i..<512]))"
        unfolding ts using pok kmem_only_page_ok [OF q(3)] by simp
      show "interior_entry (ent (pmem s2) pt j) \<and> leafless (pmem s2) (PTE2PA (ent (pmem s2) pt j)) l"
        if "Suc i \<le> j" "j < 512" "valid (ent (pmem s2) pt j)" for j
        using that q(6) [of j] Suc.prems(5) [of j] subj [of j]
          leafless_cong [OF same_on_mono [OF q(5)], of "PTE2PA (ent ?m pt j)" l]
        by (simp add: subtables_valid)
    qed
    then obtain s' where "freewalk_loop s2 pt (Suc i) = Some (Ret s')" "freed s2 s' (pt # ts) (qs @ ps)"
      unfolding ts by blast
    then show ?thesis
      using freed_trans [OF q(1,2,3,4)] freewalk_child [OF i True int s1(1) [unfolded c_def]]
      by (simp add: s2_def split)
  qed
qed


lemma freewalk_tree:
  fixes s :: "'z kmem_scheme"
  assumes "leafless (pmem s) pt l" "tree_ok s pt l ps"
  shows "\<exists>s'. freewalk_loop s pt 0 = Some (Ret s') \<and> freed s s' (tables (pmem s) pt l) ps"
  using assms
proof (induction l arbitrary: s pt ps)
  case 0
  have "freewalk_loop s pt 0 = Some (kfree s pt)" using "0.prems"(1) by (intro freewalk_invalid) auto
  then show ?case using kfree_freed [of s ps pt] "0.prems"(2) by (auto simp: tree_ok_def)
next
  case (Suc l)
  then show ?case unfolding tables_Suc
    by (intro freewalk_entries) (auto simp: tree_ok_def tables_Suc simp del: upt_rec_numeral)
qed

section \<open>Address spaces\<close>

lemma leaf_ix_cong: "(\<And>k. k \<le> l \<Longrightarrow> ix k va = ix k va') \<Longrightarrow> leaf m pt va l = leaf m pt va' l"
  by (induction l arbitrary: pt) (simp_all add: Let_def)

lemma leafless_tree:
  assumes "l \<le> 2" "interior m pt l" "\<And>va. unat va < 2 ^ (12 + 9 * Suc l) \<Longrightarrow> \<not> valid (leaf m pt va l)"
  shows "leafless m pt l"
  using assms
proof (induction l arbitrary: pt)
  case 0
  show ?case unfolding leafless.simps
  proof (intro allI impI)
    fix i :: nat assume i: "i < 512"
    have u: "unat (of_nat i * PGSIZE) = i * 4096" using i by (intro unat_pages) simp
    have "ix 0 (of_nat i * PGSIZE) = i" using i by (simp add: ix_eq u)
    then show "\<not> valid (ent m pt i)" using "0.prems"(3) [of "of_nat i * PGSIZE"] i u by simp
  qed
next
  case (Suc l)
  let ?w = "12 + 9 * Suc l"
  show ?case unfolding leafless.simps
  proof (intro allI impI conjI)
    fix i :: nat assume i: "i < 512" "valid (ent m pt i)"
    then show "interior_entry (ent m pt i)" using Suc.prems(2) by simp
    show "leafless m (PTE2PA (ent m pt i)) l"
    proof (rule Suc.IH)
      show "l \<le> 2" "interior m (PTE2PA (ent m pt i)) l" using Suc.prems(1,2) i by simp_all
      fix va :: u64 assume va: "unat va < 2 ^ (12 + 9 * Suc l)"
      define va' :: u64 where "va' = of_nat (unat va + i * 2 ^ ?w)"
      have lt: "unat va + i * 2 ^ ?w < 2 ^ (12 + 9 * Suc (Suc l))"
      proof -
        have "unat va + i * 2 ^ ?w < Suc i * 2 ^ ?w" using va by simp
        also have "\<dots> \<le> 512 * 2 ^ ?w" using i(1) by (intro mult_le_mono1) simp
        finally show ?thesis by (simp add: power_add)
      qed
      also have "(2 :: nat) ^ (12 + 9 * Suc (Suc l)) \<le> 2 ^ 64" using Suc.prems(1) by (intro power_increasing) auto
      finally have u: "unat va' = unat va + i * 2 ^ ?w" unfolding va'_def unat_of_nat by (intro mod_less) simp
      have top: "ix (Suc l) va' = i"
        unfolding ix_eq u using va i(1) by simp
      have low: "ix k va' = ix k va" if "k \<le> l" for k
      proof -
        define c :: nat where "c = i * 2 ^ (9 * (l - k))"
        have "i * 2 ^ ?w = 512 * c * 2 ^ (12 + 9 * k)"
        proof -
          have "9 * l = 9 * (l - k) + 9 * k" using that by simp
          then have "(2 :: nat) ^ (9 * l) = 2 ^ (9 * (l - k)) * 2 ^ (9 * k)" by (metis power_add)
          then show ?thesis by (simp add: c_def power_add)
        qed
        then have "unat va' div 2 ^ (12 + 9 * k) = 512 * c + unat va div 2 ^ (12 + 9 * k)"
          unfolding u by simp
        then show ?thesis unfolding ix_eq by simp
      qed
      have "\<not> valid (leaf m pt va' (Suc l))" using Suc.prems(3) [of va'] lt u by simp
      then show "\<not> valid (leaf m (PTE2PA (ent m pt i)) va l)"
        using top i(2) leaf_ix_cong [OF low] by (simp add: Let_def)
    qed
  qed
qed

lemma frames_eq: "frames s pt a n = map (\<lambda>i. PTE2PA (pte_of s pt (a + of_nat i * PGSIZE))) [0..<n]"
proof (induction n arbitrary: a)
  case (Suc n)
  have "[0..<Suc n] = 0 # map Suc [0..<n]" by (simp add: map_Suc_upt upt_conv_Cons)
  then show ?case by (simp add: Suc.IH o_def algebra_simps)
qed simp

lemma present_iff: "present s pt a n \<longleftrightarrow>
    (\<forall>i<n. valid (pte_of s pt (a + of_nat i * PGSIZE)) \<and> PTE_FLAGS (pte_of s pt (a + of_nat i * PGSIZE)) \<noteq> PTE_V)"
proof (induction n arbitrary: a)
  case (Suc n)
  show ?case unfolding present.simps Suc.IH All_less_Suc2 by (simp add: algebra_simps)
qed simp

lemma frames_append: "frames s pt a (m + n) = frames s pt a m @ frames s pt (a + of_nat m * PGSIZE) n"
  by (induction m arbitrary: a) (simp_all add: algebra_simps)

lemma pg_pages: "i < 2 ^ 52 \<Longrightarrow> pg (of_nat i * PGSIZE) = i"
  by (simp add: pg_def unat_pages)

text \<open>
  The user part of an address space: pages 0 to \<open>n - 1\<close> are mapped to frames of their own, nothing
  else is mapped except at the page numbers \<open>X\<close>, and tables, frames and free pages are disjoint.
\<close>

definition aspace :: "'z kmem_scheme \<Rightarrow> u64 \<Rightarrow> nat \<Rightarrow> nat set \<Rightarrow> u64 list \<Rightarrow> bool" where
  "aspace s pt n X ps \<longleftrightarrow>
     tree_ok s pt 2 ps \<and> interior (pmem s) pt 2 \<and> present s pt 0 n \<and> n \<le> 2 ^ 26 \<and>
     distinct (tables (pmem s) pt 2 @ frames s pt 0 n @ ps) \<and> list_all (page_ok s) (frames s pt 0 n) \<and>
     (\<forall>va. va < 2 ^ 39 \<longrightarrow> n \<le> pg va \<longrightarrow> pg va \<notin> X \<longrightarrow> \<not> valid (pte_of s pt va))"

abbreviation upg :: "nat \<Rightarrow> u64" where
  "upg i \<equiv> of_nat i * PGSIZE"

definition npg :: "u64 \<Rightarrow> nat" where
  "npg sz = (unat sz + 4095) div 4096"

lemma upg_below: "i < 2 ^ 26 \<Longrightarrow> upg i < MAXVA" "i < 2 ^ 27 \<Longrightarrow> upg i < 2 ^ 39"
  by (simp_all add: word_less_nat_alt unat_pages MAXVA_def)

lemma npg_le: "npg sz \<le> 2 ^ 26 \<Longrightarrow> unat sz \<le> 2 ^ 38"
  unfolding npg_def by (simp add: less_Suc_eq_le [symmetric] div_less_iff_less_mult)

lemma PGROUNDUP_npg: "unat sz \<le> 2 ^ 38 \<Longrightarrow> PGROUNDUP sz = upg (npg sz)"
proof -
  assume sz: "unat sz \<le> 2 ^ 38"
  have "npg sz * 4096 \<le> unat sz + 4095" unfolding npg_def by (rule div_times_less_eq_dividend)
  then have "unat (upg (npg sz)) = npg sz * 4096" using sz by (intro unat_pages) simp
  then show ?thesis using PGROUNDUP_unat [of sz] sz by (simp add: word_unat_eq_iff npg_def)
qed

lemma npg_mono: "a \<le> b \<Longrightarrow> npg a \<le> npg b"
  by (simp add: npg_def word_le_nat_alt div_le_mono)

lemma pages_cong:
  assumes "\<And>i. i < n \<Longrightarrow> pte_of s' pt (upg i) = pte_of s pt (upg i)"
  shows "frames s' pt 0 n = frames s pt 0 n" "present s' pt 0 n = present s pt 0 n"
  using assms by (simp_all add: frames_eq present_iff)

definition owned :: "'z kmem_scheme \<Rightarrow> u64 \<Rightarrow> nat \<Rightarrow> u64 list" where
  "owned s pt n = tables (pmem s) pt 2 @ frames s pt 0 n"

lemma present_split: "present s pt 0 n \<Longrightarrow> k \<le> n \<Longrightarrow> present s pt 0 k \<and> present s pt (upg k) (n - k)"
proof -
  assume p: "present s pt 0 n" and k: "k \<le> n"
  have "upg k + upg i = upg (k + i)" for i by (simp add: algebra_simps)
  then show ?thesis using p k by (simp add: present_iff del: of_nat_add)
qed

lemma frames_split: "k \<le> n \<Longrightarrow> frames s pt 0 n = frames s pt 0 k @ frames s pt (upg k) (n - k)"
  using frames_append [of s pt 0 k "n - k"] by simp

text \<open>
  \<open>resized\<close>: the address space went from \<open>n\<close> to \<open>n'\<close> pages.  Pages below both sizes keep their entries and
  their contents, entries from \<open>hi\<close> on keep too, no page is lost and no byte outside the address space
  and the free pages changes.
\<close>

definition resized ::
  "u64 \<Rightarrow> nat set \<Rightarrow> nat \<Rightarrow> 'z kmem_scheme \<Rightarrow> nat \<Rightarrow> u64 list \<Rightarrow> 'z kmem_scheme \<Rightarrow> nat \<Rightarrow> u64 list \<Rightarrow> bool"
where
  "resized pt X hi s n ps s' n' rs \<longleftrightarrow>
     aspace s' pt n' X rs \<and> kmem_only s s' \<and> mset (owned s' pt n' @ rs) = mset (owned s pt n @ ps) \<and>
     (\<forall>va. va < 2 ^ 39 \<longrightarrow> pg va < min n n' \<or> hi \<le> pg va \<longrightarrow> pte_of s' pt va = pte_of s pt va) \<and>
     same_on (set (frames s pt 0 (min n n'))) (pmem s) (pmem s') \<and>
     unchanged_off (set (owned s pt n @ ps)) (pmem s) (pmem s')"

lemma resized_mono: "resized pt X hi s n ps s' n' rs \<Longrightarrow> hi \<le> hi' \<Longrightarrow> resized pt X hi' s n ps s' n' rs"
  by (auto simp: resized_def)

lemma frames_low:
  assumes "\<And>va. va < 2 ^ 39 \<Longrightarrow> pg va < k \<Longrightarrow> pte_of s' pt va = pte_of s pt va" "k \<le> 2 ^ 26"
  shows "frames s' pt 0 k = frames s pt 0 k" "present s' pt 0 k = present s pt 0 k"
proof -
  have "pte_of s' pt (upg i) = pte_of s pt (upg i)" if "i < k" for i
    using that assms pg_pages [of i] upg_below(2) [of i] by simp
  then show "frames s' pt 0 k = frames s pt 0 k" "present s' pt 0 k = present s pt 0 k"
    by (intro pages_cong; blast)+
qed

lemma frames_mono: "k \<le> n \<Longrightarrow> set (frames s pt 0 k) \<subseteq> set (frames s pt 0 n)"
  by (auto simp: frames_split)

lemma resized_trans:
  assumes r1: "resized pt X hi s n ps s1 n1 qs" and r2: "resized pt X hi s1 n1 qs s2 n2 rs"
    and m: "min n n2 \<le> n1" "n1 \<le> 2 ^ 26"
  shows "resized pt X hi s n ps s2 n2 rs"
proof -
  note 1 = r1 [unfolded resized_def] and 2 = r2 [unfolded resized_def]
  let ?k = "min n n2"
  have fr: "frames s1 pt 0 ?k = frames s pt 0 ?k" using 1 m by (intro frames_low) auto
  have "same_on (set (frames s pt 0 ?k)) (pmem s) (pmem s1)"
    by (rule same_on_mono [of "set (frames s pt 0 (min n n1))"]) (use 1 m(1) in \<open>simp_all add: frames_mono\<close>)
  moreover have "same_on (set (frames s1 pt 0 ?k)) (pmem s1) (pmem s2)"
    by (rule same_on_mono [of "set (frames s1 pt 0 (min n1 n2))"]) (use 2 m(1) in \<open>simp_all add: frames_mono\<close>)
  ultimately have "same_on (set (frames s pt 0 ?k)) (pmem s) (pmem s2)"
    unfolding fr by (simp add: same_on_def)
  moreover have "set (owned s1 pt n1 @ qs) = set (owned s pt n @ ps)"
    using 1 by (metis set_mset_mset)
  then have "unchanged_off (set (owned s pt n @ ps)) (pmem s) (pmem s2)"
    using unchanged_off_trans [of "set (owned s pt n @ ps)" "pmem s" "pmem s1" "set (owned s1 pt n1 @ qs)" "pmem s2"] 1 2
    by simp
  moreover have "pte_of s2 pt va = pte_of s pt va" if "va < 2 ^ 39" "pg va < ?k \<or> hi \<le> pg va" for va
    using 1 2 m(1) that by auto
  ultimately show ?thesis using 1 2 kmem_only_trans [of s s1 s2] by (simp add: resized_def)
qed

lemma aspace_unmap:
  assumes asp: "aspace s pt n X ps" and k: "k \<le> n"
  shows "\<exists>s'. uvmunmap s pt (upg k) (of_nat (n - k)) True = Ret s' \<and>
    resized pt X n s n ps s' k (rev (frames s pt (upg k) (n - k)) @ ps)"
proof -
  let ?fr = "frames s pt (upg k) (n - k)"
  note a = asp [unfolded aspace_def]
  have n: "n \<le> 2 ^ 26" using a by simp
  have fr: "frames s pt 0 n = frames s pt 0 k @ ?fr" by (rule frames_split [OF k])
  have pgk: "pg (upg k) = k" using n k by (intro pg_pages) simp
  have "\<exists>s'. uvmunmap_loop s pt (upg k) (upg k + upg (n - k)) True = Ret s' \<and>
      unmapped s s' pt (upg k) (n - k) (if True then rev ?fr else []) ps"
  proof (rule uvmunmap_loop_unmaps)
    show "tree_ok s pt 2 ps" using a by simp
    show "unat (upg k) + 4096 * (n - k) \<le> 2 ^ 38" using n k by (subst unat_pages) auto
    show "present s pt (upg k) (n - k)" using present_split [of s pt n k] a k by blast
    show "distinct (tables (pmem s) pt 2 @ ?fr @ ps) \<and> list_all (page_ok s) ?fr"
      using a unfolding fr by auto
  qed
  then obtain s' where s': "uvmunmap_loop s pt (upg k) (upg k + upg (n - k)) True = Ret s'"
    "unmapped s s' pt (upg k) (n - k) (rev ?fr) ps" by auto
  note u = s'(2) [unfolded unmapped_def pgk]
  have pte: "pte_of s' pt va = (if k \<le> pg va \<and> pg va < n then 0 else pte_of s pt va)" if "va < 2 ^ 39" for va
    using u that k by simp
  have low: "pte_of s' pt (upg i) = pte_of s pt (upg i)" if "i < k" for i
    using pte [OF upg_below(2)] pg_pages [of i] that n k by simp
  have frk: "frames s' pt 0 k = frames s pt 0 k" "present s' pt 0 k = present s pt 0 k"
    using low by (intro pages_cong; blast)+
  have m: "mset (tables (pmem s') pt 2) = mset (tables (pmem s) pt 2)" using u by simp
  have pok: "page_ok s' = page_ok s" using u kmem_only_page_ok by blast
  have eq: "mset (owned s' pt k @ rev ?fr @ ps) = mset (owned s pt n @ ps)"
    using m by (simp add: owned_def fr frk)
  have asp': "aspace s' pt k X (rev ?fr @ ps)"
    unfolding aspace_def tree_ok_def
  proof (intro conjI allI impI)
    show d: "distinct (tables (pmem s') pt 2 @ frames s' pt 0 k @ rev ?fr @ ps)"
      using a eq mset_eq_imp_distinct_iff [OF eq] by (simp add: owned_def)
    then show "distinct (tables (pmem s') pt 2 @ rev ?fr @ ps)" by auto
    show "free_pages s' (rev ?fr @ ps)" "interior (pmem s') pt 2" using u a by auto
    have "set (tables (pmem s') pt 2) = set (tables (pmem s) pt 2)" using m by (metis set_mset_mset)
    then show "list_all (page_ok s') (tables (pmem s') pt 2)"
      using a unfolding pok tree_ok_def by (simp add: list_all_iff)
    show "present s' pt 0 k" unfolding frk using present_split [of s pt n k] a k by auto
    show "list_all (page_ok s') (frames s' pt 0 k)" using a unfolding pok frk fr by simp
    show "\<not> valid (pte_of s' pt va)" if "va < 2 ^ 39" "k \<le> pg va" "pg va \<notin> X" for va
      using pte [OF that(1)] that a by (cases "pg va < n") auto
    show "k \<le> 2 ^ 26" using n k by simp
  qed
  have off: "unchanged_off (set (tables (pmem s) pt 2) \<union> set ?fr) (pmem s) (pmem s')" using u by simp
  have "same_on (set (frames s pt 0 k)) (pmem s) (pmem s')"
    using a unfolding fr
    by (intro unchanged_same_on [OF off]) (auto simp: list_all_iff page_ok_def tree_ok_def)
  moreover have "unchanged_off (set (owned s pt n @ ps)) (pmem s) (pmem s')"
    by (rule unchanged_off_mono [OF off]) (auto simp: owned_def fr)
  ultimately have "resized pt X n s n ps s' k (rev ?fr @ ps)"
    using asp' eq u pte k by (simp add: resized_def)
  moreover have "uvmunmap s pt (upg k) (of_nat (n - k)) True = Ret s'"
  proof -
    have "upg k mod PGSIZE = 0" using n k by (simp add: unat_pages aligned_def flip: aligned12_iff)
    then show ?thesis using s'(1) by (simp add: uvmunmap_def)
  qed
  ultimately show ?thesis by blast
qed

lemma aspace_cong:
  assumes a: "aspace s pt n X ps" and k: "kmem_only s s2" and f: "free_pages s2 qs"
    and d: "set qs \<inter> set (owned s pt n) = {}" and same: "same_on (set (tables (pmem s) pt 2)) (pmem s) (pmem s2)"
  shows "aspace s2 pt n X qs" "owned s2 pt n = owned s pt n" "\<And>va. pte_of s2 pt va = pte_of s pt va"
proof -
  show pte: "pte_of s2 pt va = pte_of s pt va" for va by (rule leaf_cong [OF same])
  have tb: "tables (pmem s2) pt 2 = tables (pmem s) pt 2" by (rule tables_cong [OF same])
  have fp: "frames s2 pt 0 n = frames s pt 0 n" "present s2 pt 0 n = present s pt 0 n"
    by (rule pages_cong; simp add: pte)+
  show "owned s2 pt n = owned s pt n" by (simp add: owned_def tb fp)
  show "aspace s2 pt n X qs"
    using a d f interior_cong [OF same] kmem_only_page_ok [OF k] pte fp tb
    by (auto simp: aspace_def tree_ok_def owned_def free_pages_def)
qed

text \<open>A page taken off the free list and filled with anything is not part of the address space.\<close>

lemma aspace_take:
  assumes a: "aspace s pt n X (p # ps)" and k: "kmem_only s s2" and fl: "freelist s2 = load64 (pmem s) p"
    and off: "unchanged_off {p} (pmem s) (pmem s2)"
  shows "aspace s2 pt n X ps" "owned s2 pt n = owned s pt n" "\<And>va. pte_of s2 pt va = pte_of s pt va"
    "p \<notin> set (owned s pt n)" "p \<notin> set ps" "page_ok s2 p"
proof -
  have ok: "tree_ok s pt 2 (p # ps)" and d: "distinct (owned s pt n @ p # ps)" and fp: "free_pages s (p # ps)"
    using a by (auto simp: aspace_def tree_ok_def owned_def)
  show np: "p \<notin> set (owned s pt n)" "p \<notin> set ps" using d by auto
  show pok: "page_ok s2 p" using fp kmem_only_page_ok [OF k] by (simp add: free_pages_def)
  have al: "\<forall>q\<in>set (owned s pt n) \<union> set ps. aligned 12 q" and alp: "aligned 12 p"
    using a by (auto simp: aspace_def tree_ok_def free_pages_def owned_def list_all_iff page_ok_def)
  have same: "same_on qs (pmem s) (pmem s2)" if "p \<notin> qs" "qs \<subseteq> set (owned s pt n) \<union> set ps" for qs
    using that al alp by (intro unchanged_same_on [OF off]) auto
  have "chain (pmem s) (load64 (pmem s) p) ps = chain (pmem s2) (load64 (pmem s) p) ps"
    using same [of "set ps"] np by (intro chain_cong) (auto simp: same_on_def)
  then have f: "free_pages s2 ps"
    using fp fl kmem_only_page_ok [OF k] kmem_only_sym_end [OF k] by (simp add: free_pages_def)
  have tb: "same_on (set (tables (pmem s) pt 2)) (pmem s) (pmem s2)"
    using np by (intro same) (auto simp: owned_def)
  have dj: "set ps \<inter> set (owned s pt n) = {}" using d by auto
  show "aspace s2 pt n X ps" "owned s2 pt n = owned s pt n" "pte_of s2 pt va = pte_of s pt va" for va
    by (rule aspace_cong [OF a k f dj tb])+
qed

lemma mapped_one:
  assumes "mapped s ps pt (upg j) (Suc 0) p perm r s' us rs" "j < 2 ^ 26"
  shows "r = 0 \<and> (\<forall>va. va < 2 ^ 39 \<longrightarrow> pte_of s' pt va = (if pg va = j then PA2PTE p OR perm OR PTE_V else pte_of s pt va)) \<or>
    r = -1 \<and> rs = [] \<and> (\<forall>va. va < 2 ^ 39 \<longrightarrow> pte_of s' pt va = pte_of s pt va)"
proof -
  have j: "pg (upg j) = j" using assms(2) by (intro pg_pages) simp
  obtain k where k: "r = 0 \<and> k = Suc 0 \<or> r = -1 \<and> k < Suc 0 \<and> rs = []"
    "\<And>va. va < 2 ^ 39 \<Longrightarrow> pte_of s' pt va = map_range (pte_of s pt) (upg j) k p perm va"
    using assms(1) unfolding mapped_def by blast
  have "map_range (pte_of s pt) (upg j) (Suc 0) p perm va = (if pg va = j then PA2PTE p OR perm OR PTE_V else pte_of s pt va)"
    "map_range (pte_of s pt) (upg j) 0 p perm va = pte_of s pt va" for va
    unfolding map_range_def j by auto
  with k show ?thesis by auto
qed

lemma aspace_evolved:
  assumes a: "aspace s pt n X (us @ rs)" and ev: "evolved s s' pt 2 us rs"
    and pte: "\<And>va. va < 2 ^ 39 \<Longrightarrow> pte_of s' pt va = pte_of s pt va"
  shows "aspace s' pt n X rs" "mset (owned s' pt n) = mset (owned s pt n @ us)"
proof -
  have n: "n \<le> 2 ^ 26" using a by (simp add: aspace_def)
  have fp: "frames s' pt 0 n = frames s pt 0 n" "present s' pt 0 n = present s pt 0 n"
    by (rule pages_cong; use pte upg_below(2) n in force)+
  show m: "mset (owned s' pt n) = mset (owned s pt n @ us)"
    using ev by (simp add: owned_def fp evolved_def)
  then have eq: "mset (owned s' pt n @ rs) = mset (owned s pt n @ us @ rs)" by simp
  have "distinct (owned s pt n @ us @ rs)" using a by (simp add: aspace_def owned_def)
  then have "distinct (owned s' pt n @ rs)" using eq mset_eq_imp_distinct_iff by blast
  moreover have "tree_ok s' pt 2 rs" using evolved_tree_ok [OF _ ev] a by (simp add: aspace_def)
  moreover have "page_ok s' = page_ok s" "interior (pmem s) pt 2 \<longrightarrow> interior (pmem s') pt 2"
    using ev by (auto simp: evolved_def kmem_only_page_ok)
  ultimately show "aspace s' pt n X rs" using a pte fp n by (simp add: aspace_def owned_def)
qed


lemma unat_PGSIZE: "unat PGSIZE = 4096" by (simp add: PGSIZE_def)

lemma frames_Suc: "frames s pt 0 (Suc j) = frames s pt 0 j @ [PTE2PA (pte_of s pt (upg j))]"
  by (simp add: frames_eq)

lemma present_Suc:
  "present s pt 0 (Suc j) \<longleftrightarrow> present s pt 0 j \<and> valid (pte_of s pt (upg j)) \<and> PTE_FLAGS (pte_of s pt (upg j)) \<noteq> PTE_V"
  by (auto simp: present_iff less_Suc_eq)

lemma aspace_map_next:
  assumes a: "aspace s pt j X (us @ rs)" and ev: "evolved s s3 pt 2 us rs"
    and pte: "\<And>va. va < 2 ^ 39 \<Longrightarrow> pte_of s3 pt va = (if pg va = j then PA2PTE p OR perm OR PTE_V else pte_of s pt va)"
    and j: "j < 2 ^ 26" and perm: "perm OR PTE_V < 1024" "PTE_FLAGS (PA2PTE p OR perm OR PTE_V) \<noteq> PTE_V"
    and pok: "page_ok s p" and np: "p \<notin> set (owned s pt j @ us @ rs)"
  shows "aspace s3 pt (Suc j) X rs" "mset (owned s3 pt (Suc j)) = mset (owned s pt j @ us @ [p])"
proof -
  have pgi: "pg (upg i) = i" "upg i < 2 ^ 39" if "i \<le> j" for i
    using that j pg_pages [of i] upg_below(2) [of i] by simp_all
  have low: "frames s3 pt 0 j = frames s pt 0 j" "present s3 pt 0 j = present s pt 0 j"
    by (rule pages_cong; use pte pgi in force)+
  have "PTE2PA (PA2PTE p OR (perm OR PTE_V)) = p"
    using PTE2PA_PA2PTE [OF _ perm(1)] pok by (simp add: page_ok_def)
  then have new: "pte_of s3 pt (upg j) = PA2PTE p OR perm OR PTE_V" "PTE2PA (pte_of s3 pt (upg j)) = p"
    using pte [of "upg j"] pgi [of j] by simp_all
  show m: "mset (owned s3 pt (Suc j)) = mset (owned s pt j @ us @ [p])"
    using ev by (simp add: owned_def frames_Suc low new(2) evolved_def del: frames.simps)
  have "distinct ((owned s pt j @ us @ rs) @ [p])" using a np by (simp add: aspace_def owned_def)
  moreover have "mset (owned s3 pt (Suc j) @ rs) = mset ((owned s pt j @ us @ rs) @ [p])" using m by simp
  ultimately have "distinct (owned s3 pt (Suc j) @ rs)" using mset_eq_imp_distinct_iff by blast
  moreover have "tree_ok s3 pt 2 rs" using evolved_tree_ok [OF _ ev] a by (simp add: aspace_def)
  moreover have "page_ok s3 = page_ok s" "interior (pmem s) pt 2 \<longrightarrow> interior (pmem s3) pt 2"
    using ev by (auto simp: evolved_def kmem_only_page_ok)
  moreover have "present s3 pt 0 (Suc j)"
    using a perm(2) valid_leaf [of "PA2PTE p OR perm"] unfolding present_Suc low new(1)
    by (simp add: aspace_def or.assoc)
  moreover have "\<not> valid (pte_of s3 pt va)" if "va < 2 ^ 39" "Suc j \<le> pg va" "pg va \<notin> X" for va
    using pte [OF that(1)] that a by (simp add: aspace_def)
  ultimately show "aspace s3 pt (Suc j) X rs"
    using a j pok unfolding aspace_def by (simp add: owned_def frames_Suc low new(2) del: present.simps frames.simps)
qed

lemma aspace_extend:
  assumes a: "aspace s pt j X (p # ps)" and k: "kmem_only s s2" "freelist s2 = load64 (pmem s) p"
    and off: "unchanged_off {p} (pmem s) (pmem s2)" and j: "j < 2 ^ 26" "j \<notin> X"
    and perm: "perm OR PTE_V < 1024" "PTE_FLAGS (PA2PTE p OR perm OR PTE_V) \<noteq> PTE_V"
  shows "\<exists>r s3. mappages s2 pt (upg j) PGSIZE p perm = Ret (r, s3) \<and>
    (r = 0 \<and> (\<exists>rs. resized pt X (Suc j) s j (p # ps) s3 (Suc j) rs) \<and>
       pte_of s3 pt (upg j) = PA2PTE p OR perm OR PTE_V \<and> same_on {p} (pmem s2) (pmem s3) \<or>
     r = -1 \<and> (\<exists>s4. kfree s3 p = Ret s4 \<and> resized pt X (Suc j) s j (p # ps) s4 j [p]))"
proof -
  note t = aspace_take [OF a k off]
  have pgj: "pg (upg j) = j" using j by (intro pg_pages) simp
  have ok2: "tree_ok s2 pt 2 ps" using t(1) by (simp add: aspace_def)
  have "\<exists>r s3 us rs. mappages s2 pt (upg j) PGSIZE p perm = Ret (r, s3) \<and>
      mapped s2 ps pt (upg j) (unat PGSIZE div 4096) p perm r s3 us rs"
  proof (rule mappages_mapped [OF ok2])
    show "upg j mod PGSIZE = 0" using j by (simp add: unat_pages aligned_def flip: aligned12_iff)
    show "unat (upg j) + unat PGSIZE \<le> 2 ^ 38" using j by (subst unat_pages) (auto simp: PGSIZE_def)
    show "\<not> valid (pte_of s2 pt v)" if "v < 2 ^ 39" "pg (upg j) \<le> pg v" "pg v < pg (upg j) + unat PGSIZE div 4096" for v
    proof -
      have "pg v = j" using that(2,3) unfolding pgj unat_PGSIZE by simp
      then show ?thesis using that(1) t(1) j(2) by (simp add: aspace_def)
    qed
  qed (auto simp: PGSIZE_def)
  then obtain r s3 us rs where m: "mappages s2 pt (upg j) PGSIZE p perm = Ret (r, s3)"
    "mapped s2 ps pt (upg j) (Suc 0) p perm r s3 us rs" by (auto simp: unat_PGSIZE)
  have ps: "ps = us @ rs" and ev: "evolved s2 s3 pt 2 us rs" using m(2) by (auto simp: mapped_def)
  have ks: "kmem_only s s3" using ev kmem_only_trans [OF k(1)] by (auto simp: evolved_def)
  have "tables (pmem s2) pt 2 @ frames s pt 0 j = tables (pmem s) pt 2 @ frames s pt 0 j"
    using t(2,3) by (simp add: owned_def frames_eq)
  then have tb: "tables (pmem s2) pt 2 = tables (pmem s) pt 2" by simp
  have off3: "unchanged_off (set (tables (pmem s) pt 2) \<union> set ps) (pmem s2) (pmem s3)"
    by (rule unchanged_off_mono [of "set (tables (pmem s) pt 2) \<union> set us"]) (use ev tb ps in \<open>auto simp: evolved_def\<close>)
  note d = a [unfolded aspace_def]
  have al: "\<forall>q\<in>set (owned s pt j) \<union> insert p (set ps). aligned 12 q"
    using d by (auto simp: tree_ok_def free_pages_def owned_def list_all_iff page_ok_def)
  have dist: "distinct (owned s pt j @ p # ps)" using d by (simp add: owned_def)
  have offs: "unchanged_off (insert p (set (tables (pmem s) pt 2) \<union> set ps)) (pmem s) (pmem s3)"
    using unchanged_off_trans [OF off off3] by simp
  have frs: "same_on (set (frames s pt 0 j)) (pmem s) (pmem s3)"
    using dist al by (intro unchanged_same_on [OF offs]) (auto simp: owned_def)
  have wide: "unchanged_off (set (owned s pt j @ p # ps)) (pmem s) (pmem s3)"
    by (rule unchanged_off_mono [OF offs]) (auto simp: owned_def)
  show ?thesis
  proof (cases "r = 0")
    case False
    then have r: "r = -1" "rs = []" "\<And>va. va < 2 ^ 39 \<Longrightarrow> pte_of s3 pt va = pte_of s2 pt va"
      using mapped_one [OF m(2) j(1)] by auto
    note e = aspace_evolved [OF t(1) [unfolded ps] ev r(3)]
    have us: "us = ps" using ps r(2) by simp
    have pok: "page_ok s3 p" using t(6) ev kmem_only_page_ok [of s2 s3] by (simp add: evolved_def)
    have "set (owned s3 pt j) = set (owned s pt j) \<union> set ps"
      using e(2) t(2) us by (metis set_mset_mset set_append)
    then have np: "p \<notin> set (owned s3 pt j)" using t(4,5) by simp
    have ok3: "tree_ok s3 pt 2 []" using e(1) r(2) by (simp add: aspace_def)
    obtain s4 where s4: "kfree s3 p = Ret s4" "free_pages s4 [p]" "kmem_only s3 s4"
      "unchanged_off {p} (pmem s3) (pmem s4)" "same_on (set (tables (pmem s3) pt 2)) (pmem s3) (pmem s4)"
      using kfree_keeps_tree [OF ok3 pok] np by (auto simp: owned_def)
    have a4: "aspace s4 pt j X [p]" "owned s4 pt j = owned s3 pt j" "\<And>va. pte_of s4 pt va = pte_of s3 pt va"
      using aspace_cong [OF e(1) s4(3,2) _ s4(5)] np by auto
    have "same_on (set (frames s pt 0 j)) (pmem s3) (pmem s4)"
      using t(4) al by (intro unchanged_same_on [OF s4(4)]) (auto simp: owned_def)
    then have "same_on (set (frames s pt 0 j)) (pmem s) (pmem s4)" using frs by (simp add: same_on_def)
    moreover have "unchanged_off (set (owned s pt j @ p # ps)) (pmem s) (pmem s4)"
      using unchanged_off_trans [OF wide s4(4)] by (simp add: insert_absorb)
    ultimately have "resized pt X (Suc j) s j (p # ps) s4 j [p]"
      using a4 e(2) t(2,3) r(3) kmem_only_trans [OF ks s4(3)] us by (simp add: resized_def)
    then show ?thesis using m(1) r(1) s4(1) by blast
  next
    case True
    have pte: "pte_of s3 pt va = (if pg va = j then PA2PTE p OR perm OR PTE_V else pte_of s pt va)" if "va < 2 ^ 39" for va
      using mapped_one [OF m(2) j(1)] True that t(3) by auto
    have np: "p \<notin> set (owned s2 pt j @ us @ rs)" using t(2,4,5) ps by auto
    note e = aspace_map_next [OF t(1) [unfolded ps] ev _ j(1) perm t(6) np]
    have e: "aspace s3 pt (Suc j) X rs" "mset (owned s3 pt (Suc j)) = mset (owned s2 pt j @ us @ [p])"
      using e pte t(3) by simp_all
    have "resized pt X (Suc j) s j (p # ps) s3 (Suc j) rs"
      using e ks frs wide pte t(2) ps by (simp add: resized_def del: frames.simps)
    moreover have "same_on {p} (pmem s2) (pmem s3)"
      using t(4,5) al by (intro unchanged_same_on [OF off3]) (auto simp: owned_def)
    moreover have "pte_of s3 pt (upg j) = PA2PTE p OR perm OR PTE_V"
      using pte [OF upg_below(2)] j(1) pgj by simp
    ultimately show ?thesis using m(1) True by blast
  qed
qed

lemma scast_small: "m < 2 ^ 31 \<Longrightarrow> scast (ucast (of_nat m :: u64) :: u32) = (of_nat m :: u64)"
proof -
  assume m: "m < 2 ^ 31"
  have 1: "(ucast (of_nat m :: u64) :: u32) = of_nat m"
    using m by (simp add: word_unat_eq_iff unat_of_nat unsigned_ucast_eq take_bit_nat_eq_self)
  have "sint (of_nat m :: u32) = int m"
    using m by (simp add: signed_of_nat signed_take_bit_int_eq_self)
  then have "scast (of_nat m :: u32) = (word_of_int (int m) :: u64)"
    by (simp add: scast_eq)
  then show ?thesis using 1 by simp
qed

lemma unat_eq_of_nat: "unat x = k \<Longrightarrow> x = of_nat k" for x :: u64
  using unat_less_2p64 [of x] by (auto simp: word_unat_eq_iff unat_of_nat)

lemma npg_upg: "j \<le> 2 ^ 26 \<Longrightarrow> npg (upg j) = j"
  unfolding npg_def by (subst unat_pages) auto

lemma resized_refl: "aspace s pt n X ps \<Longrightarrow> resized pt X hi s n ps s n ps"
  by (simp add: resized_def same_on_def)

lemma uvmdealloc_aspace:
  assumes a: "aspace s pt (npg oldsz) X ps" and le: "newsz \<le> oldsz"
  shows "\<exists>s' qs. uvmdealloc s pt oldsz newsz = Ret (newsz, s') \<and>
    resized pt X (npg oldsz) s (npg oldsz) ps s' (npg newsz) qs"
proof -
  let ?n = "npg oldsz" and ?k = "npg newsz"
  have n: "?n \<le> 2 ^ 26" using a by (simp add: aspace_def)
  have k: "?k \<le> ?n" by (rule npg_mono [OF le])
  have up: "PGROUNDUP oldsz = upg ?n" "PGROUNDUP newsz = upg ?k"
    using npg_le n k by (simp_all add: PGROUNDUP_npg)
  have u: "unat (upg ?n) = ?n * 4096" "unat (upg ?k) = ?k * 4096"
    using n k by (simp_all add: unat_pages)
  show ?thesis
  proof (cases "newsz < oldsz \<and> ?k < ?n")
    case True
    then have lt: "upg ?k < upg ?n" by (simp add: word_less_nat_alt u)
    have "upg ?n - upg ?k = upg (?n - ?k)" using True by (simp add: algebra_simps)
    then have "unat ((upg ?n - upg ?k) div PGSIZE) = ?n - ?k"
      using n unat_pages [of "?n - ?k"] by (simp add: unat_div unat_PGSIZE)
    then have d: "(upg ?n - upg ?k) div PGSIZE = of_nat (?n - ?k)" by (rule unat_eq_of_nat)
    have "uvmdealloc s pt oldsz newsz =
        bindr (uvmunmap s pt (upg ?k) (of_nat (?n - ?k)) True) (\<lambda>s1. Ret (newsz, s1))"
      using True lt scast_small [of "?n - ?k"] n unfolding uvmdealloc_def up d by (simp add: not_le [symmetric])
    then show ?thesis using aspace_unmap [OF a k] by auto
  next
    case False
    then have "oldsz = newsz \<or> newsz < oldsz \<and> ?k = ?n" using le k by (auto simp: order.order_iff_strict)
    then have "uvmdealloc s pt oldsz newsz = Ret (newsz, s)" and "?k = ?n"
      by (auto simp: uvmdealloc_def up)
    then show ?thesis using resized_refl [OF a] by auto
  qed
qed

text \<open>\<open>uvmfree\<close> returns every page of the address space, the tables included.\<close>

lemma uvmfree_frees_all:
  assumes a: "aspace s pt (npg sz) {} ps"
  shows "\<exists>s' qs. uvmfree s pt sz = Ret s' \<and> free_pages s' (qs @ ps) \<and> mset qs = mset (owned s pt (npg sz)) \<and>
    kmem_only s s' \<and> unchanged_off (set (owned s pt (npg sz) @ ps)) (pmem s) (pmem s')"
proof -
  let ?n = "npg sz"
  have n: "?n \<le> 2 ^ 26" using a by (simp add: aspace_def)
  have "\<exists>s1 qs. (if sz > 0 then uvmunmap s pt 0 (PGROUNDUP sz div PGSIZE) True else Ret s) = Ret s1 \<and>
    resized pt {} ?n s ?n ps s1 0 (qs @ ps)"
  proof (cases "sz > 0")
    case True
    have "unat (PGROUNDUP sz div PGSIZE) = ?n"
      using n npg_le [OF n] by (simp add: PGROUNDUP_npg unat_div unat_pages unat_PGSIZE)
    then have "PGROUNDUP sz div PGSIZE = of_nat ?n" by (rule unat_eq_of_nat)
    then show ?thesis using aspace_unmap [OF a, of 0] True by auto
  next
    case False
    then have "?n = 0" by (simp add: npg_def word_less_nat_alt)
    then show ?thesis using False resized_refl [OF a] by (intro exI [of _ s] exI [of _ "[]"]) simp
  qed
  then obtain s1 qs where s1: "(if sz > 0 then uvmunmap s pt 0 (PGROUNDUP sz div PGSIZE) True else Ret s) = Ret s1"
    "resized pt {} ?n s ?n ps s1 0 (qs @ ps)" by blast
  note r = s1(2) [unfolded resized_def]
  have ok: "tree_ok s1 pt 2 (qs @ ps)" using r by (simp add: aspace_def)
  have "leafless (pmem s1) pt 2"
    using r by (intro leafless_tree) (auto simp: aspace_def word_less_nat_alt)
  then obtain s' where s': "freewalk_loop s1 pt 0 = Some (Ret s')" "freed s1 s' (tables (pmem s1) pt 2) (qs @ ps)"
    using freewalk_tree [OF _ ok] by blast
  obtain rs where rs: "free_pages s' (rs @ qs @ ps)" "mset rs = mset (tables (pmem s1) pt 2)"
    using s'(2) by (auto simp: freed_def)
  have m: "mset (tables (pmem s1) pt 2 @ qs) = mset (owned s pt ?n)" using r by (simp add: owned_def)
  then have all: "free_pages s' ((rs @ qs) @ ps) \<and> mset (rs @ qs) = mset (owned s pt ?n)" using rs by simp
  have "set (tables (pmem s1) pt 2 @ qs) = set (owned s pt ?n)" using m by (metis set_mset_mset)
  then have "set (tables (pmem s1) pt 2) \<subseteq> set (owned s pt ?n)" by auto
  then have "unchanged_off (set (owned s pt ?n @ ps)) (pmem s) (pmem s')"
    using unchanged_off_trans [of "set (owned s pt ?n @ ps)" "pmem s" "pmem s1" "set (tables (pmem s1) pt 2)" "pmem s'"] r s'(2)
    by (simp add: freed_def Un_absorb2 le_supI1)
  moreover have "kmem_only s s'" using r kmem_only_trans [of s s1 s'] s'(2) by (simp add: freed_def)
  moreover have "uvmfree s pt sz = Ret s'"
    using s1(1) s'(1) by (simp add: uvmfree_def freewalk_def of_option_res_def)
  ultimately show ?thesis using all by blast
qed

section \<open>Growing an address space\<close>

text \<open>Page \<open>i\<close> is mapped with permissions \<open>perm\<close> to a frame of zeros.\<close>

definition zero_page :: "'z kmem_scheme \<Rightarrow> u64 \<Rightarrow> u64 \<Rightarrow> nat \<Rightarrow> bool" where
  "zero_page s pt perm i \<longleftrightarrow>
     (\<exists>p. aligned 12 p \<and> pte_of s pt (upg i) = PA2PTE p OR perm OR PTE_V \<and> (\<forall>x. in_page p x \<longrightarrow> pmem s x = 0))"

lemma zero_page_frame:
  assumes "zero_page s pt perm i" "perm OR PTE_V < 1024"
  shows "\<exists>p. p = PTE2PA (pte_of s pt (upg i)) \<and> pte_of s pt (upg i) = PA2PTE p OR perm OR PTE_V \<and>
    (\<forall>x. in_page p x \<longrightarrow> pmem s x = 0)"
  using assms PTE2PA_PA2PTE [OF _ assms(2)] by (auto simp: zero_page_def)

lemma zero_page_resized:
  assumes z: "zero_page s pt perm i" and r: "resized pt X hi s n ps s' n' rs" and i: "i < n" "i < n'" "n' \<le> 2 ^ 26"
    and perm: "perm OR PTE_V < 1024"
  shows "zero_page s' pt perm i"
proof -
  obtain p where p: "aligned 12 p" "pte_of s pt (upg i) = PA2PTE p OR perm OR PTE_V" "\<And>x. in_page p x \<Longrightarrow> pmem s x = 0"
    using z by (auto simp: zero_page_def)
  have "PTE2PA (pte_of s pt (upg i)) = p" using PTE2PA_PA2PTE [OF p(1) perm] p(2) by simp
  then have "p \<in> set (frames s pt 0 (min n n'))" using i by (auto simp: frames_eq)
  then have "pmem s' x = 0" if "in_page p x" for x
    using r that p(3) [OF that] unfolding resized_def same_on_def by metis
  moreover have "pte_of s' pt (upg i) = pte_of s pt (upg i)"
    using r i pg_pages [of i] upg_below(2) [of i] by (simp add: resized_def)
  ultimately show ?thesis using p by (auto simp: zero_page_def)
qed

lemma flags_less: "w < 1024 \<longleftrightarrow> drop_bit 10 w = 0" for w :: u64
  by (simp add: drop_bit_eq_div word_unat_eq_iff unat_div word_less_nat_alt div_eq_0_iff)

lemma perm_user:
  assumes "xperm < 1024"
  shows "(PTE_R OR PTE_U OR xperm) OR PTE_V < 1024" "PTE_FLAGS (PA2PTE p OR (PTE_R OR PTE_U OR xperm) OR PTE_V) \<noteq> PTE_V"
proof -
  show "(PTE_R OR PTE_U OR xperm) OR PTE_V < 1024"
    using assms unfolding flags_less by (simp add: PTE_R_def PTE_U_def PTE_V_def)
  have "bit (PTE_FLAGS (PA2PTE p OR (PTE_R OR PTE_U OR xperm) OR PTE_V)) 1" "\<not> bit PTE_V 1"
    by (simp_all add: PTE_FLAGS_def PTE_R_def PTE_V_def bit_simps)
  then show "PTE_FLAGS (PA2PTE p OR (PTE_R OR PTE_U OR xperm) OR PTE_V) \<noteq> PTE_V" by metis
qed

lemma kalloc_fill:
  assumes fp: "free_pages s (p # ps)" and "kalloc s = (p, s1)" "s2 = s1\<lparr>pmem := memset (pmem s1) p c (ucast PGSIZE)\<rparr>"
  shows "kmem_only s s2" "freelist s2 = load64 (pmem s) p" "unchanged_off {p} (pmem s) (pmem s2)"
    "\<And>x. in_page p x \<Longrightarrow> pmem s2 x = ucast c" "p \<noteq> 0"
  using unchanged_off_trans [OF fill_off [of p "pmem s" 5] fill_off [of p _ "ucast c"]] assms
  by (auto simp: kalloc_page [OF fp] memset_eq kmem_only_def fill_inside free_pages_def)

lemma upg_less_iff: "j \<le> 2 ^ 26 \<Longrightarrow> upg j < sz \<longleftrightarrow> j < npg sz"
proof -
  assume "j \<le> 2 ^ 26"
  then have "upg j < sz \<longleftrightarrow> Suc j * 4096 \<le> unat sz + 4095"
    by (auto simp: word_less_nat_alt unat_pages)
  then show ?thesis by (simp add: npg_def less_eq_div_iff_mult_less_eq flip: Suc_le_eq)
qed

lemma uvmalloc_loop_aspace:
  fixes newsz xperm :: u64
  defines "N \<equiv> npg newsz" and "perm \<equiv> PTE_R OR PTE_U OR xperm"
  assumes "N \<le> 2 ^ 26" "\<And>x. x \<in> X \<Longrightarrow> N \<le> x" "xperm < 1024"
    and "aspace s pt j X ps" "n \<le> j" "j \<le> N"
  shows "\<exists>r s' rs. uvmalloc_loop s pt (upg n) (upg j) newsz xperm = Ret (r, s') \<and>
    (r = newsz \<and> resized pt X N s j ps s' N rs \<and> (\<forall>i. j \<le> i \<longrightarrow> i < N \<longrightarrow> zero_page s' pt perm i) \<or>
     r = 0 \<and> resized pt X N s j ps s' n rs)"
  using assms(6-)
proof (induction "N - j" arbitrary: j s ps)
  case 0
  then have j: "j = N" by simp
  have "\<not> upg N < newsz" using assms(3) by (simp add: upg_less_iff N_def)
  then show ?case unfolding j uvmalloc_loop.simps [of s] using resized_refl [of s pt N X ps] 0 j by auto
next
  case (Suc d)
  then have jN: "j < N" by simp
  have j26: "j < 2 ^ 26" "j \<notin> X" using jN assms(3) assms(4) [of j] by auto
  have lt: "upg j < newsz" using j26 jN by (simp add: upg_less_iff N_def)
  have dealloc: "\<exists>s' rs. uvmdealloc s1 pt (upg j) (upg n) = Ret (upg n, s') \<and> resized pt X N s1 j qs s' n rs"
    if as1: "aspace s1 pt j X qs" for s1 :: "'z kmem_scheme" and qs
  proof -
    have "upg n \<le> upg j" using Suc.prems(2) j26 by (simp add: word_le_nat_alt unat_pages)
    then obtain s' rs where "uvmdealloc s1 pt (upg j) (upg n) = Ret (upg n, s')" "resized pt X j s1 j qs s' n rs"
      using uvmdealloc_aspace [of s1 pt "upg j" X qs "upg n"] as1 j26 Suc.prems(2) by (auto simp: npg_upg)
    with resized_mono [OF this(2), of N] jN show ?thesis by auto
  qed
  show ?case
  proof (cases ps)
    case Nil
    then have "kalloc s = (0, s)" using Suc.prems(1) by (intro kalloc_empty) (simp add: aspace_def tree_ok_def)
    then show ?thesis using dealloc [OF Suc.prems(1)] lt
      by (auto simp: uvmalloc_loop.simps [of s])
  next
    case (Cons p qs)
    note a = Suc.prems(1) [unfolded Cons]
    have fp: "free_pages s (p # qs)" using a by (simp add: aspace_def tree_ok_def)
    obtain s1 where s1: "kalloc s = (p, s1)" using kalloc_page [OF fp] by blast
    define s2 where "s2 = s1\<lparr>pmem := memset (pmem s1) p 0 (ucast PGSIZE)\<rparr>"
    note f = kalloc_fill [OF fp s1 s2_def]
    note pu = perm_user(1) [OF assms(5), folded perm_def] perm_user(2) [OF assms(5), of p, folded perm_def]
    obtain r s3 where m: "mappages s2 pt (upg j) PGSIZE p perm = Ret (r, s3)"
      and cases: "r = 0 \<and> (\<exists>rs. resized pt X (Suc j) s j (p # qs) s3 (Suc j) rs) \<and>
          pte_of s3 pt (upg j) = PA2PTE p OR perm OR PTE_V \<and> same_on {p} (pmem s2) (pmem s3) \<or>
        r = -1 \<and> (\<exists>s4. kfree s3 p = Ret s4 \<and> resized pt X (Suc j) s j (p # qs) s4 j [p])"
      using aspace_extend [OF a f(1-3) j26 pu] by blast
    have loop: "uvmalloc_loop s pt (upg n) (upg j) newsz xperm =
      (if r \<noteq> 0 then bindr (kfree s3 p) (\<lambda>s4. bindr (uvmdealloc s4 pt (upg j) (upg n)) (\<lambda>(_, s5). Ret (0, s5)))
       else uvmalloc_loop s3 pt (upg n) (upg j + PGSIZE) newsz xperm)"
      unfolding uvmalloc_loop.simps [of s] using lt s1 f(5) m by (simp add: s2_def perm_def)
    show ?thesis
    proof (cases "r = 0")
      case True
      then obtain rs where rs: "resized pt X (Suc j) s j (p # qs) s3 (Suc j) rs"
        and new: "pte_of s3 pt (upg j) = PA2PTE p OR perm OR PTE_V" "same_on {p} (pmem s2) (pmem s3)"
        using cases by auto
      have al: "aligned 12 p" using fp by (simp add: free_pages_def page_ok_def)
      have z: "zero_page s3 pt perm j"
        using new f(4) al unfolding zero_page_def same_on_def by (intro exI [of _ p]) auto
      have "\<exists>r s' rs'. uvmalloc_loop s3 pt (upg n) (upg (Suc j)) newsz xperm = Ret (r, s') \<and>
        (r = newsz \<and> resized pt X N s3 (Suc j) rs s' N rs' \<and> (\<forall>i. Suc j \<le> i \<longrightarrow> i < N \<longrightarrow> zero_page s' pt perm i) \<or>
         r = 0 \<and> resized pt X N s3 (Suc j) rs s' n rs')"
        using Suc.hyps(2) Suc.prems jN rs by (intro Suc.hyps(1)) (auto simp: resized_def)
      then obtain r' s' rs' where IH: "uvmalloc_loop s3 pt (upg n) (upg j + PGSIZE) newsz xperm = Ret (r', s')"
        "r' = newsz \<and> resized pt X N s3 (Suc j) rs s' N rs' \<and> (\<forall>i. Suc j \<le> i \<longrightarrow> i < N \<longrightarrow> zero_page s' pt perm i) \<or>
         r' = 0 \<and> resized pt X N s3 (Suc j) rs s' n rs'"
        by (auto simp: algebra_simps)
      have comp: "resized pt X N s j ps s' k rs'" if "resized pt X N s3 (Suc j) rs s' k rs'" for k
        using resized_trans [OF resized_mono [OF rs] that] jN j26 Cons by simp
      have "zero_page s' pt perm i" if "resized pt X N s3 (Suc j) rs s' N rs'" "j \<le> i" "i < N"
        "\<forall>i. Suc j \<le> i \<longrightarrow> i < N \<longrightarrow> zero_page s' pt perm i" for i
        using zero_page_resized [OF z that(1)] that jN assms(3) pu(1) by (cases "i = j") auto
      then show ?thesis using loop True IH comp by auto
    next
      case False
      then obtain s4 where s4: "kfree s3 p = Ret s4" "resized pt X (Suc j) s j (p # qs) s4 j [p]"
        using cases by blast
      obtain s' rs where s': "uvmdealloc s4 pt (upg j) (upg n) = Ret (upg n, s')" "resized pt X N s4 j [p] s' n rs"
        using dealloc [of s4 "[p]"] s4(2) by (auto simp: resized_def)
      have "resized pt X N s j ps s' n rs"
        using resized_trans [OF resized_mono [OF s4(2)] s'(2)] jN j26 Cons by simp
      then show ?thesis using loop False s4(1) s'(1) by auto
    qed
  qed
qed

section \<open>Copying an address space\<close>

text \<open>Two address spaces over the same free list that share no page.\<close>

definition apart :: "'z kmem_scheme \<Rightarrow> u64 \<Rightarrow> nat \<Rightarrow> nat set \<Rightarrow> u64 \<Rightarrow> nat \<Rightarrow> nat set \<Rightarrow> u64 list \<Rightarrow> bool" where
  "apart s old n X new j Y ps \<longleftrightarrow>
     aspace s old n X ps \<and> aspace s new j Y ps \<and> set (owned s old n) \<inter> set (owned s new j) = {}"

lemma aspace_aligned: "aspace s pt n X ps \<Longrightarrow> p \<in> set (owned s pt n) \<union> set ps \<Longrightarrow> aligned 12 p"
  by (auto simp: aspace_def tree_ok_def free_pages_def owned_def list_all_iff page_ok_def)

lemma aspace_distinct: "aspace s pt n X ps \<Longrightarrow> distinct (owned s pt n @ ps)"
  by (auto simp: aspace_def owned_def)

lemma apart_resized:
  assumes ap: "apart s old n X new j Y ps" and r: "resized new Y hi s j ps s' j' rs"
  shows "apart s' old n X new j' Y rs" "\<And>va. pte_of s' old va = pte_of s old va"
    "same_on (set (owned s old n)) (pmem s) (pmem s')"
proof -
  note a = ap [unfolded apart_def] and r' = r [unfolded resized_def]
  have d: "set (owned s old n) \<inter> set (owned s new j @ ps) = {}"
    using a aspace_distinct [of s old n X ps] by auto
  show same: "same_on (set (owned s old n)) (pmem s) (pmem s')"
    by (rule unchanged_same_on [of "set (owned s new j @ ps)"]) (use r' d a aspace_aligned in \<open>auto dest: aspace_aligned\<close>)
  have "set (owned s' new j' @ rs) = set (owned s new j @ ps)" using r' by (metis set_mset_mset)
  then have d': "set (owned s old n) \<inter> set (owned s' new j') = {}" "set rs \<inter> set (owned s old n) = {}"
    using d by auto
  have fp: "free_pages s' rs" using r' by (simp add: aspace_def tree_ok_def)
  have tb: "same_on (set (tables (pmem s) old 2)) (pmem s) (pmem s')"
    by (rule same_on_mono [OF same]) (simp add: owned_def)
  have asp: "aspace s old n X ps" and ko: "kmem_only s s'" using a r' by auto
  note c = aspace_cong [OF asp ko fp d'(2) tb]
  show "pte_of s' old va = pte_of s old va" for va by (rule c(3))
  show "apart s' old n X new j' Y rs" using c r' d'(1) by (simp add: apart_def)
qed

definition copied :: "'z kmem_scheme \<Rightarrow> u64 \<Rightarrow> u64 \<Rightarrow> nat \<Rightarrow> bool" where
  "copied s old new i \<longleftrightarrow>
     (\<exists>p. aligned 12 p \<and> pte_of s new (upg i) = PA2PTE p OR PTE_FLAGS (pte_of s old (upg i)) OR PTE_V \<and>
       (\<forall>x. in_page p x \<longrightarrow> pmem s x = pmem s (PTE2PA (pte_of s old (upg i)) + (x - p))))"

lemma PTE_FLAGS_less: "PTE_FLAGS e OR PTE_V < 1024"
  unfolding flags_less by (simp add: PTE_FLAGS_def PTE_V_def drop_bit_and)

lemma PTE_FLAGS_set:
  assumes "valid e"
  shows "PTE_FLAGS (PA2PTE p OR PTE_FLAGS e OR PTE_V) = PTE_FLAGS e"
proof -
  have mask: "PTE_FLAGS x = take_bit 10 x" for x
    by (simp add: PTE_FLAGS_def take_bit_eq_mask mask_eq_exp_minus_1)
  have "bit e 0" using assms by (metis PTE_V_def and_one_eq bit_0 even_iff_mod_2_eq_zero)
  then show ?thesis
    unfolding mask by (intro bit_word_eqI) (auto simp: bit_simps PA2PTE_def PTE_V_def)
qed

lemma copied_resized:
  assumes c: "copied s old new i" and ap: "apart s old n X new j Y ps" and r: "resized new Y hi s j ps s' j' rs"
    and i: "i < n" "i < j" "i < j'"
  shows "copied s' old new i"
proof -
  let ?e = "pte_of s old (upg i)"
  obtain p where p: "aligned 12 p" "pte_of s new (upg i) = PA2PTE p OR PTE_FLAGS ?e OR PTE_V"
    "\<And>x. in_page p x \<Longrightarrow> pmem s x = pmem s (PTE2PA ?e + (x - p))"
    using c by (auto simp: copied_def)
  note k = apart_resized [OF ap r]
  have j: "j \<le> 2 ^ 26" "n \<le> 2 ^ 26" using ap by (auto simp: apart_def aspace_def)
  have "PTE2PA (pte_of s new (upg i)) = p" using PTE2PA_PA2PTE [OF p(1) PTE_FLAGS_less] p(2) by simp
  then have "p \<in> set (frames s new 0 (min j j'))" using i by (auto simp: frames_eq)
  then have new: "pmem s' x = pmem s x" if "in_page p x" for x
    using r that unfolding resized_def same_on_def by metis
  have "PTE2PA ?e \<in> set (owned s old n)" using i by (auto simp: owned_def frames_eq)
  then have old: "pmem s' y = pmem s y" if "in_page (PTE2PA ?e) y" for y
    using k(3) that by (metis same_onD)
  have "pte_of s' new (upg i) = pte_of s new (upg i)"
    using r i j pg_pages [of i] upg_below(2) [of i] by (simp add: resized_def)
  moreover have "in_page (PTE2PA ?e) (PTE2PA ?e + (x - p))" if "in_page p x" for x
    using that by (simp add: in_page_def)
  ultimately show ?thesis
    using p new old k(2) unfolding copied_def by (intro exI [of _ p]) auto
qed


lemma kalloc_copy:
  assumes fp: "free_pages s (p # ps)" and "kalloc s = (p, s1)" and pa: "page_ok s pa" "pa \<noteq> p"
    and s3: "s3 = s1\<lparr>pmem := memmove (pmem s1) p pa (ucast PGSIZE)\<rparr>"
  shows "kmem_only s s3" "freelist s3 = load64 (pmem s) p" "unchanged_off {p} (pmem s) (pmem s3)"
    "\<And>x. in_page p x \<Longrightarrow> pmem s3 x = pmem s (pa + (x - p))" "p \<noteq> 0"
proof -
  have p: "page_ok s p" using fp by (simp add: free_pages_def)
  have lt: "unat q + 4096 < 2 ^ 64" if "page_ok s q" for q
    using that PHYSTOP_val by (simp add: page_ok_def word_less_nat_alt)
  have m: "memmove m p pa 4096 = blit m p pa 4096" for m
    using memmove_eq [of pa "4096" p m] lt [OF pa(1)] lt [OF p] by simp
  have s1: "s1 = s\<lparr>pmem := fill (pmem s) p 5 4096, freelist := load64 (pmem s) p\<rparr>"
    using assms(2) by (simp add: kalloc_page [OF fp])
  show "kmem_only s s3" "freelist s3 = load64 (pmem s) p" "p \<noteq> 0"
    using fp by (simp_all add: s3 s1 kmem_only_def free_pages_def)
  show "unchanged_off {p} (pmem s) (pmem s3)"
    by (auto simp: s3 s1 m unchanged_off_def blit_def fill_def in_page_def)
  fix x assume x: "in_page p x"
  then have "in_page pa (pa + (x - p))" by (simp add: in_page_def)
  then have "\<not> in_page p (pa + (x - p))"
    using in_page_unique [of p pa] p pa by (auto simp: page_ok_def)
  then show "pmem s3 x = pmem s (pa + (x - p))"
    using x by (simp add: s3 s1 m blit_def fill_def in_page_def)
qed

lemma walk_present:
  assumes "tree_ok s pt 2 ps" "va < MAXVA" "valid (pte_of s pt va)"
  shows "\<exists>pte. walk s pt va False = Ret (pte, s) \<and> pte \<noteq> 0 \<and> load64 (pmem s) pte = pte_of s pt va"
proof -
  obtain t where t: "descend (pmem s) pt va 2 = Some t"
    using assms(3) leaf_descend [of "pmem s" pt va 2] by (cases "descend (pmem s) pt va 2") auto
  then have "load64 (pmem s) (slot t 0 va) = pte_of s pt va"
    using leaf_descend [of "pmem s" pt va 2] by (simp add: load64_slot)
  with t show ?thesis
    using slot_nonzero [OF assms(1) descend_in_tables [OF t]] by (simp add: walk_below [OF assms(2)] walk_noalloc)
qed

lemma uvmcopy_loop_copies:
  assumes "n = npg sz" "\<And>y. y \<in> Y \<Longrightarrow> n \<le> y"
    and "apart s old n X new j Y ps" "j \<le> n" "\<And>i. i < j \<Longrightarrow> copied s old new i"
  shows "\<exists>r s' rs. uvmcopy_loop s old new (upg j) sz = Ret (r, s') \<and>
    (r = 0 \<and> resized new Y n s j ps s' n rs \<and> (\<forall>i<n. copied s' old new i) \<or>
     r = -1 \<and> resized new Y n s j ps s' 0 rs)"
  using assms(3-)
proof (induction "n - j" arbitrary: j s ps)
  case 0
  then have j: "j = n" by simp
  have n: "n \<le> 2 ^ 26" and a: "aspace s new n Y ps" using "0.prems"(1) j by (auto simp: apart_def aspace_def)
  have "\<not> upg n < sz" using n assms(1) by (simp add: upg_less_iff)
  then have "uvmcopy_loop s old new (upg j) sz = Ret (0, s)" by (simp add: uvmcopy_loop.simps [of s] j)
  then show ?case using resized_refl [OF a] "0.prems"(3) j by auto
next
  case (Suc d)
  then have jn: "j < n" by simp
  have n: "n \<le> 2 ^ 26" and ao: "aspace s old n X ps" and an: "aspace s new j Y ps"
    using Suc.prems(1) by (auto simp: apart_def aspace_def)
  have j26: "j < 2 ^ 26" "j \<notin> Y" using jn n assms(2) [of j] by auto
  have lt: "upg j < sz" using j26 jn assms(1) by (simp add: upg_less_iff)
  have undo: "\<exists>s' rs. uvmunmap s1 new 0 (upg j div PGSIZE) True = Ret s' \<and> resized new Y n s1 j qs s' 0 rs"
    if as1: "aspace s1 new j Y qs" for s1 :: "'a kmem_scheme" and qs
  proof -
    have "unat (upg j div PGSIZE) = j" using j26 by (simp add: unat_div unat_pages unat_PGSIZE)
    then have "upg j div PGSIZE = of_nat j" by (rule unat_eq_of_nat)
    then obtain s' rs where "uvmunmap s1 new 0 (upg j div PGSIZE) True = Ret s'" "resized new Y j s1 j qs s' 0 rs"
      using aspace_unmap [OF as1, of 0] by auto
    with resized_mono [OF this(2), of n] jn show ?thesis by auto
  qed
  let ?e = "pte_of s old (upg j)"
  have e: "valid ?e" "PTE_FLAGS ?e \<noteq> PTE_V" using ao jn by (auto simp: aspace_def present_iff)
  obtain pte where w: "walk s old (upg j) False = Ret (pte, s)" "pte \<noteq> 0" "load64 (pmem s) pte = ?e"
    using walk_present [of s old ps "upg j"] ao upg_below(1) [OF j26(1)] e(1) by (auto simp: aspace_def)
  show ?case
  proof (cases ps)
    case Nil
    then have "kalloc s = (0, s)" using ao by (intro kalloc_empty) (simp add: aspace_def tree_ok_def)
    then show ?thesis using undo [OF an] lt w e(1) by (auto simp: uvmcopy_loop.simps [of s])
  next
    case (Cons p qs)
    note a = an [unfolded Cons]
    have fp: "free_pages s (p # qs)" using a by (simp add: aspace_def tree_ok_def)
    obtain s1 where s1: "kalloc s = (p, s1)" using kalloc_page [OF fp] by blast
    define s3 where "s3 = s1\<lparr>pmem := memmove (pmem s1) p (PTE2PA ?e) (ucast PGSIZE)\<rparr>"
    have pa: "PTE2PA ?e \<in> set (owned s old n)" "PTE2PA ?e \<in> set (frames s old 0 n)"
      using jn by (auto simp: owned_def frames_eq)
    have "page_ok s (PTE2PA ?e)" "PTE2PA ?e \<noteq> p"
      using ao pa Cons aspace_distinct [OF ao] by (auto simp: aspace_def list_all_iff)
    note f = kalloc_copy [OF fp s1 this s3_def]
    have fl: "PTE_FLAGS (PA2PTE p OR PTE_FLAGS ?e OR PTE_V) \<noteq> PTE_V" using e by (simp add: PTE_FLAGS_set)
    obtain r s4 where m: "mappages s3 new (upg j) PGSIZE p (PTE_FLAGS ?e) = Ret (r, s4)"
      and cases: "r = 0 \<and> (\<exists>rs. resized new Y (Suc j) s j (p # qs) s4 (Suc j) rs) \<and>
          pte_of s4 new (upg j) = PA2PTE p OR PTE_FLAGS ?e OR PTE_V \<and> same_on {p} (pmem s3) (pmem s4) \<or>
        r = -1 \<and> (\<exists>s5. kfree s4 p = Ret s5 \<and> resized new Y (Suc j) s j (p # qs) s5 j [p])"
      using aspace_extend [OF a f(1-3) j26 PTE_FLAGS_less fl] by blast
    have loop: "uvmcopy_loop s old new (upg j) sz =
      (if r \<noteq> 0 then bindr (kfree s4 p) (\<lambda>s5. bindr (uvmunmap s5 new 0 (upg j div PGSIZE) True) (\<lambda>s6. Ret (-1, s6)))
       else uvmcopy_loop s4 old new (upg j + PGSIZE) sz)"
      unfolding uvmcopy_loop.simps [of s] using lt w e(1) s1 f(5) m by (simp add: s3_def)
    show ?thesis
    proof (cases "r = 0")
      case True
      then obtain rs where rs: "resized new Y (Suc j) s j (p # qs) s4 (Suc j) rs"
        and new: "pte_of s4 new (upg j) = PA2PTE p OR PTE_FLAGS ?e OR PTE_V" "same_on {p} (pmem s3) (pmem s4)"
        using cases by auto
      note k = apart_resized [OF Suc.prems(1) [unfolded Cons] rs]
      have "pmem s4 x = pmem s4 (PTE2PA ?e + (x - p))" if x: "in_page p x" for x
      proof -
        have "in_page (PTE2PA ?e) (PTE2PA ?e + (x - p))" using x by (simp add: in_page_def)
        then have "pmem s (PTE2PA ?e + (x - p)) = pmem s4 (PTE2PA ?e + (x - p))"
          using same_onD [OF k(3) pa(1)] by blast
        then show ?thesis using same_onD [OF new(2) _ x] f(4) [OF x] by simp
      qed
      then have cj: "copied s4 old new j"
        using new(1) k(2) aspace_aligned [OF a, of p] unfolding copied_def by (intro exI [of _ p]) simp
      have ci: "copied s4 old new i" if "i < Suc j" for i
        using cj copied_resized [OF Suc.prems(3) Suc.prems(1) [unfolded Cons] rs] that jn
        by (cases "i = j") auto
      have "\<exists>r s' rs'. uvmcopy_loop s4 old new (upg (Suc j)) sz = Ret (r, s') \<and>
        (r = 0 \<and> resized new Y n s4 (Suc j) rs s' n rs' \<and> (\<forall>i<n. copied s' old new i) \<or>
         r = -1 \<and> resized new Y n s4 (Suc j) rs s' 0 rs')"
        using Suc.hyps(2) jn ci by (intro Suc.hyps(1) [OF _ k(1)]) auto
      then obtain r' s' rs' where IH: "uvmcopy_loop s4 old new (upg j + PGSIZE) sz = Ret (r', s')"
        "r' = 0 \<and> resized new Y n s4 (Suc j) rs s' n rs' \<and> (\<forall>i<n. copied s' old new i) \<or>
         r' = -1 \<and> resized new Y n s4 (Suc j) rs s' 0 rs'"
        by (auto simp: algebra_simps)
      have "resized new Y n s j ps s' k rs'" if "resized new Y n s4 (Suc j) rs s' k rs'" for k
        using resized_trans [OF resized_mono [OF rs] that] jn n Cons by simp
      then show ?thesis using loop True IH by auto
    next
      case False
      then obtain s5 where s5: "kfree s4 p = Ret s5" "resized new Y (Suc j) s j (p # qs) s5 j [p]"
        using cases by blast
      obtain s' rs where s': "uvmunmap s5 new 0 (upg j div PGSIZE) True = Ret s'" "resized new Y n s5 j [p] s' 0 rs"
        using undo [of s5 "[p]"] s5(2) by (auto simp: resized_def)
      have "resized new Y n s j ps s' 0 rs"
        using resized_trans [OF resized_mono [OF s5(2)] s'(2)] jn j26 Cons by simp
      then show ?thesis using loop False s5(1) s'(1) by auto
    qed
  qed
qed

end
