(* ===== verification/UserCopy.thy ===== *)
theory UserCopy
  imports VmMap
begin

text \<open>
  Transfers between kernel and user memory: \<open>copyout\<close>, \<open>copyin\<close> and \<open>copyinstr\<close> of \<^verbatim>\<open>kernel/vm.c\<close> seen
  through the page table.  They reach exactly the bytes the user itself could write or read, stop at
  the first page it could not, and leave page tables, other address spaces and free pages alone.
\<close>

section \<open>User memory seen through a page table\<close>

definition uva :: "'z kmem_scheme \<Rightarrow> u64 \<Rightarrow> u64 \<Rightarrow> u64" where
  "uva s pt va = PTE2PA (pte_of s pt va) + (va - PGROUNDDOWN va)"

definition ureadable :: "'z kmem_scheme \<Rightarrow> u64 \<Rightarrow> u64 \<Rightarrow> bool" where
  "ureadable s pt va \<longleftrightarrow>
     PGROUNDDOWN va < MAXVA \<and> valid (pte_of s pt va) \<and> pte_of s pt va AND PTE_U \<noteq> 0"

definition uwritable :: "'z kmem_scheme \<Rightarrow> u64 \<Rightarrow> u64 \<Rightarrow> bool" where
  "uwritable s pt va \<longleftrightarrow> ureadable s pt va \<and> pte_of s pt va AND PTE_W \<noteq> 0"

text \<open>An address space whose mappings outside the user pages (trampoline, trapframe) the user cannot access.\<close>

definition uspace :: "'z kmem_scheme \<Rightarrow> u64 \<Rightarrow> nat \<Rightarrow> nat set \<Rightarrow> u64 list \<Rightarrow> bool" where
  "uspace s pt n X ps \<longleftrightarrow>
     aspace s pt n X ps \<and> (\<forall>va. va < 2 ^ 39 \<longrightarrow> pg va \<in> X \<longrightarrow> pte_of s pt va AND PTE_U = 0)"

lemma pg_PGROUNDDOWN: "pg (PGROUNDDOWN va) = pg va"
  by (simp add: pg_def PGROUNDDOWN_unat)

lemma pte_of_pg: "pg va = pg va' \<Longrightarrow> pte_of s pt va = pte_of s pt va'"
proof (rule leaf_ix_cong)
  fix k assume "pg va = pg va'"
  then have "unat va div 4096 div 2 ^ (9 * k) mod 512 = unat va' div 4096 div 2 ^ (9 * k) mod 512"
    by (simp add: pg_def)
  then show "ix k va = ix k va'" by (simp add: ix_eq power_add flip: div_mult2_eq)
qed

lemma pte_of_PGROUNDDOWN: "pte_of s pt (PGROUNDDOWN va) = pte_of s pt va"
  by (rule pte_of_pg) (rule pg_PGROUNDDOWN)

lemma PGROUNDDOWN_pg: "PGROUNDDOWN va = upg (pg va)"
proof (rule unat_eq_of_nat [THEN trans])
  show "unat (PGROUNDDOWN va) = pg va * 4096" by (simp add: PGROUNDDOWN_unat pg_def)
  show "of_nat (pg va * 4096) = upg (pg va)" by (simp add: PGSIZE_def)
qed

lemma ureadable_user:
  assumes "uspace s pt n X ps" "ureadable s pt va"
  shows "pg va < n" "PTE2PA (pte_of s pt va) \<in> set (frames s pt 0 n)"
proof -
  have lt: "PGROUNDDOWN va < 2 ^ 39" using assms(2) by (intro MAXVA_below) (simp add: ureadable_def)
  show "pg va < n"
  proof (rule ccontr)
    assume "\<not> pg va < n"
    then show False
      using assms lt unfolding uspace_def aspace_def ureadable_def
      by (metis not_less pg_PGROUNDDOWN pte_of_PGROUNDDOWN)
  qed
  then show "PTE2PA (pte_of s pt va) \<in> set (frames s pt 0 n)"
    unfolding frames_eq using pte_of_PGROUNDDOWN [of s pt va] by (force simp: PGROUNDDOWN_pg)
qed

lemma frames_inj:
  assumes "uspace s pt n X ps" "ureadable s pt va" "ureadable s pt va'"
    "PTE2PA (pte_of s pt va) = PTE2PA (pte_of s pt va')"
  shows "pg va = pg va'"
proof -
  have d: "distinct (frames s pt 0 n)" using assms(1) by (simp add: uspace_def aspace_def)
  have l: "pg va < n" "pg va' < n" using ureadable_user assms by blast+
  have nth: "frames s pt 0 n ! pg v = PTE2PA (pte_of s pt v)" if "pg v < n" for v
    using that pte_of_PGROUNDDOWN [of s pt v] by (simp add: frames_eq PGROUNDDOWN_pg)
  show ?thesis using d l nth [OF l(1)] nth [OF l(2)] assms(4) by (simp add: distinct_conv_nth frames_eq) metis
qed

lemma uva_in_page: "in_page (PTE2PA (pte_of s pt va)) (uva s pt va)"
  by (simp add: in_page_def uva_def PGROUNDDOWN_offset)

lemma uva_inj:
  assumes u: "uspace s pt n X ps" and r: "ureadable s pt va" "ureadable s pt va'" and eq: "uva s pt va = uva s pt va'"
  shows "va = va'"
proof -
  have al: "aligned 12 (PTE2PA (pte_of s pt v))" if "ureadable s pt v" for v
    using ureadable_user(2) [OF u that] u by (auto simp: uspace_def aspace_def list_all_iff page_ok_def)
  have "PTE2PA (pte_of s pt va) = PTE2PA (pte_of s pt va')"
    using in_page_unique [OF al [OF r(1)] al [OF r(2)] uva_in_page] uva_in_page eq by metis
  moreover have pgs: "pg va = pg va'" by (rule frames_inj [OF u r calculation])
  ultimately have "va - PGROUNDDOWN va = va' - PGROUNDDOWN va'" using eq by (simp add: uva_def)
  moreover have "PGROUNDDOWN va = PGROUNDDOWN va'" using pgs by (simp add: PGROUNDDOWN_pg)
  ultimately show ?thesis by simp
qed

lemma walk_entry:
  assumes "uspace s pt n X ps"
  shows "fst (walk_loop s pt va False 2) \<noteq> 0 \<and> valid (load64 (pmem s) (fst (walk_loop s pt va False 2))) \<longleftrightarrow>
      valid (pte_of s pt va)"
    and "valid (pte_of s pt va) \<Longrightarrow> load64 (pmem s) (fst (walk_loop s pt va False 2)) = pte_of s pt va"
proof -
  have ok: "tree_ok s pt 2 ps" using assms by (simp add: uspace_def aspace_def)
  have "(case descend (pmem s) pt va 2 of None \<Rightarrow> pte_of s pt va = 0 \<and> fst (walk_loop s pt va False 2) = 0
      | Some t \<Rightarrow> fst (walk_loop s pt va False 2) \<noteq> 0 \<and> load64 (pmem s) (fst (walk_loop s pt va False 2)) = pte_of s pt va)"
    using slot_nonzero [OF ok descend_in_tables]
    by (auto simp: walk_noalloc leaf_descend [of _ _ _ 2] load64_slot split: option.splits)
  then show "fst (walk_loop s pt va False 2) \<noteq> 0 \<and> valid (load64 (pmem s) (fst (walk_loop s pt va False 2))) \<longleftrightarrow>
      valid (pte_of s pt va)"
    and "valid (pte_of s pt va) \<Longrightarrow> load64 (pmem s) (fst (walk_loop s pt va False 2)) = pte_of s pt va"
    by (auto split: option.splits)
qed

lemma user_frame_ok:
  assumes "uspace s pt n X ps" "ureadable s pt va"
  shows "page_ok s (PTE2PA (pte_of s pt va))" "PTE2PA (pte_of s pt va) \<noteq> 0"
proof -
  show ok: "page_ok s (PTE2PA (pte_of s pt va))"
    using ureadable_user(2) [OF assms] assms(1) by (auto simp: uspace_def aspace_def list_all_iff)
  have "0 < sym_end s" using assms(1) by (simp add: uspace_def aspace_def tree_ok_def free_pages_def)
  then show "PTE2PA (pte_of s pt va) \<noteq> 0" using ok page_ok_nonzero by blast
qed

lemma walkaddr_readable:
  assumes "uspace s pt n X ps"
  shows "walkaddr s pt (PGROUNDDOWN va) = (if ureadable s pt va then PTE2PA (pte_of s pt va) else 0)"
proof -
  let ?w = "fst (walk_loop s pt (PGROUNDDOWN va) False 2)"
  note e = walk_entry [OF assms, of "PGROUNDDOWN va", unfolded pte_of_PGROUNDDOWN]
  show ?thesis
  proof (cases "MAXVA \<le> PGROUNDDOWN va")
    case True
    then show ?thesis by (simp add: walkaddr_def ureadable_def not_le [symmetric])
  next
    case False
    then show ?thesis
      using e unfolding walkaddr_def ureadable_def Let_def not_le [symmetric]
      by (cases "valid (pte_of s pt va)") auto
  qed
qed

lemma store_bytes_off:
  assumes "unat (a - p) + length bs \<le> 4096"
  shows "unchanged_off {p} m (store_bytes m a bs)"
  unfolding unchanged_off_def
proof (intro allI impI)
  fix x assume "\<forall>q\<in>{p}. \<not> in_page q x"
  then have x: "\<not> unat (x - p) < 4096" by (simp add: in_page_def)
  have "unat (x - p) = (unat (x - a) + unat (a - p)) mod 2 ^ 64"
    using unat_add_eq [of "x - a" "a - p"] by simp
  then have "\<not> unat (x - a) < length bs" using x assms by auto
  then show "store_bytes m a bs x = m x" by (simp add: store_bytes_def)
qed

text \<open>User data can be written without touching the tables.\<close>

lemma uspace_write:
  assumes u: "uspace s pt n X ps" and r: "ureadable s pt va"
    and off: "unchanged_off {PTE2PA (pte_of s pt va)} (pmem s) m"
  shows "uspace (s\<lparr>pmem := m\<rparr>) pt n X ps" "pte_of (s\<lparr>pmem := m\<rparr>) pt v = pte_of s pt v"
proof -
  let ?f = "PTE2PA (pte_of s pt va)" and ?s = "s\<lparr>pmem := m\<rparr>"
  have a: "aspace s pt n X ps" using u by (simp add: uspace_def)
  have fr: "?f \<in> set (frames s pt 0 n)" by (rule ureadable_user(2) [OF u r])
  have d: "?f \<notin> set (tables (pmem s) pt 2)" "?f \<notin> set ps"
    using aspace_distinct [OF a] fr by (auto simp: owned_def)
  have al: "aligned 12 p" if "p \<in> insert ?f (set (owned s pt n) \<union> set ps)" for p
    using aspace_aligned [OF a] that fr by (auto simp: owned_def)
  have same: "same_on qs (pmem s) (pmem ?s)" if "?f \<notin> qs" "qs \<subseteq> set (owned s pt n) \<union> set ps" for qs
  proof -
    have "unchanged_off {?f} (pmem s) (pmem ?s)" using off by simp
    then show ?thesis using that al by (intro unchanged_same_on) auto
  qed
  have tb: "same_on (set (tables (pmem s) pt 2)) (pmem s) (pmem ?s)"
    using d(1) by (intro same) (auto simp: owned_def)
  have ko: "kmem_only s ?s" by (simp add: kmem_only_def)
  have "free_pages s ps" using a by (simp add: aspace_def tree_ok_def)
  then have fp: "free_pages ?s ps"
    using same [of "set ps"] d(2) by (intro free_pages_cong [OF _ _ ko]) auto
  have dj: "set ps \<inter> set (owned s pt n) = {}" using aspace_distinct [OF a] by auto
  note c = aspace_cong [OF a ko fp dj tb]
  show "pte_of ?s pt v = pte_of s pt v" by (rule c(3))
  show "uspace ?s pt n X ps" using c(1,3) u by (simp add: uspace_def)
qed


section \<open>copyout and copyin\<close>

lemma chunk_page:
  assumes "i < chunk va len"
  shows "unat (va + of_nat i) = unat va + i" "pg (va + of_nat i) = pg va"
proof -
  have i: "unat va mod 4096 + i < 4096" using assms by (auto simp: chunk_eq)
  obtain q r where qr: "unat va = 4096 * q + r" "r = unat va mod 4096" "r < 4096"
    by (metis mult_div_mod_eq mod_less_divisor zero_less_numeral)
  have "4096 * q < 2 ^ 64" using unat_less_2p64 [of va] qr(1) by linarith
  then have "q < 2 ^ 52" by simp
  moreover have lt: "unat va + i < 4096 * q + 4096" using i qr by linarith
  ultimately have "unat va + i < 2 ^ 64" by simp
  then show u: "unat (va + of_nat i) = unat va + i" by (simp add: unat_add_eq unat_of_nat mod_add_right_eq)
  show "pg (va + of_nat i) = pg va" 
  proof -
    have "(unat va + i) div 4096 = q" "unat va div 4096 = q"
      using lt qr(1,3) by (intro div_nat_eqI; simp)+
    then show ?thesis by (simp add: pg_def u)
  qed
qed

lemma uva_chunk:
  assumes "i < chunk va len"
  shows "uva s pt (va + of_nat i) = uva s pt va + of_nat i"
proof -
  note c = chunk_page [OF assms]
  have "PGROUNDDOWN (va + of_nat i) = PGROUNDDOWN va" using c(2) by (simp add: PGROUNDDOWN_pg)
  then show ?thesis using pte_of_pg [OF c(2), of s pt] by (simp add: uva_def)
qed

lemma access_chunk:
  assumes "i < chunk va len"
  shows "ureadable s pt (va + of_nat i) = ureadable s pt va" "uwritable s pt (va + of_nat i) = uwritable s pt va"
  using chunk_page(2) [OF assms] pte_of_pg [OF chunk_page(2) [OF assms], of s pt]
  by (simp_all add: uwritable_def ureadable_def PGROUNDDOWN_pg)

lemma chunk_next: "chunk va len < len \<Longrightarrow> PGROUNDDOWN va + PGSIZE = va + of_nat (chunk va len)"
proof -
  assume "chunk va len < len"
  then have c: "chunk va len = 4096 - unat va mod 4096" by (simp add: chunk_eq split: if_splits)
  have "va - PGROUNDDOWN va = of_nat (unat va mod 4096)" by (rule unat_eq_of_nat) (rule PGROUNDDOWN_offset)
  then have "PGROUNDDOWN va = va - of_nat (unat va mod 4096)" by (simp add: algebra_simps)
  then show ?thesis unfolding c by (simp add: of_nat_diff less_imp_le PGSIZE_def del: unat_mod)
qed

text \<open>The bytes \<open>bs\<close> were stored at the user address \<open>va\<close>, and nothing else changed.\<close>

definition wrote :: "'z kmem_scheme \<Rightarrow> u64 \<Rightarrow> u64 \<Rightarrow> u8 list \<Rightarrow> 'z kmem_scheme \<Rightarrow> bool" where
  "wrote s pt va bs s' \<longleftrightarrow>
     s' = s\<lparr>pmem := pmem s'\<rparr> \<and>
     (\<forall>i<length bs. uwritable s pt (va + of_nat i) \<and> pmem s' (uva s pt (va + of_nat i)) = bs ! i) \<and>
     (\<forall>x. (\<forall>i<length bs. x \<noteq> uva s pt (va + of_nat i)) \<longrightarrow> pmem s' x = pmem s x)"

lemma wrote_chunk:
  assumes "uwritable s pt va" "bs = take (chunk va (length src)) src"
    "s' = s\<lparr>pmem := store_bytes (pmem s) (uva s pt va) bs\<rparr>"
  shows "wrote s pt va bs s'"
proof -
  have len: "length bs = chunk va (length src)" using assms(2) chunk_le [of va "length src"] by simp
  have c: "i < chunk va (length src)" "i < 2 ^ 64" if "i < length bs" for i
    using that len by (auto simp: chunk_eq)
  have "unat (of_nat i :: u64) = i" if "i < length bs" for i using c(2) [OF that] by (simp add: unat_of_nat)
  then have "pmem s' (uva s pt (va + of_nat i)) = bs ! i" if "i < length bs" for i
    using that uva_chunk [OF c(1) [OF that], of s pt] by (simp add: assms(3) store_bytes_def)
  moreover have "pmem s' x = pmem s x" if x: "\<forall>i<length bs. x \<noteq> uva s pt (va + of_nat i)" for x
  proof -
    have "\<not> unat (x - uva s pt va) < length bs"
    proof
      assume lt: "unat (x - uva s pt va) < length bs"
      then have "x = uva s pt va + of_nat (unat (x - uva s pt va))"
        using eq_offset_iff [of "unat (x - uva s pt va)" x "uva s pt va"] unat_less_2p64 by blast
      then show False using x lt uva_chunk [OF c(1) [OF lt], of s pt] by metis
    qed
    then show ?thesis by (simp add: assms(3) store_bytes_def)
  qed
  ultimately show ?thesis using access_chunk(2) [OF c(1), where s = s and pt = pt] assms(1)
    by (simp add: wrote_def assms(3))
qed

lemma mem_only_trans: "s1 = s\<lparr>pmem := m1\<rparr> \<Longrightarrow> s' = s1\<lparr>pmem := m'\<rparr> \<Longrightarrow> s' = s\<lparr>pmem := m'\<rparr>"
  by simp

lemma wrote_append:
  assumes u: "uspace s pt n X ps" and w1: "wrote s pt va bs s1" and w2: "wrote s1 pt va1 bs1 s'"
    and pte: "\<And>v. pte_of s1 pt v = pte_of s pt v" and nxt: "bs1 = [] \<or> va1 = va + of_nat (length bs)"
    and len: "length (bs @ bs1) < 2 ^ 64"
  shows "wrote s pt va (bs @ bs1) s'"
proof (cases "bs1 = []")
  case True
  then have "pmem s' = pmem s1" using w2 by (auto simp: wrote_def)
  moreover have "s' = s1\<lparr>pmem := pmem s'\<rparr>" using w2 unfolding wrote_def by blast
  ultimately have "s' = s1" by simp
  then show ?thesis using w1 True by simp
next
  case False
  then have va1: "va1 = va + of_nat (length bs)" using nxt by simp
  have eqs: "uva s1 pt = uva s pt" "uwritable s1 pt = uwritable s pt"
    using pte by (auto simp: fun_eq_iff uva_def uwritable_def ureadable_def)
  note 1 = w1 [unfolded wrote_def] and 2 = w2 [unfolded wrote_def eqs]
  have wr: "uwritable s pt (va + of_nat i)" if "i < length (bs @ bs1)" for i
  proof (cases "i < length bs")
    case False
    then have "va + of_nat i = va1 + of_nat (i - length bs)" by (simp add: va1)
    then show ?thesis using 2 False that by (metis add_diff_inverse_nat length_append nat_add_left_cancel_less)
  qed (use 1 in simp)
  have val: "pmem s' (uva s pt (va + of_nat i)) = (bs @ bs1) ! i" if i: "i < length (bs @ bs1)" for i
  proof (cases "i < length bs")
    case True
    have "uva s pt (va + of_nat i) \<noteq> uva s pt (va1 + of_nat j)" if j: "j < length bs1" for j
    proof
      assume "uva s pt (va + of_nat i) = uva s pt (va1 + of_nat j)"
      then have "va + of_nat i = va1 + of_nat j"
        using uva_inj [OF u] wr [OF i] 2 j by (simp add: uwritable_def)
      then have "(of_nat i :: u64) = of_nat (length bs + j)" by (simp add: va1)
      then have "i = length bs + j"
        using len i j by (simp add: word_unat_eq_iff unat_of_nat del: of_nat_add)
      then show False using True by simp
    qed
    then show ?thesis using 1 2 True by (simp add: nth_append)
  next
    case False
    then have eq: "va + of_nat i = va1 + of_nat (i - length bs)" by (simp add: va1)
    have "i - length bs < length bs1" using False i by simp
    then show ?thesis unfolding eq using 2 False by (simp add: nth_append del: of_nat_diff)
  qed
  have "pmem s' x = pmem s x" if "\<forall>i<length (bs @ bs1). x \<noteq> uva s pt (va + of_nat i)" for x
  proof -
    have "x \<noteq> uva s pt (va1 + of_nat j)" if "j < length bs1" for j
      using that \<open>\<forall>i<length (bs @ bs1). x \<noteq> uva s pt (va + of_nat i)\<close> [rule_format, of "length bs + j"]
      by (simp add: va1 add.assoc)
    then show ?thesis using 1 2 that by simp
  qed
  moreover have "s' = s\<lparr>pmem := pmem s'\<rparr>"
    by (rule mem_only_trans [of s1 "pmem s1" s]) (use 1 2 in blast)+
  ultimately show ?thesis using wr val unfolding wrote_def by blast
qed


lemma copyout_chunk:
  assumes u: "uspace s pt n X ps" and "src \<noteq> []"
    and c: "c = chunk va (length src)" and s1: "s1 = s\<lparr>pmem := store_bytes (pmem s) (uva s pt va) (take c src)\<rparr>"
  shows "copyout s pt va src =
    (if uwritable s pt va then copyout s1 pt (PGROUNDDOWN va + PGSIZE) (drop c src) else (-1, s))"
proof (cases "MAXVA \<le> PGROUNDDOWN va")
  case True
  then show ?thesis using assms(2)
    by (simp add: copyout.simps [of s] uwritable_def ureadable_def not_le [symmetric])
next
  case False
  let ?w = "fst (walk_loop s pt (PGROUNDDOWN va) False 2)"
  note e = walk_entry [OF u, of "PGROUNDDOWN va", unfolded pte_of_PGROUNDDOWN]
  show ?thesis
  proof (cases "valid (pte_of s pt va)")
    case True
    then have nz: "?w \<noteq> 0" and ld: "load64 (pmem s) ?w = pte_of s pt va" using e by auto
    have "uva s pt va = PTE2PA (pte_of s pt va) + (va - PGROUNDDOWN va)" by (simp add: uva_def)
    then show ?thesis
      using False True assms(2) nz c s1 unfolding copyout.simps [of s pt va src] Let_def ld
      by (auto simp: uwritable_def ureadable_def not_le)
  next
    case inv: False
    then have "?w = 0 \<or> load64 (pmem s) ?w AND PTE_V = 0" using e(1) by auto
    then show ?thesis using False inv assms(2) unfolding copyout.simps [of s pt va src] Let_def
      by (auto simp: uwritable_def ureadable_def)
  qed
qed

lemma copyout_spec:
  assumes "uspace s pt n X ps" "length src < 2 ^ 64" "copyout s pt va src = (r, s')"
  shows "\<exists>k\<le>length src. wrote s pt va (take k src) s' \<and> uspace s' pt n X ps \<and> (\<forall>v. pte_of s' pt v = pte_of s pt v) \<and>
    (r = 0 \<and> k = length src \<or> r = -1 \<and> k < length src \<and> \<not> uwritable s pt (va + of_nat k))"
  using assms
proof (induction "length src" arbitrary: s va src rule: less_induct)
  case less
  show ?case
  proof (cases "src = []")
    case True
    then have "r = 0" "s' = s" using less.prems(3) by (simp_all add: copyout.simps [of s])
    then show ?thesis using True less.prems(1) by (simp add: wrote_def)
  next
    case ne: False
    define c where "c = chunk va (length src)"
    define bs where "bs = take c src"
    define s1 where "s1 = s\<lparr>pmem := store_bytes (pmem s) (uva s pt va) bs\<rparr>"
    note step = copyout_chunk [OF less.prems(1) ne c_def s1_def [unfolded bs_def]]
    show ?thesis
    proof (cases "uwritable s pt va")
      case False
      then have "r = -1" "s' = s" using less.prems(3) step by simp_all
      then show ?thesis using False ne less.prems(1) by (intro exI [of _ 0]) (simp add: wrote_def)
    next
      case wr: True
      have c: "0 < c" "c \<le> length src" using ne by (simp_all add: c_def chunk_pos chunk_le)
      have w1: "wrote s pt va bs s1" using wr by (intro wrote_chunk) (simp_all add: bs_def c_def s1_def)
      have "unchanged_off {PTE2PA (pte_of s pt va)} (pmem s) (store_bytes (pmem s) (uva s pt va) bs)"
        using c by (intro store_bytes_off) (simp add: uva_def PGROUNDDOWN_offset bs_def c_def chunk_eq)
      note k = uspace_write [OF less.prems(1) _ this, folded s1_def]
      have u1: "uspace s1 pt n X ps" and pte: "\<And>v. pte_of s1 pt v = pte_of s pt v"
        using k wr by (simp_all add: uwritable_def)
      have co: "copyout s1 pt (PGROUNDDOWN va + PGSIZE) (drop c src) = (r, s')" using less.prems(3) step wr by simp
      have len: "length (drop c src) < length src" "length (drop c src) < 2 ^ 64" using c less.prems(2) by auto
      obtain k where k: "k \<le> length (drop c src)" "wrote s1 pt (PGROUNDDOWN va + PGSIZE) (take k (drop c src)) s'"
        "uspace s' pt n X ps" "\<forall>v. pte_of s' pt v = pte_of s1 pt v"
        "r = 0 \<and> k = length (drop c src) \<or> r = -1 \<and> k < length (drop c src) \<and> \<not> uwritable s1 pt (PGROUNDDOWN va + PGSIZE + of_nat k)"
        using less.hyps [OF len(1) u1 len(2) co] by blast
      have nxt: "PGROUNDDOWN va + PGSIZE = va + of_nat c" if "c < length src"
        using chunk_next [of va "length src"] that by (simp add: c_def)
      have "wrote s pt va (bs @ take k (drop c src)) s'"
      proof (rule wrote_append [OF less.prems(1) w1 k(2) pte])
        show "take k (drop c src) = [] \<or> PGROUNDDOWN va + PGSIZE = va + of_nat (length bs)"
          using nxt c by (cases "c < length src") (auto simp: bs_def)
        show "length (bs @ take k (drop c src)) < 2 ^ 64" using c k(1) less.prems(2) by (simp add: bs_def)
      qed
      moreover have "bs @ take k (drop c src) = take (c + k) src" by (simp add: bs_def take_add)
      moreover have "r = 0 \<and> c + k = length src \<or> r = -1 \<and> c + k < length src \<and> \<not> uwritable s pt (va + of_nat (c + k))"
      proof (cases "c < length src")
        case True
        have "uwritable s1 pt = uwritable s pt"
          using pte by (simp add: fun_eq_iff uwritable_def ureadable_def)
        then show ?thesis using k(5) c nxt [OF True] by (auto simp: add.assoc)
      qed (use k(5) c in auto)
      ultimately show ?thesis
        using k(1,3,4) c pte by (intro exI [of _ "c + k"]) simp
    qed
  qed
qed

text \<open>The \<open>k\<close> bytes of user memory at \<open>va\<close>.\<close>

definition ubytes :: "'z kmem_scheme \<Rightarrow> u64 \<Rightarrow> u64 \<Rightarrow> nat \<Rightarrow> u8 list" where
  "ubytes s pt va k = map (\<lambda>i. pmem s (uva s pt (va + of_nat i))) [0..<k]"

lemma ubytes_append: "ubytes s pt va (m + k) = ubytes s pt va m @ ubytes s pt (va + of_nat m) k"
proof -
  have "[m..<m + k] = map (\<lambda>i. m + i) [0..<k]" by (induction k) auto
  then show ?thesis unfolding ubytes_def by (simp add: upt_add_eq_append [of 0] add.assoc del: upt_Suc)
qed

lemma bytes_nth: "bytes m a n = map (\<lambda>i. m (a + of_nat i)) [0..<n]"
proof (induction n arbitrary: a)
  case (Suc n)
  have "[0..<Suc n] = 0 # map Suc [0..<n]" by (simp add: map_Suc_upt upt_conv_Cons)
  then show ?case by (simp add: Suc.IH o_def add.assoc)
qed simp

lemma ubytes_chunk:
  assumes "c \<le> chunk va len"
  shows "bytes (pmem s) (uva s pt va) c = ubytes s pt va c"
  unfolding ubytes_def bytes_nth
proof (intro map_cong refl)
  fix i assume "i \<in> set [0..<c]"
  then have "i < chunk va len" using assms by simp
  then show "pmem s (uva s pt va + of_nat i) = pmem s (uva s pt (va + of_nat i))" by (simp add: uva_chunk)
qed

lemma copyin_chunk:
  assumes u: "uspace s pt n X ps" and "0 < len" and c: "c = chunk va len"
  shows "copyin s pt va len =
    (if ureadable s pt va
     then let (r, rest) = copyin s pt (PGROUNDDOWN va + PGSIZE) (len - c) in (r, ubytes s pt va c @ rest)
     else (-1, []))"
proof -
  have b: "bytes (pmem s) (PTE2PA (pte_of s pt va) + (va - PGROUNDDOWN va)) c = ubytes s pt va c"
    using ubytes_chunk [of c va len s pt] c by (simp add: uva_def)
  show ?thesis
    using assms(2) user_frame_ok(2) [OF u, of va] b c
    unfolding copyin.simps [of s pt va len] Let_def walkaddr_readable [OF u] by auto
qed

lemma copyin_spec:
  assumes u: "uspace s pt n X ps" and "copyin s pt va len = (r, bs)"
  shows "\<exists>k\<le>len. bs = ubytes s pt va k \<and> (\<forall>i<k. ureadable s pt (va + of_nat i)) \<and>
    (r = 0 \<and> k = len \<or> r = -1 \<and> k < len \<and> \<not> ureadable s pt (va + of_nat k))"
  using assms(2)
proof (induction len arbitrary: va bs rule: less_induct)
  case (less len)
  show ?case
  proof (cases "len = 0")
    case True
    then show ?thesis using less.prems by (simp add: copyin.simps [of s] ubytes_def)
  next
    case False
    define c where "c = chunk va len"
    have c: "0 < c" "c \<le> len" using False by (simp_all add: c_def chunk_pos chunk_le)
    note step = copyin_chunk [OF u _ c_def]
    show ?thesis
    proof (cases "ureadable s pt va")
      case nr: False
      then have "r = -1" "bs = []" using less.prems step False by simp_all
      then show ?thesis using nr False by (intro exI [of _ 0]) (simp add: ubytes_def)
    next
      case True
      obtain rest where co: "copyin s pt (PGROUNDDOWN va + PGSIZE) (len - c) = (r, rest)" and bs: "bs = ubytes s pt va c @ rest"
        using less.prems step False True by (auto split: prod.splits)
      have lt: "len - c < len" using c by simp
      obtain k where k: "k \<le> len - c" "rest = ubytes s pt (PGROUNDDOWN va + PGSIZE) k"
        "\<forall>i<k. ureadable s pt (PGROUNDDOWN va + PGSIZE + of_nat i)"
        "r = 0 \<and> k = len - c \<or> r = -1 \<and> k < len - c \<and> \<not> ureadable s pt (PGROUNDDOWN va + PGSIZE + of_nat k)"
        using less.IH [OF lt co] by blast
      have first: "ureadable s pt (va + of_nat i)" if "i < c" for i
        using access_chunk(1) [of i va len s pt] that True by (simp add: c_def)
      show ?thesis
      proof (cases "c < len")
        case True
        then have nxt: "PGROUNDDOWN va + PGSIZE = va + of_nat c" using chunk_next [of va len] by (simp add: c_def)
        have "ureadable s pt (va + of_nat i)" if "i < c + k" for i
        proof (cases "i < c")
          case False
          then have "va + of_nat i = va + of_nat c + of_nat (i - c)" by simp
          moreover have "i - c < k" using False that by simp
          ultimately show ?thesis using k(3) unfolding nxt by (metis add.assoc)
        qed (rule first)
        then show ?thesis
          using k c bs unfolding nxt ubytes_append by (intro exI [of _ "c + k"]) (auto simp: add.assoc ubytes_append)
      next
        case False
        then show ?thesis using k c bs first by (intro exI [of _ c]) (auto simp: ubytes_def)
      qed
    qed
  qed
qed

lemma wrote_ubytes: "wrote s pt va bs s' \<Longrightarrow> (\<And>v. pte_of s' pt v = pte_of s pt v) \<Longrightarrow> ubytes s' pt va (length bs) = bs"
  by (rule nth_equalityI) (simp_all add: ubytes_def wrote_def uva_def)

lemma copyinstr_page_spec:
  "copyinstr_page m p n = (g, bs) \<Longrightarrow>
    \<exists>k\<le>n. bs = bytes m p k \<and> (if g then 0 < k \<and> m (p + of_nat (k - 1)) = 0 \<and> (\<forall>i<k - 1. m (p + of_nat i) \<noteq> 0)
      else k = n \<and> (\<forall>i<k. m (p + of_nat i) \<noteq> 0))"
proof (induction n arbitrary: p g bs)
  case (Suc n)
  show ?case
  proof (cases "m p = 0")
    case True
    then show ?thesis using Suc.prems by (intro exI [of _ 1]) simp
  next
    case False
    obtain bs' where rec: "copyinstr_page m (p + 1) n = (g, bs')" and bs: "bs = m p # bs'"
      using Suc.prems False by (auto split: prod.splits)
    obtain k where k: "k \<le> n" "bs' = bytes m (p + 1) k"
      "if g then 0 < k \<and> m (p + 1 + of_nat (k - 1)) = 0 \<and> (\<forall>i<k - 1. m (p + 1 + of_nat i) \<noteq> 0)
       else k = n \<and> (\<forall>i<k. m (p + 1 + of_nat i) \<noteq> 0)"
      using Suc.IH [OF rec] by blast
    have shift: "(\<forall>i<Suc j. m (p + of_nat i) \<noteq> 0) \<longleftrightarrow> (\<forall>i<j. m (p + 1 + of_nat i) \<noteq> 0)" for j
      using False unfolding All_less_Suc2 by (simp add: algebra_simps)
    show ?thesis
    proof (cases g)
      case True
      then obtain j where j: "k = Suc j" using k(3) by (cases k) auto
      then show ?thesis
        using k bs True shift [of j] by (intro exI [of _ "Suc k"]) (simp add: algebra_simps)
    next
      case False
      then show ?thesis using k bs shift [of k] by (intro exI [of _ "Suc k"]) simp
    qed
  qed
qed simp

text \<open>User memory holds a string of \<open>k\<close> bytes at \<open>va\<close>, all readable and none of them NUL.\<close>

definition ustring :: "'z kmem_scheme \<Rightarrow> u64 \<Rightarrow> u64 \<Rightarrow> nat \<Rightarrow> bool" where
  "ustring s pt va k \<longleftrightarrow> (\<forall>i<k. ureadable s pt (va + of_nat i) \<and> pmem s (uva s pt (va + of_nat i)) \<noteq> 0)"

lemma ustring_append: "ustring s pt va m \<Longrightarrow> ustring s pt (va + of_nat m) k \<Longrightarrow> ustring s pt va (m + k)"
  unfolding ustring_def
proof (intro allI impI)
  fix i assume 1: "\<forall>i<m. ureadable s pt (va + of_nat i) \<and> pmem s (uva s pt (va + of_nat i)) \<noteq> 0"
    and 2: "\<forall>i<k. ureadable s pt (va + of_nat m + of_nat i) \<and> pmem s (uva s pt (va + of_nat m + of_nat i)) \<noteq> 0"
    and i: "i < m + k"
  show "ureadable s pt (va + of_nat i) \<and> pmem s (uva s pt (va + of_nat i)) \<noteq> 0"
  proof (cases "i < m")
    case False
    then have "va + of_nat i = va + of_nat m + of_nat (i - m)" by simp
    moreover have "i - m < k" using False i by simp
    ultimately show ?thesis using 2 by metis
  qed (use 1 in simp)
qed

lemma copyinstr_spec:
  assumes u: "uspace s pt n X ps" and "copyinstr s pt va mx = (r, bs)"
  shows "\<exists>k\<le>mx. ustring s pt va k \<and>
    (r = 0 \<and> k < mx \<and> bs = ubytes s pt va (Suc k) \<and> ureadable s pt (va + of_nat k) \<and> pmem s (uva s pt (va + of_nat k)) = 0 \<or>
     r = -1 \<and> bs = ubytes s pt va k \<and> (k = mx \<or> \<not> ureadable s pt (va + of_nat k)))"
  using assms(2)
proof (induction mx arbitrary: va bs rule: less_induct)
  case (less mx)
  show ?case
  proof (cases "mx = 0 \<or> \<not> ureadable s pt va")
    case True
    then have "r = -1" "bs = []"
      using less.prems by (auto simp: copyinstr.simps [of s] Let_def walkaddr_readable [OF u] split: if_splits)
    then show ?thesis using True by (intro exI [of _ 0]) (auto simp: ubytes_def ustring_def)
  next
    case False
    define c where "c = chunk va mx"
    have c: "0 < c" "c \<le> mx" using False by (simp_all add: c_def chunk_pos chunk_le)
    obtain g bs1 where pg1: "copyinstr_page (pmem s) (uva s pt va) c = (g, bs1)" by fastforce
    obtain k where k: "k \<le> c" "bs1 = bytes (pmem s) (uva s pt va) k"
      "if g then 0 < k \<and> pmem s (uva s pt va + of_nat (k - 1)) = 0 \<and> (\<forall>i<k - 1. pmem s (uva s pt va + of_nat i) \<noteq> 0)
       else k = c \<and> (\<forall>i<k. pmem s (uva s pt va + of_nat i) \<noteq> 0)"
      using copyinstr_page_spec [OF pg1] by blast
    have b1: "bs1 = ubytes s pt va k" using k(1,2) ubytes_chunk [of k va mx s pt] by (simp add: c_def)
    have ch: "ureadable s pt (va + of_nat i)" "uva s pt (va + of_nat i) = uva s pt va + of_nat i" if "i < c" for i
      using that False access_chunk(1) [of i va mx s pt] uva_chunk [of i va mx s pt] by (simp_all add: c_def)
    have step: "copyinstr s pt va mx = (if g then (0, bs1) else
        let (r, rest) = copyinstr s pt (PGROUNDDOWN va + PGSIZE) (mx - c) in (r, bs1 @ rest))"
      using False user_frame_ok(2) [OF u, of va] pg1
      unfolding copyinstr.simps [of s pt va mx] Let_def walkaddr_readable [OF u]
      by (auto simp: uva_def c_def)
    show ?thesis
    proof (cases g)
      case True
      then obtain j where j: "k = Suc j" using k(3) by (cases k) auto
      then show ?thesis
        using True less.prems step k b1 ch c by (intro exI [of _ j]) (auto simp: ustring_def)
    next
      case notg: False
      then have kc: "k = c" and us: "ustring s pt va c" using k ch by (auto simp: ustring_def)
      obtain rest where co: "copyinstr s pt (PGROUNDDOWN va + PGSIZE) (mx - c) = (r, rest)" and bs: "bs = bs1 @ rest"
        using less.prems step notg by (auto split: prod.splits)
      show ?thesis
      proof (cases "c < mx")
        case True
        then have nxt: "PGROUNDDOWN va + PGSIZE = va + of_nat c" using chunk_next [of va mx] by (simp add: c_def)
        have lt: "mx - c < mx" using c by simp
        obtain j where j: "j \<le> mx - c" "ustring s pt (va + of_nat c) j"
          "r = 0 \<and> j < mx - c \<and> rest = ubytes s pt (va + of_nat c) (Suc j) \<and> ureadable s pt (va + of_nat c + of_nat j) \<and>
              pmem s (uva s pt (va + of_nat c + of_nat j)) = 0 \<or>
           r = -1 \<and> rest = ubytes s pt (va + of_nat c) j \<and> (j = mx - c \<or> \<not> ureadable s pt (va + of_nat c + of_nat j))"
          using less.IH [OF lt co [unfolded nxt]] by blast
        show ?thesis
          using j ustring_append [OF us j(2)] c bs b1 kc ubytes_append [of s pt va c j] ubytes_append [of s pt va c "Suc j"]
          by (intro exI [of _ "c + j"]) (auto simp: add.assoc)
      next
        case False
        then have "r = -1" "rest = []" using co c by (simp_all add: copyinstr.simps [of s])
        then show ?thesis using False us bs b1 kc c by (intro exI [of _ c]) auto
      qed
    qed
  qed
qed

lemma wrote_writable: "wrote s pt va bs s' \<Longrightarrow> i < length bs \<Longrightarrow> uwritable s pt (va + of_nat i)"
  unfolding wrote_def by blast

lemma wrote_elsewhere: "wrote s pt va bs s' \<Longrightarrow> pmem s' x \<noteq> pmem s x \<Longrightarrow> \<exists>i<length bs. x = uva s pt (va + of_nat i)"
  unfolding wrote_def by metis

lemma copyout_result:
  assumes "uspace s pt n X ps" "length src < 2 ^ 64" "copyout s pt va src = (r, s')"
  shows "r = 0 \<longleftrightarrow> (\<forall>i<length src. uwritable s pt (va + of_nat i))"
proof -
  obtain k where k: "k \<le> length src" "wrote s pt va (take k src) s'"
    "r = 0 \<and> k = length src \<or> r = -1 \<and> k < length src \<and> \<not> uwritable s pt (va + of_nat k)"
    using copyout_spec [OF assms] by blast
  have "\<forall>i<k. uwritable s pt (va + of_nat i)" using k(1) wrote_writable [OF k(2)] by simp
  then show ?thesis using k(3) by auto
qed

section \<open>User memory, a byte at a time\<close>

lemma range_mem: "pmem s' = pmem s \<Longrightarrow> frames s' pt a n = frames s pt a n \<and> present s' pt a n = present s pt a n"
  by (induction n arbitrary: a) simp_all

lemma uspace_cong:
  "pmem s' = pmem s \<Longrightarrow> freelist s' = freelist s \<Longrightarrow> sym_end s' = sym_end s \<Longrightarrow> uspace s' pt n X ps = uspace s pt n X ps"
  by (simp add: uspace_def aspace_def tree_ok_def free_pages_def page_ok_def [abs_def] range_mem [of s' s])

lemma copyin_byte:
  assumes "uspace s pt m X ps" "ureadable s pt va"
  shows "copyin s pt va 1 = (0, [pmem s (uva s pt va)])"
proof -
  obtain r bs where c: "copyin s pt va 1 = (r, bs)" by fastforce
  then obtain k where "k \<le> 1" "bs = ubytes s pt va k" "r = 0 \<and> k = 1 \<or> r = -1 \<and> k < 1 \<and> \<not> ureadable s pt (va + of_nat k)"
    using copyin_spec [OF assms(1) c] by blast
  then show ?thesis using c assms(2) by (auto simp: ubytes_def)
qed

lemma ubytes_Suc: "ubytes s pt va (Suc k) = pmem s (uva s pt va) # ubytes s pt (va + 1) k"
  using ubytes_append [of s pt va 1 k] by (simp add: ubytes_def)

lemma copyout_byte:
  assumes "uspace s pt m X ps" "uwritable s pt va"
  shows "\<exists>s'. copyout s pt va [c] = (0, s') \<and> wrote s pt va [c] s' \<and> uspace s' pt m X ps \<and> (\<forall>v. pte_of s' pt v = pte_of s pt v)"
proof -
  obtain r s' where c: "copyout s pt va [c] = (r, s')" by fastforce
  then obtain k where "k \<le> 1" "wrote s pt va (take k [c]) s'" "uspace s' pt m X ps" "\<forall>v. pte_of s' pt v = pte_of s pt v"
      "r = 0 \<and> k = 1 \<or> r = -1 \<and> k < 1 \<and> \<not> uwritable s pt (va + of_nat k)"
    using copyout_spec [OF assms(1) _ c] by auto
  then show ?thesis using c assms(2) by auto
qed

lemma copyout_byte_fails:
  assumes "uspace s pt m X ps" "\<not> uwritable s pt va"
  shows "\<exists>s'. copyout s pt va [c] = (-1, s') \<and> wrote s pt va [] s' \<and> uspace s' pt m X ps \<and> (\<forall>v. pte_of s' pt v = pte_of s pt v)"
proof -
  obtain r s' where c: "copyout s pt va [c] = (r, s')" by fastforce
  then obtain k where k: "k \<le> 1" "wrote s pt va (take k [c]) s'" "uspace s' pt m X ps" "\<forall>v. pte_of s' pt v = pte_of s pt v"
      "r = 0 \<and> k = 1 \<or> r = -1 \<and> k < 1 \<and> \<not> uwritable s pt (va + of_nat k)"
    using copyout_spec [OF assms(1) _ c] by auto
  have "k = 0" using k(1) wrote_writable [OF k(2), of 0] assms(2) by (cases k) auto
  then show ?thesis using c k by auto
qed

end
