(* ===== verification/VmProps.thy ===== *)
theory VmProps
  imports UserCopy
begin

text \<open>
  The properties of virtual memory that the rest of the kernel relies on, and a small address space on
  which they are evaluated.
\<close>

section \<open>A small address space\<close>

text \<open>A process with one page of user memory, the three tables that map it, and no other page in use.\<close>

definition page0_pte :: u64 where "page0_pte = PA2PTE 0x80103000 OR (PTE_W OR PTE_R OR PTE_X OR PTE_U) OR PTE_V"

definition one_page_mem :: mem where
  "one_page_mem = store64 (store64 (store64 (\<lambda>_. 0) 0x80100000 (PA2PTE 0x80101000 OR PTE_V))
     0x80101000 (PA2PTE 0x80102000 OR PTE_V)) 0x80102000 page0_pte"

definition one_page :: kmem where
  "one_page = \<lparr>pmem = one_page_mem, freelist = 0, sym_end = 0x80022000, sym_etext = 0x80008000,
     sym_trampoline = 0x80007000\<rparr>"

lemma load64_zero: "load64 (\<lambda>_. 0) a = 0"
  by (rule bit_word_eqI) (simp add: bit_load64)

lemma load64_store64: "aligned 3 a \<Longrightarrow> aligned 3 b \<Longrightarrow> load64 (store64 m a v) b = (if a = b then v else load64 m b)"
  using load64_store64_other by auto

lemma eaddr_eq_iff:
  assumes "aligned 12 p" "aligned 12 q" "j < 512"
  shows "q = eaddr p j \<longleftrightarrow> q = p \<and> j = 0"
proof
  assume eq: "q = eaddr p j"
  have "in_page p (eaddr p j)" using assms(3) in_page_offset [of "8 * j" p] by (simp add: eaddr_def)
  then have "q = p" using eq in_page_unique [OF assms(2,1), of q] in_page_self by simp
  moreover have "unat (eaddr p j) = unat p + 8 * j" using assms by (simp add: unat_slot)
  ultimately show "q = p \<and> j = 0" using eq by simp
qed (simp add: eaddr_def)

lemma ent_one_page:
  assumes "aligned 12 p" "j < 512"
  shows "ent one_page_mem p j =
    (if j \<noteq> 0 then 0 else if p = 0x80100000 then PA2PTE 0x80101000 OR PTE_V
     else if p = 0x80101000 then PA2PTE 0x80102000 OR PTE_V else if p = 0x80102000 then page0_pte else 0)"
proof -
  have al: "aligned 3 (eaddr p j)" by (rule slot_aligned [OF assms])
  have a12: "aligned 12 0x80100000" "aligned 12 0x80101000" "aligned 12 0x80102000"
    by (simp_all add: aligned_def)
  then have a3: "aligned 3 0x80100000" "aligned 3 0x80101000" "aligned 3 0x80102000"
    by (auto intro: aligned_weaken)
  have "ent one_page_mem p j =
      (if 0x80102000 = eaddr p j then page0_pte else if 0x80101000 = eaddr p j then PA2PTE 0x80102000 OR PTE_V
       else if 0x80100000 = eaddr p j then PA2PTE 0x80101000 OR PTE_V else 0)"
    by (simp add: ent_def one_page_mem_def load64_store64 al a3 load64_zero)
  then show ?thesis
    unfolding eaddr_eq_iff [OF assms(1) a12(1) assms(2)] eaddr_eq_iff [OF assms(1) a12(2) assms(2)]
      eaddr_eq_iff [OF assms(1) a12(3) assms(2)] by auto
qed

lemma tables_single:
  assumes "\<And>j. j < 512 \<Longrightarrow> j \<noteq> 0 \<Longrightarrow> ent m pt j = 0" "valid (ent m pt 0)"
  shows "tables m pt (Suc l) = pt # tables m (PTE2PA (ent m pt 0)) l"
proof -
  have "concat (map (subtables m pt l) [Suc 0..<512]) = concat (map (\<lambda>_. []) [Suc 0..<512])"
    using assms(1) by (intro arg_cong [where f = concat] map_cong) (auto simp: subtables_invalid)
  also have "concat (map (\<lambda>_. []) xs) = ([] :: u64 list)" for xs :: "nat list" by (induction xs) auto
  finally show ?thesis
    using concat_upt_split [of 0 512 "subtables m pt l"] assms(2) by (simp only: tables_Suc) (simp add: subtables_valid)
qed

lemma one_page_entries:
  "valid page0_pte" "PTE2PA page0_pte = 0x80103000" "PTE_FLAGS page0_pte \<noteq> PTE_V"
  "page0_pte AND PTE_U \<noteq> 0" "page0_pte AND PTE_W \<noteq> 0"
  "PTE2PA (PA2PTE 0x80101000 OR PTE_V) = 0x80101000" "PTE2PA (PA2PTE 0x80102000 OR PTE_V) = 0x80102000"
  by (simp_all add: page0_pte_def PTE_V_def PTE_R_def PTE_W_def PTE_X_def PTE_U_def PA2PTE_def PTE2PA_def PTE_FLAGS_def)

lemma one_page_al: "aligned 12 0x80100000" "aligned 12 0x80101000" "aligned 12 0x80102000" "aligned 12 0x80103000"
  by (simp_all add: aligned_def)

lemma ent_one_page_tables:
  assumes "j < 512"
  shows "ent one_page_mem 0x80100000 j = (if j = 0 then PA2PTE 0x80101000 OR PTE_V else 0)"
    "ent one_page_mem 0x80101000 j = (if j = 0 then PA2PTE 0x80102000 OR PTE_V else 0)"
    "ent one_page_mem 0x80102000 j = (if j = 0 then page0_pte else 0)"
  using assms by (simp_all add: ent_one_page one_page_al)

lemma one_page_tables: "tables one_page_mem 0x80100000 2 = [0x80100000, 0x80101000, 0x80102000]"
proof -
  have "tables one_page_mem 0x80101000 (Suc 0) = [0x80101000, 0x80102000]"
    by (subst tables_single) (auto simp: ent_one_page_tables one_page_entries)
  then have "tables one_page_mem 0x80100000 (Suc (Suc 0)) = [0x80100000, 0x80101000, 0x80102000]"
    by (subst tables_single) (auto simp: ent_one_page_tables one_page_entries)
  then show ?thesis by (simp add: numeral_2_eq_2 del: tables.simps)
qed

lemma leaf_two_levels:
  "leaf m pt va 2 =
    (if valid (ent m pt (ix 2 va))
     then if valid (ent m (PTE2PA (ent m pt (ix 2 va))) (ix 1 va))
       then ent m (PTE2PA (ent m (PTE2PA (ent m pt (ix 2 va))) (ix 1 va))) (ix 0 va) else 0
     else 0)"
  unfolding numeral_2_eq_2 One_nat_def by (simp add: Let_def)

lemma one_page_leaf:
  assumes "va < 2 ^ 39"
  shows "leaf one_page_mem 0x80100000 va 2 = (if pg va = 0 then page0_pte else 0)"
proof -
  have "(\<forall>k\<le>2. ix k va = ix k 0) \<longleftrightarrow> pg va = pg 0" by (rule same_ix_iff [OF _ assms]) simp
  moreover have "ix k 0 = 0" for k by (simp add: ix_eq)
  moreover have "pg 0 = 0" by (simp add: pg_def)
  moreover have "(\<forall>k\<le>2. ix k va = 0) \<longleftrightarrow> ix 0 va = 0 \<and> ix 1 va = 0 \<and> ix 2 va = 0"
    by (auto simp: le_Suc_eq numeral_2_eq_2)
  ultimately have "pg va = 0 \<longleftrightarrow> ix 0 va = 0 \<and> ix 1 va = 0 \<and> ix 2 va = 0" by auto
  then show ?thesis
    by (cases "ix 2 va = 0"; cases "ix 1 va = 0")
      (simp_all add: leaf_two_levels ent_one_page_tables one_page_entries)
qed

lemma one_page_interior: "interior one_page_mem 0x80100000 2"
proof -
  have "interior one_page_mem 0x80100000 (Suc (Suc 0))"
    by (simp add: ent_one_page_tables one_page_entries interior_table_entry)
  then show ?thesis by (simp only: numeral_2_eq_2)
qed

lemma one_page_uspace: "uspace one_page 0x80100000 1 {} []"
proof -
  have l: "leaf one_page_mem 0x80100000 0 2 = page0_pte" using one_page_leaf [of 0] by (simp add: pg_def)
  then have "frames one_page 0x80100000 0 1 = [0x80103000]" "present one_page 0x80100000 0 1"
    by (simp_all add: one_page_def one_page_entries)
  then show ?thesis
    using one_page_interior one_page_leaf
    by (auto simp: uspace_def aspace_def tree_ok_def free_pages_def page_ok_def one_page_al PHYSTOP_def KERNBASE_def
        one_page_tables one_page_def)
qed

section \<open>Properties\<close>

text \<open>
  C11: on a well-formed page table, \<open>mappages\<close> over pages that are not mapped never panics.  It returns 0
  with exactly these pages mapped to consecutive frames with the given permissions, or -1 when the
  allocator ran dry, with a proper prefix of them mapped.  Every other entry is as before, the table
  stays well formed and the pages it gained are the ones that left the free list.
\<close>

theorem mappages_maps:
  assumes "tree_ok s pt 2 ps" "va mod PGSIZE = 0" "sz mod PGSIZE = 0" "sz \<noteq> 0" "unat va + unat sz \<le> 2 ^ 38"
    and "\<And>v. v < 2 ^ 39 \<Longrightarrow> pg va \<le> pg v \<Longrightarrow> pg v < pg va + unat sz div 4096 \<Longrightarrow> pte_of s pt v AND PTE_V = 0"
  shows "\<exists>r s' us rs k. mappages s pt va sz pa perm = Ret (r, s') \<and> ps = us @ rs \<and> tree_ok s' pt 2 rs \<and>
    mset (tables (pmem s') pt 2) = mset (tables (pmem s) pt 2) + mset us \<and>
    (r = 0 \<and> k = unat sz div 4096 \<or> r = -1 \<and> k < unat sz div 4096 \<and> rs = []) \<and>
    (\<forall>v. v < 2 ^ 39 \<longrightarrow> pte_of s' pt v =
       (if pg va \<le> pg v \<and> pg v < pg va + k then PA2PTE (pa + of_nat (pg v - pg va) * PGSIZE) OR perm OR PTE_V
        else pte_of s pt v))"
proof -
  obtain r s' us rs where m: "mappages s pt va sz pa perm = Ret (r, s')"
    "mapped s ps pt va (unat sz div 4096) pa perm r s' us rs"
    using mappages_mapped [OF assms(1-5), of pa perm] assms(6) by blast
  have "tree_ok s' pt 2 rs"
    using evolved_tree_ok assms(1) m(2) unfolding mapped_def by blast
  then show ?thesis using m unfolding mapped_def map_range_def evolved_def by blast
qed

theorem mappages_maps_witness:
  "\<exists>r s' us rs k. mappages one_page 0x80100000 0x1000 0x2000 0x80200000 (PTE_R OR PTE_U) = Ret (r, s') \<and>
    [] = us @ rs \<and> tree_ok s' 0x80100000 2 rs \<and>
    mset (tables (pmem s') 0x80100000 2) = mset (tables (pmem one_page) 0x80100000 2) + mset us \<and>
    (r = 0 \<and> k = (2 :: nat) \<or> r = -1 \<and> k < 2 \<and> rs = [])"
proof -
  have ok: "tree_ok one_page 0x80100000 2 []" using one_page_uspace by (simp add: uspace_def aspace_def)
  have "pte_of one_page 0x80100000 v AND PTE_V = 0" if "v < 2 ^ 39" "pg 0x1000 \<le> pg v" for v
    using that one_page_leaf [OF that(1)] by (auto simp: one_page_def pg_def)
  note m = mappages_maps [OF ok _ _ _ _ this, of "0x1000" "0x2000" "0x80200000" "PTE_R OR PTE_U"]
  have "unat (0x2000 :: u64) div 4096 = 2" by simp
  then show ?thesis using m by (simp add: PGSIZE_def) blast
qed

text \<open>
  C2: \<open>uvmalloc\<close> either grows the address space to \<open>newsz\<close>, each new page mapped for the user with the
  given extra permissions and filled with zeros, or returns 0 with the address space at its old size.
  In both cases the old pages keep their entries and contents, tables, frames and free pages stay
  disjoint and none is lost, and memory outside this address space and the free pages is untouched.
\<close>

theorem uvmalloc_all_or_nothing:
  assumes "aspace s pt (npg oldsz) X ps" "oldsz \<le> newsz" "npg newsz \<le> 2 ^ 26" "\<And>x. x \<in> X \<Longrightarrow> npg newsz \<le> x" "xperm < 1024"
  shows "\<exists>r s' rs. uvmalloc s pt oldsz newsz xperm = Ret (r, s') \<and>
    (r = newsz \<and> resized pt X (npg newsz) s (npg oldsz) ps s' (npg newsz) rs \<and>
       (\<forall>i. npg oldsz \<le> i \<longrightarrow> i < npg newsz \<longrightarrow> zero_page s' pt (PTE_R OR PTE_U OR xperm) i) \<or>
     r = 0 \<and> resized pt X (npg newsz) s (npg oldsz) ps s' (npg oldsz) rs)"
proof -
  have "npg oldsz \<le> 2 ^ 26" using assms(1) by (simp add: aspace_def)
  then have up: "PGROUNDUP oldsz = upg (npg oldsz)" using npg_le by (simp add: PGROUNDUP_npg)
  have le: "npg oldsz \<le> npg newsz" by (rule npg_mono [OF assms(2)])
  have "\<not> newsz < oldsz" using assms(2) by simp
  then show ?thesis
    unfolding uvmalloc_def Let_def up
    using uvmalloc_loop_aspace [OF assms(3,4,5,1) order_refl le] by simp
qed

theorem uvmalloc_all_or_nothing_witness:
  "\<exists>r s' rs. uvmalloc one_page 0x80100000 4096 10000 PTE_W = Ret (r, s') \<and>
    (r = 10000 \<and> resized 0x80100000 {} 3 one_page 1 [] s' 3 rs \<and> zero_page s' 0x80100000 (PTE_R OR PTE_U OR PTE_W) 2 \<or>
     r = 0 \<and> resized 0x80100000 {} 3 one_page 1 [] s' 1 rs)"
proof -
  have n: "npg 4096 = 1" "npg 10000 = 3" by (simp_all add: npg_def)
  have a: "aspace one_page 0x80100000 (npg 4096) {} []" using one_page_uspace by (simp add: uspace_def n)
  show ?thesis
    using uvmalloc_all_or_nothing [OF a, of 10000 PTE_W] by (auto simp: n PTE_W_def)
qed

text \<open>
  C25: \<open>uvmdealloc\<close> to a smaller size never panics, returns the new size, and hands every page between the
  two sizes back to the allocator; the pages below keep their entries and contents.
\<close>

theorem uvmdealloc_shrinks:
  assumes "aspace s pt (npg oldsz) X ps" "newsz \<le> oldsz"
  shows "\<exists>s' qs. uvmdealloc s pt oldsz newsz = Ret (newsz, s') \<and>
    resized pt X (npg oldsz) s (npg oldsz) ps s' (npg newsz) qs"
  using assms by (rule uvmdealloc_aspace)

theorem uvmdealloc_shrinks_witness:
  "\<exists>s' qs. uvmdealloc one_page 0x80100000 4096 0 = Ret (0, s') \<and> resized 0x80100000 {} 1 one_page 1 [] s' 0 qs"
proof -
  have n: "npg 4096 = 1" "npg 0 = 0" by (simp_all add: npg_def)
  have a: "aspace one_page 0x80100000 (npg 4096) {} []" using one_page_uspace by (simp add: uspace_def n)
  show ?thesis using uvmdealloc_shrinks [OF a, of 0] by (simp add: n)
qed

text \<open>
  C8: \<open>uvmfree\<close> on an address space with nothing mapped but its user pages terminates without a panic and
  puts exactly the frames and the table pages of the address space back on the free list.
\<close>

theorem uvmfree_returns_all:
  assumes "aspace s pt (npg sz) {} ps"
  shows "\<exists>s' qs. uvmfree s pt sz = Ret s' \<and> free_pages s' (qs @ ps) \<and>
    mset qs = mset (tables (pmem s) pt 2 @ frames s pt 0 (npg sz)) \<and>
    unchanged_off (set (owned s pt (npg sz) @ ps)) (pmem s) (pmem s')"
  using uvmfree_frees_all [OF assms] by (simp add: owned_def) blast

theorem uvmfree_returns_all_witness:
  "\<exists>s' qs. uvmfree one_page 0x80100000 4096 = Ret s' \<and> free_pages s' qs \<and>
    mset qs = {#0x80100000, 0x80101000, 0x80102000, 0x80103000#}"
proof -
  have n: "npg 4096 = 1" by (simp add: npg_def)
  have a: "aspace one_page 0x80100000 (npg 4096) {} []" using one_page_uspace by (simp add: uspace_def n)
  have "leaf one_page_mem 0x80100000 0 2 = page0_pte" using one_page_leaf [of 0] by (simp add: pg_def)
  then have "frames one_page 0x80100000 0 1 = [0x80103000]" by (simp add: one_page_def one_page_entries)
  then show ?thesis
    using uvmfree_returns_all [OF a] by (force simp: n one_page_tables one_page_def)
qed


text \<open>
  C4: \<open>uvmcopy\<close>, the memory half of \<open>fork\<close>, gives the child its own frame for every page of the parent, with
  the same permission bits and the same bytes, or undoes its work and returns -1.  The parent's
  entries and bytes do not change, and the two address spaces never share a page.
\<close>

theorem uvmcopy_duplicates:
  assumes "apart s old (npg sz) X new 0 Y ps" "\<And>y. y \<in> Y \<Longrightarrow> npg sz \<le> y"
  shows "\<exists>r s' rs. uvmcopy s old new sz = Ret (r, s') \<and>
    (r = 0 \<and> apart s' old (npg sz) X new (npg sz) Y rs \<and> (\<forall>i<npg sz. copied s' old new i) \<or>
     r = -1 \<and> apart s' old (npg sz) X new 0 Y rs) \<and>
    (\<forall>va. pte_of s' old va = pte_of s old va) \<and> same_on (set (frames s old 0 (npg sz))) (pmem s) (pmem s')"
proof -
  obtain r s' rs where r: "uvmcopy_loop s old new (upg 0) sz = Ret (r, s')"
    "r = 0 \<and> resized new Y (npg sz) s 0 ps s' (npg sz) rs \<and> (\<forall>i<npg sz. copied s' old new i) \<or>
     r = -1 \<and> resized new Y (npg sz) s 0 ps s' 0 rs"
    using uvmcopy_loop_copies [OF refl assms(2,1)] by blast
  then obtain j where "resized new Y (npg sz) s 0 ps s' j rs" by blast
  note k = apart_resized(2,3) [OF assms(1) this]
  have "same_on (set (frames s old 0 (npg sz))) (pmem s) (pmem s')"
    by (rule same_on_mono [OF k(2)]) (simp add: owned_def)
  moreover have "apart s' old (npg sz) X new i Y rs" if "resized new Y (npg sz) s 0 ps s' i rs" for i
    by (rule apart_resized(1) [OF assms(1) that])
  ultimately show ?thesis using r k(1) by (auto simp: uvmcopy_def)
qed

theorem uvmcopy_duplicates_witness:
  "\<exists>r s' rs. uvmcopy one_page 0x80100000 0x80200000 4096 = Ret (r, s') \<and>
    (r = 0 \<and> apart s' 0x80100000 1 {} 0x80200000 1 {} rs \<and> copied s' 0x80100000 0x80200000 0 \<or>
     r = -1 \<and> apart s' 0x80100000 1 {} 0x80200000 0 {} rs)"
proof -
  have n: "npg 4096 = 1" by (simp add: npg_def)
  have zero: "one_page_mem x = 0" if "in_page 0x80200000 x" for x
  proof -
    have "\<not> in_page p x" if "p \<in> {0x80100000, 0x80101000, 0x80102000}" for p
      using in_page_unique [of p "0x80200000" x] \<open>in_page 0x80200000 x\<close> that one_page_al by (auto simp: aligned_def)
    then show ?thesis by (simp add: one_page_mem_def store64_page_outside)
  qed
  note z = zero_page_tree [of "0x80200000" one_page_mem, OF zero]
  have new: "aspace one_page 0x80200000 0 {} []"
    using z by (auto simp: aspace_def tree_ok_def free_pages_def page_ok_def one_page_def aligned_def PHYSTOP_def KERNBASE_def)
  have "leaf one_page_mem 0x80100000 0 2 = page0_pte" using one_page_leaf [of 0] by (simp add: pg_def)
  then have "apart one_page 0x80100000 (npg 4096) {} 0x80200000 0 {} []"
    using one_page_uspace new z(1) one_page_tables
    by (simp add: apart_def uspace_def n owned_def one_page_def one_page_entries)
  from uvmcopy_duplicates [OF this] show ?thesis by (auto simp: n)
qed

lemma one_page_writable:
  assumes "unat va < 4096"
  shows "uwritable one_page 0x80100000 va"
proof -
  have "PGROUNDDOWN va = 0" using assms by (simp add: PGROUNDDOWN_pg pg_def)
  moreover have "leaf one_page_mem 0x80100000 va 2 = page0_pte"
    using assms one_page_leaf [of va] by (simp add: pg_def word_less_nat_alt)
  ultimately show ?thesis
    by (simp add: uwritable_def ureadable_def one_page_def one_page_entries MAXVA_def)
qed

text \<open>
  C19: what \<open>copyout\<close> wrote, \<open>copyin\<close> reads back: after a successful \<open>copyout\<close> of any bytes to any user
  address, across page boundaries included, \<open>copyin\<close> from the same address succeeds with the same bytes.
\<close>

theorem copyout_copyin_roundtrip:
  assumes "uspace s pt n X ps" "length src < 2 ^ 64" "copyout s pt va src = (0, s')"
  shows "copyin s' pt va (length src) = (0, src)"
proof -
  obtain k where k: "wrote s pt va (take k src) s'" "uspace s' pt n X ps" "\<And>v. pte_of s' pt v = pte_of s pt v" "k = length src"
    using copyout_spec [OF assms] by auto
  have rd: "ureadable s' pt (va + of_nat i)" if "i < length src" for i
    using wrote_writable [OF k(1), of i] k(3,4) that by (simp add: uwritable_def ureadable_def)
  obtain r bs where co: "copyin s' pt va (length src) = (r, bs)" by fastforce
  obtain j where j: "j \<le> length src" "bs = ubytes s' pt va j"
    "r = 0 \<and> j = length src \<or> r = -1 \<and> j < length src \<and> \<not> ureadable s' pt (va + of_nat j)"
    using copyin_spec [OF k(2) co] by blast
  then have "r = 0" "j = length src" using rd by auto
  then show ?thesis using co j(2) wrote_ubytes [OF k(1,3)] k(4) by simp
qed

theorem copyout_copyin_roundtrip_witness:
  "\<exists>s'. copyout one_page 0x80100000 0x10 [104, 105] = (0, s') \<and> copyin s' 0x80100000 0x10 2 = (0, [104, 105])"
proof -
  obtain r s' where co: "copyout one_page 0x80100000 0x10 [104, 105] = (r, s')" by fastforce
  have "\<forall>i<length [104, 105 :: u8]. uwritable one_page 0x80100000 (0x10 + of_nat i)"
    using one_page_writable by (simp add: less_Suc_eq unat_add_eq)
  then have r: "r = 0" using copyout_result [OF one_page_uspace _ co] by simp
  have len: "length [104, 105 :: u8] = 2" by simp
  have "copyin s' 0x80100000 0x10 (length [104, 105 :: u8]) = (0, [104, 105])"
    by (rule copyout_copyin_roundtrip [OF one_page_uspace]) (use co r in simp_all)
  then show ?thesis unfolding len using co r by blast
qed

text \<open>
  C14: \<open>copyout\<close> is confined to the user's own writable bytes.  It returns 0 exactly when every byte of the
  destination lies in a page that is mapped, user-accessible and writable, and every byte of physical
  memory it changes is one of these; page tables and the disjointness of the address space survive.
\<close>

theorem copyout_confined:
  assumes "uspace s pt n X ps" "length src < 2 ^ 64" "copyout s pt va src = (r, s')"
  shows "(r = 0 \<longleftrightarrow> (\<forall>i<length src. uwritable s pt (va + of_nat i))) \<and>
    (\<forall>x. pmem s' x \<noteq> pmem s x \<longrightarrow> (\<exists>i<length src. uwritable s pt (va + of_nat i) \<and> x = uva s pt (va + of_nat i))) \<and>
    (\<forall>v. pte_of s' pt v = pte_of s pt v) \<and> uspace s' pt n X ps"
proof -
  obtain k where k: "k \<le> length src" "wrote s pt va (take k src) s'" "uspace s' pt n X ps" "\<forall>v. pte_of s' pt v = pte_of s pt v"
    using copyout_spec [OF assms] by blast
  have "\<exists>i<length src. uwritable s pt (va + of_nat i) \<and> x = uva s pt (va + of_nat i)" if x: "pmem s' x \<noteq> pmem s x" for x
  proof -
    obtain i where i: "i < length (take k src)" "x = uva s pt (va + of_nat i)"
      using wrote_elsewhere [OF k(2) x] by blast
    then show ?thesis using wrote_writable [OF k(2) i(1)] k(1) by (intro exI [of _ i]) simp
  qed
  then show ?thesis using copyout_result [OF assms] k by blast
qed

theorem copyout_confined_witness:
  "\<exists>r s'. copyout one_page 0x80100000 0xfff [1, 2] = (r, s') \<and> r \<noteq> 0 \<and> uspace s' 0x80100000 1 {} []"
proof -
  obtain r s' where co: "copyout one_page 0x80100000 0xfff [1, 2] = (r, s')" by fastforce
  have "leaf one_page_mem 0x80100000 0x1000 2 = 0" using one_page_leaf [of "0x1000"] by (simp add: pg_def)
  then have "\<not> uwritable one_page 0x80100000 (0xfff + of_nat 1)"
    by (simp add: uwritable_def ureadable_def one_page_def)
  moreover have "(1 :: nat) < length [1, 2 :: u8]" by simp
  ultimately have "\<not> (\<forall>i<length [1, 2 :: u8]. uwritable one_page 0x80100000 (0xfff + of_nat i))" by blast
  then show ?thesis using copyout_confined [OF one_page_uspace _ co] co by auto
qed



end
