(* ===== verification/Proc.thy ===== *)
theory Proc
  imports UserCopy
begin

text \<open>
  The process table of \<^verbatim>\<open>kernel/proc.h\<close> and the operations of \<^verbatim>\<open>kernel/proc.c\<close> that need no file: slots,
  page tables of processes, sizes, \<open>wakeup\<close>, \<open>kill\<close> and the copies to and from either kind of address.
  The operations on a process that also close files and drop inodes are in the theory of processes and
  files.

  The table is a function from slot numbers below \<open>NPROC\<close>; a \<open>struct proc *\<close> is a slot number and a
  null pointer is \<open>None\<close>.  A trapframe is a page of physical memory, so its fields are loads and stores.
  As in the allocator, a section between \<open>acquire\<close> and \<open>release\<close> of a spinlock is one step; the
  functions here run in the context of process \<open>curp\<close>.
\<close>

section \<open>Arrays of bytes inside kernel structures\<close>

text \<open>
  The string functions of \<^verbatim>\<open>kernel/string.c\<close> on arrays that are fields of a structure or buffers on the
  kernel stack: the same loops over a list of bytes, where reading past the end of the list meets the
  terminating NUL.
\<close>

definition byte_at :: "u8 list \<Rightarrow> u8" where
  "byte_at bs = (case bs of [] \<Rightarrow> 0 | b # _ \<Rightarrow> b)"

fun strncmp_arr :: "u8 list \<Rightarrow> u8 list \<Rightarrow> nat \<Rightarrow> int" where
  "strncmp_arr p q 0 = 0"
| "strncmp_arr p q (Suc n) =
     (if byte_at p \<noteq> 0 \<and> byte_at p = byte_at q then strncmp_arr (tl p) (tl q) n
      else uint (byte_at p) - uint (byte_at q))"

fun strncpy_arr :: "u8 list \<Rightarrow> nat \<Rightarrow> u8 list" where
  "strncpy_arr t 0 = []"
| "strncpy_arr t (Suc n) =
     (let c = byte_at t in if c \<noteq> 0 then c # strncpy_arr (tl t) n else c # replicate n 0)"

fun store_nul :: "u8 list \<Rightarrow> u8 list" where
  "store_nul [] = []"
| "store_nul (d # ds) = 0 # ds"

fun safestrcpy_arr :: "u8 list \<Rightarrow> u8 list \<Rightarrow> nat \<Rightarrow> u8 list" where
  "safestrcpy_arr s t 0 = store_nul s"
| "safestrcpy_arr [] t (Suc n) = []"
| "safestrcpy_arr (d # s) t (Suc n) =
     (let c = byte_at t in
      if c \<noteq> 0 then c # safestrcpy_arr s (tl t) n else c # store_nul s)"

section \<open>The process table\<close>

datatype procstate = UNUSED | USED | SLEEPING | RUNNABLE | RUNNING | ZOMBIE

record kcontext =
  c_ra :: u64
  c_sp :: u64
  c_s :: "nat \<Rightarrow> u64"

record proc =
  p_state :: procstate
  p_chan :: chan
  p_killed :: bool
  p_xstate :: u32
  p_pid :: u32
  p_parent :: "nat option"
  p_kstack :: u64
  p_sz :: u64
  p_pagetable :: u64
  p_trapframe :: u64
  p_context :: kcontext
  p_ofile :: "nat \<Rightarrow> nat option"
  p_cwd :: "nat option"
  p_name :: "u8 list"

text \<open>
  \<open>sym_forkret\<close> is the address of \<open>forkret\<close>.  \<open>ticks\<close> is the clock of \<^verbatim>\<open>kernel/trap.c\<close>, which system calls
  read.
\<close>

record kproc = kmem +
  procs :: "nat \<Rightarrow> proc"
  curp :: nat
  initproc :: "nat option"
  nextpid :: u32
  ticks :: u32
  sym_forkret :: u64

abbreviation myproc :: "'z kproc_scheme \<Rightarrow> proc" where
  "myproc s \<equiv> procs s (curp s)"

definition upd_proc :: "'z kproc_scheme \<Rightarrow> nat \<Rightarrow> (proc \<Rightarrow> proc) \<Rightarrow> 'z kproc_scheme" where
  "upd_proc s p f = s\<lparr>procs := (procs s)(p := f (procs s p))\<rparr>"

text \<open>Offsets in \<open>struct trapframe\<close>, and its size.\<close>

definition tf_epc :: u64 where "tf_epc = 24"
definition tf_sp :: u64 where "tf_sp = 48"
definition tf_a :: "nat \<Rightarrow> u64" where "tf_a n = 112 + 8 * of_nat n"
definition tf_size :: nat where "tf_size = 288"

definition get_tf :: "'z kproc_scheme \<Rightarrow> nat \<Rightarrow> u64 \<Rightarrow> u64" where
  "get_tf s p off = load64 (pmem s) (p_trapframe (procs s p) + off)"

definition set_tf :: "'z kproc_scheme \<Rightarrow> nat \<Rightarrow> u64 \<Rightarrow> u64 \<Rightarrow> 'z kproc_scheme" where
  "set_tf s p off v = s\<lparr>pmem := store64 (pmem s) (p_trapframe (procs s p) + off) v\<rparr>"

definition procinit :: "'z kproc_scheme \<Rightarrow> 'z kproc_scheme" where
  "procinit s =
     fold (\<lambda>p s. upd_proc s p (\<lambda>pr. pr\<lparr>p_state := UNUSED, p_kstack := KSTACK p\<rparr>)) [0..<NPROC] s"

definition allocpid :: "'z kproc_scheme \<Rightarrow> u32 \<times> 'z kproc_scheme" where
  "allocpid s = (let pid = nextpid s in (pid, s\<lparr>nextpid := nextpid s + 1\<rparr>))"

section \<open>Page tables of processes\<close>

definition proc_pagetable :: "'z kproc_scheme \<Rightarrow> nat \<Rightarrow> (u64 \<times> 'z kproc_scheme) res" where
  "proc_pagetable s p =
     (let (pagetable, s1) = uvmcreate s in
      if pagetable = 0 then Ret (0, s1)
      else
        bindr (mappages s1 pagetable TRAMPOLINE PGSIZE (sym_trampoline s1) (PTE_R OR PTE_X)) (\<lambda>(r, s2).
        if r < 0 then bindr (uvmfree s2 pagetable 0) (\<lambda>s3. Ret (0, s3))
        else
          bindr (mappages s2 pagetable TRAPFRAME PGSIZE (p_trapframe (procs s2 p)) (PTE_R OR PTE_W)) (\<lambda>(r, s3).
          if r < 0 then
            bindr (uvmunmap s3 pagetable TRAMPOLINE 1 False) (\<lambda>s4.
            bindr (uvmfree s4 pagetable 0) (\<lambda>s5. Ret (0, s5)))
          else Ret (pagetable, s3))))"

definition proc_freepagetable :: "'z kproc_scheme \<Rightarrow> u64 \<Rightarrow> u64 \<Rightarrow> 'z kproc_scheme res" where
  "proc_freepagetable s pagetable sz =
     bindr (uvmunmap s pagetable TRAMPOLINE 1 False) (\<lambda>s1.
     bindr (uvmunmap s1 pagetable TRAPFRAME 1 False) (\<lambda>s2.
       uvmfree s2 pagetable sz))"

definition freeproc :: "'z kproc_scheme \<Rightarrow> nat \<Rightarrow> 'z kproc_scheme res" where
  "freeproc s p =
     bindr (if p_trapframe (procs s p) \<noteq> 0 then kfree s (p_trapframe (procs s p)) else Ret s) (\<lambda>s1.
     let s2 = upd_proc s1 p (\<lambda>pr. pr\<lparr>p_trapframe := 0\<rparr>) in
     bindr (if p_pagetable (procs s2 p) \<noteq> 0
            then proc_freepagetable s2 (p_pagetable (procs s2 p)) (p_sz (procs s2 p)) else Ret s2) (\<lambda>s3.
     Ret (upd_proc s3 p (\<lambda>pr. pr\<lparr>p_pagetable := 0, p_sz := 0, p_pid := 0, p_parent := None,
       p_name := store_nul (p_name pr), p_chan := ChanNull, p_killed := False, p_xstate := 0,
       p_state := UNUSED\<rparr>))))"

definition allocproc :: "'z kproc_scheme \<Rightarrow> (nat option \<times> 'z kproc_scheme) res" where
  "allocproc s =
     (case find (\<lambda>p. p_state (procs s p) = UNUSED) [0..<NPROC] of
        None \<Rightarrow> Ret (None, s)
      | Some p \<Rightarrow>
          let (pid, s1) = allocpid s;
              s2 = upd_proc s1 p (\<lambda>pr. pr\<lparr>p_pid := pid, p_state := USED\<rparr>);
              (tf, s3) = kalloc s2;
              s4 = upd_proc s3 p (\<lambda>pr. pr\<lparr>p_trapframe := tf\<rparr>) in
          if tf = 0 then bindr (freeproc s4 p) (\<lambda>s5. Ret (None, s5))
          else
            bindr (proc_pagetable s4 p) (\<lambda>(pt, s5).
            let s6 = upd_proc s5 p (\<lambda>pr. pr\<lparr>p_pagetable := pt\<rparr>) in
            if pt = 0 then bindr (freeproc s6 p) (\<lambda>s7. Ret (None, s7))
            else
              Ret (Some p, upd_proc s6 p (\<lambda>pr. pr\<lparr>p_context :=
                \<lparr>c_ra = sym_forkret s6, c_sp = p_kstack pr + PGSIZE, c_s = (\<lambda>_. 0)\<rparr>\<rparr>))))"

definition growproc :: "'z kproc_scheme \<Rightarrow> u32 \<Rightarrow> (int \<times> 'z kproc_scheme) res" where
  "growproc s n =
     (let sz = p_sz (myproc s) in
      if sint n > 0 then
        bindr (uvmalloc s (p_pagetable (myproc s)) sz (sz + scast n) PTE_W) (\<lambda>(sz1, s1).
        if sz1 = 0 then Ret (-1, s1)
        else Ret (0, upd_proc s1 (curp s1) (\<lambda>pr. pr\<lparr>p_sz := sz1\<rparr>)))
      else if sint n < 0 then
        bindr (uvmdealloc s (p_pagetable (myproc s)) sz (sz + scast n)) (\<lambda>(sz1, s1).
        Ret (0, upd_proc s1 (curp s1) (\<lambda>pr. pr\<lparr>p_sz := sz1\<rparr>)))
      else Ret (0, upd_proc s (curp s) (\<lambda>pr. pr\<lparr>p_sz := sz\<rparr>)))"

section \<open>Waking and killing\<close>

definition wakeup_one :: "chan \<Rightarrow> nat \<Rightarrow> 'z kproc_scheme \<Rightarrow> 'z kproc_scheme" where
  "wakeup_one c p s =
     (if p \<noteq> curp s \<and> p_state (procs s p) = SLEEPING \<and> p_chan (procs s p) = c
      then upd_proc s p (\<lambda>pr. pr\<lparr>p_state := RUNNABLE\<rparr>) else s)"

definition wakeup :: "'z kproc_scheme \<Rightarrow> chan \<Rightarrow> 'z kproc_scheme" where
  "wakeup s c = fold (wakeup_one c) [0..<NPROC] s"

text \<open>The channel of a \<open>struct proc *\<close>.\<close>

definition chan_of :: "nat option \<Rightarrow> chan" where
  "chan_of p = (case p of None \<Rightarrow> ChanNull | Some i \<Rightarrow> ChanProc i)"

definition reparent_one :: "nat \<Rightarrow> nat \<Rightarrow> 'z kproc_scheme \<Rightarrow> 'z kproc_scheme" where
  "reparent_one p pp s =
     (if p_parent (procs s pp) = Some p
      then wakeup (upd_proc s pp (\<lambda>pr. pr\<lparr>p_parent := initproc s\<rparr>)) (chan_of (initproc s)) else s)"

definition reparent :: "'z kproc_scheme \<Rightarrow> nat \<Rightarrow> 'z kproc_scheme" where
  "reparent s p = fold (reparent_one p) [0..<NPROC] s"

definition kill :: "'z kproc_scheme \<Rightarrow> u32 \<Rightarrow> int \<times> 'z kproc_scheme" where
  "kill s pid =
     (case find (\<lambda>p. p_pid (procs s p) = pid) [0..<NPROC] of
        None \<Rightarrow> (-1, s)
      | Some p \<Rightarrow>
          let s1 = upd_proc s p (\<lambda>pr. pr\<lparr>p_killed := True\<rparr>) in
          (0, if p_state (procs s1 p) = SLEEPING then upd_proc s1 p (\<lambda>pr. pr\<lparr>p_state := RUNNABLE\<rparr>) else s1))"

definition setkilled :: "'z kproc_scheme \<Rightarrow> nat \<Rightarrow> 'z kproc_scheme" where
  "setkilled s p = upd_proc s p (\<lambda>pr. pr\<lparr>p_killed := True\<rparr>)"

definition killed :: "'z kproc_scheme \<Rightarrow> nat \<Rightarrow> bool" where
  "killed s p = p_killed (procs s p)"

section \<open>Copies to and from either kind of address\<close>

text \<open>
  A destination is a user virtual address, a kernel address of physical memory (the kernel maps it one
  to one), or a position in an object of the calling kernel function, such as its \<open>struct dirent\<close>; the bytes of
  that object up to the last one stored are a list that the copy updates.  A source is a user address or bytes
  of the calling function.
\<close>

datatype dst = UserDst u64 | KernDst u64 | ObjDst nat

datatype src = UserSrc u64 | ObjSrc "u8 list"

definition dst_add :: "dst \<Rightarrow> u32 \<Rightarrow> dst" where
  "dst_add d m = (case d of UserDst a \<Rightarrow> UserDst (a + ucast m) | KernDst a \<Rightarrow> KernDst (a + ucast m) | ObjDst k \<Rightarrow> ObjDst (k + unat m))"

definition src_add :: "src \<Rightarrow> u32 \<Rightarrow> src" where
  "src_add d m = (case d of UserSrc a \<Rightarrow> UserSrc (a + ucast m) | ObjSrc bs \<Rightarrow> ObjSrc (drop (unat m) bs))"

definition obj_put :: "nat \<Rightarrow> u8 list \<Rightarrow> u8 list \<Rightarrow> u8 list" where
  "obj_put k bs obj = take k obj @ bs @ drop (k + length bs) obj"

definition either_copyout :: "'z kproc_scheme \<Rightarrow> dst \<Rightarrow> u8 list \<Rightarrow> u8 list \<Rightarrow> int \<times> u8 list \<times> 'z kproc_scheme" where
  "either_copyout s d obj bs =
     (case d of
        UserDst va \<Rightarrow> (let (r, s1) = copyout s (p_pagetable (myproc s)) va bs in (r, obj, s1))
      | KernDst pa \<Rightarrow> (0, obj, s\<lparr>pmem := store_bytes (pmem s) pa bs\<rparr>)
      | ObjDst k \<Rightarrow> (0, obj_put k bs obj, s))"

definition either_copyin :: "'z kproc_scheme \<Rightarrow> src \<Rightarrow> nat \<Rightarrow> int \<times> u8 list" where
  "either_copyin s d len =
     (case d of
        UserSrc va \<Rightarrow> copyin s (p_pagetable (myproc s)) va len
      | ObjSrc bs \<Rightarrow> (0, take len bs))"

section \<open>Steps that leave the user's memory alone\<close>

definition same_user :: "'z kproc_scheme \<Rightarrow> 'z kproc_scheme \<Rightarrow> bool" where
  "same_user s s' \<longleftrightarrow> pmem s' = pmem s \<and> freelist s' = freelist s \<and> sym_end s' = sym_end s \<and> curp s' = curp s \<and>
     p_pagetable (procs s' (curp s)) = p_pagetable (procs s (curp s))"

lemma same_user_trans: "same_user s s1 \<Longrightarrow> same_user s1 s2 \<Longrightarrow> same_user s s2"
  by (simp add: same_user_def)

lemma same_userD:
  assumes "same_user s s'"
  shows "uspace s' pt n X ps = uspace s pt n X ps" "ureadable s' = ureadable s" "ubytes s' = ubytes s" "p_pagetable (myproc s') = p_pagetable (myproc s)"
  using assms uspace_cong [of s' s] by (simp_all add: same_user_def ureadable_def [abs_def] ubytes_def [abs_def] uva_def)

end
