(* ===== verification/Bio.thy ===== *)
theory Bio
  imports Proc
begin

text \<open>
  Sleep locks (\<^verbatim>\<open>kernel/sleeplock.c\<close>), the disk blocks and the buffer cache (\<^verbatim>\<open>kernel/bio.c\<close>, \<^verbatim>\<open>kernel/buf.h\<close>).
  The cache is the array of buffers together with the order of the doubly linked list that starts at
  \<open>bcache.head\<close>, most recently used first.  \<open>virtio_disk_rw\<close> is the transfer of one block
  as one step: what the driver of \<^verbatim>\<open>kernel/virtio_disk.c\<close> and the device do together before the call returns.
  The disk keeps the list of the writes it has performed, in order, so that a crash can be stated as the
  loss of a suffix of it.

  The functions run in one process while no other process runs; where the process would have to wait
  for a lock the outcome is \<open>Sleep\<close>.
\<close>

section \<open>Sleep locks\<close>

record sleeplock =
  sl_locked :: bool
  sl_pid :: u32

definition initsleeplock :: sleeplock where
  "initsleeplock = \<lparr>sl_locked = False, sl_pid = 0\<rparr>"

definition acquiresleep :: "'z kproc_scheme \<Rightarrow> sleeplock \<Rightarrow> chan \<Rightarrow> sleeplock res" where
  "acquiresleep s lk c =
     (if sl_locked lk then Sleep c else Ret \<lparr>sl_locked = True, sl_pid = p_pid (myproc s)\<rparr>)"

definition releasesleep :: "'z kproc_scheme \<Rightarrow> chan \<Rightarrow> sleeplock \<times> 'z kproc_scheme" where
  "releasesleep s c = (\<lparr>sl_locked = False, sl_pid = 0\<rparr>, wakeup s c)"

definition holdingsleep :: "'z kproc_scheme \<Rightarrow> sleeplock \<Rightarrow> bool" where
  "holdingsleep s lk \<longleftrightarrow> sl_locked lk \<and> sl_pid lk = p_pid (myproc s)"

section \<open>Blocks\<close>

text \<open>
  A block is its \<open>BSIZE\<close> bytes; a function of the offset below \<open>BSIZE\<close>.  Fields of the structures that the
  file system lays over a block are little-endian.
\<close>

definition BSIZE :: nat where "BSIZE = 1024"

type_synonym block = "nat \<Rightarrow> u8"

definition ld16 :: "block \<Rightarrow> nat \<Rightarrow> u16" where
  "ld16 b i = ucast (b i) OR push_bit 8 (ucast (b (i + 1)))"

definition ld32 :: "block \<Rightarrow> nat \<Rightarrow> u32" where
  "ld32 b i = ucast (b i) OR push_bit 8 (ucast (b (i + 1))) OR
     push_bit 16 (ucast (b (i + 2))) OR push_bit 24 (ucast (b (i + 3)))"

definition st16 :: "block \<Rightarrow> nat \<Rightarrow> u16 \<Rightarrow> block" where
  "st16 b i v = b(i := ucast v, i + 1 := ucast (drop_bit 8 v))"

definition st32 :: "block \<Rightarrow> nat \<Rightarrow> u32 \<Rightarrow> block" where
  "st32 b i v = b(i := ucast v, i + 1 := ucast (drop_bit 8 v),
     i + 2 := ucast (drop_bit 16 v), i + 3 := ucast (drop_bit 24 v))"

text \<open>\<open>memmove\<close> out of, into, and \<open>memset\<close> of a part of a block.\<close>

definition blk_get :: "block \<Rightarrow> nat \<Rightarrow> nat \<Rightarrow> u8 list" where
  "blk_get b off n = map b [off..<off + n]"

definition blk_put :: "block \<Rightarrow> nat \<Rightarrow> u8 list \<Rightarrow> block" where
  "blk_put b off bs = (\<lambda>i. if off \<le> i \<and> i < off + length bs then bs ! (i - off) else b i)"

definition blk_fill :: "block \<Rightarrow> nat \<Rightarrow> nat \<Rightarrow> u8 \<Rightarrow> block" where
  "blk_fill b off n c = (\<lambda>i. if off \<le> i \<and> i < off + n then c else b i)"

section \<open>The buffer cache\<close>

definition NBUF :: nat where "NBUF = 30"

record buf =
  b_valid :: bool
  b_dev :: u32
  b_blockno :: u32
  b_lock :: sleeplock
  b_refcnt :: u32
  b_data :: block

record kbio = kproc +
  disk :: "u32 \<Rightarrow> block"
  written :: "(u32 \<times> block) list"
  bufs :: "nat \<Rightarrow> buf"
  lru :: "nat list"

definition upd_buf :: "'z kbio_scheme \<Rightarrow> nat \<Rightarrow> (buf \<Rightarrow> buf) \<Rightarrow> 'z kbio_scheme" where
  "upd_buf s i f = s\<lparr>bufs := (bufs s)(i := f (bufs s i))\<rparr>"

abbreviation bdata :: "'z kbio_scheme \<Rightarrow> nat \<Rightarrow> block" where
  "bdata s i \<equiv> b_data (bufs s i)"

definition set_bdata :: "'z kbio_scheme \<Rightarrow> nat \<Rightarrow> block \<Rightarrow> 'z kbio_scheme" where
  "set_bdata s i d = upd_buf s i (\<lambda>b. b\<lparr>b_data := d\<rparr>)"

definition virtio_disk_rw :: "'z kbio_scheme \<Rightarrow> nat \<Rightarrow> bool \<Rightarrow> 'z kbio_scheme" where
  "virtio_disk_rw s i write =
     (if write
      then s\<lparr>disk := (disk s)(b_blockno (bufs s i) := bdata s i),
             written := written s @ [(b_blockno (bufs s i), bdata s i)]\<rparr>
      else set_bdata s i (disk s (b_blockno (bufs s i))))"

text \<open>\<open>binit\<close> inserts each buffer at the head of the list.\<close>

definition binit :: "'z kbio_scheme \<Rightarrow> 'z kbio_scheme" where
  "binit s =
     fold (\<lambda>i s. (upd_buf s i (\<lambda>b. b\<lparr>b_lock := initsleeplock\<rparr>))\<lparr>lru := i # lru s\<rparr>) [0..<NBUF] (s\<lparr>lru := []\<rparr>)"

definition block_lock :: "'z kbio_scheme \<Rightarrow> nat \<Rightarrow> 'z kbio_scheme res" where
  "block_lock s i =
     bindr (acquiresleep s (b_lock (bufs s i)) (ChanBufLock i)) (\<lambda>lk.
     Ret (upd_buf s i (\<lambda>b. b\<lparr>b_lock := lk\<rparr>)))"

definition bget :: "'z kbio_scheme \<Rightarrow> u32 \<Rightarrow> u32 \<Rightarrow> (nat \<times> 'z kbio_scheme) res" where
  "bget s dev blockno =
     (case find (\<lambda>i. b_dev (bufs s i) = dev \<and> b_blockno (bufs s i) = blockno) (lru s) of
        Some i \<Rightarrow>
          let s1 = upd_buf s i (\<lambda>b. b\<lparr>b_refcnt := b_refcnt b + 1\<rparr>) in
          bindr (block_lock s1 i) (\<lambda>s2. Ret (i, s2))
      | None \<Rightarrow>
          (case find (\<lambda>i. b_refcnt (bufs s i) = 0) (rev (lru s)) of
             Some i \<Rightarrow>
               let s1 = upd_buf s i (\<lambda>b. b\<lparr>b_dev := dev, b_blockno := blockno, b_valid := False, b_refcnt := 1\<rparr>) in
               bindr (block_lock s1 i) (\<lambda>s2. Ret (i, s2))
           | None \<Rightarrow> Panic ''bget: no buffers''))"

definition bread :: "'z kbio_scheme \<Rightarrow> u32 \<Rightarrow> u32 \<Rightarrow> (nat \<times> 'z kbio_scheme) res" where
  "bread s dev blockno =
     bindr (bget s dev blockno) (\<lambda>(i, s1).
     Ret (i, if \<not> b_valid (bufs s1 i)
             then upd_buf (virtio_disk_rw s1 i False) i (\<lambda>b. b\<lparr>b_valid := True\<rparr>) else s1))"

definition bwrite :: "'z kbio_scheme \<Rightarrow> nat \<Rightarrow> 'z kbio_scheme res" where
  "bwrite s i =
     (if \<not> holdingsleep s (b_lock (bufs s i)) then Panic ''bwrite'' else Ret (virtio_disk_rw s i True))"

definition brelse :: "'z kbio_scheme \<Rightarrow> nat \<Rightarrow> 'z kbio_scheme res" where
  "brelse s i =
     (if \<not> holdingsleep s (b_lock (bufs s i)) then Panic ''brelse''
      else
        let (lk, s1) = releasesleep s (ChanBufLock i);
            s2 = upd_buf s1 i (\<lambda>b. b\<lparr>b_lock := lk\<rparr>);
            s3 = upd_buf s2 i (\<lambda>b. b\<lparr>b_refcnt := b_refcnt b - 1\<rparr>) in
        Ret (if b_refcnt (bufs s3 i) = 0 then s3\<lparr>lru := i # remove1 i (lru s3)\<rparr> else s3))"

definition bpin :: "'z kbio_scheme \<Rightarrow> nat \<Rightarrow> 'z kbio_scheme" where
  "bpin s i = upd_buf s i (\<lambda>b. b\<lparr>b_refcnt := b_refcnt b + 1\<rparr>)"

definition bunpin :: "'z kbio_scheme \<Rightarrow> nat \<Rightarrow> 'z kbio_scheme" where
  "bunpin s i = upd_buf s i (\<lambda>b. b\<lparr>b_refcnt := b_refcnt b - 1\<rparr>)"

end
