(* ===== verification/Log.thy ===== *)
theory Log
  imports Bio
begin

text \<open>
  The redo log of \<^verbatim>\<open>kernel/log.c\<close>: transactions, group commit and recovery, on the buffer cache.  The
  on-disk header block holds the count at offset 0 and the block numbers from offset 4 on.
\<close>

definition MAXOPBLOCKS :: int where "MAXOPBLOCKS = 10"
definition LOGSIZE :: int where "LOGSIZE = MAXOPBLOCKS * 3"

record klog = kbio +
  log_start :: u32
  log_size :: int
  log_outstanding :: int
  log_committing :: bool
  log_dev :: u32
  lh_n :: int
  lh_block :: "nat \<Rightarrow> u32"

text \<open>The iterations \<open>tail, tail + 1, \<dots>\<close> of the loop of \<open>install_trans\<close>, \<open>k\<close> of them.\<close>

fun install_trans_loop :: "'z klog_scheme \<Rightarrow> bool \<Rightarrow> nat \<Rightarrow> nat \<Rightarrow> 'z klog_scheme res" where
  "install_trans_loop s recovering tail 0 = Ret s"
| "install_trans_loop s recovering tail (Suc k) =
     bindr (bread s (log_dev s) (log_start s + of_nat tail + 1)) (\<lambda>(lbuf, s1).
     bindr (bread s1 (log_dev s1) (lh_block s1 tail)) (\<lambda>(dbuf, s2).
     let s3 = set_bdata s2 dbuf (bdata s2 lbuf) in
     bindr (bwrite s3 dbuf) (\<lambda>s4.
     let s5 = (if \<not> recovering then bunpin s4 dbuf else s4) in
     bindr (brelse s5 lbuf) (\<lambda>s6.
     bindr (brelse s6 dbuf) (\<lambda>s7.
       install_trans_loop s7 recovering (Suc tail) k)))))"

definition install_trans :: "'z klog_scheme \<Rightarrow> bool \<Rightarrow> 'z klog_scheme res" where
  "install_trans s recovering = install_trans_loop s recovering 0 (nat (lh_n s))"

definition read_head :: "'z klog_scheme \<Rightarrow> 'z klog_scheme res" where
  "read_head s =
     bindr (bread s (log_dev s) (log_start s)) (\<lambda>(b, s1).
     let lh = bdata s1 b;
         s2 = s1\<lparr>lh_n := sint (ld32 lh 0)\<rparr>;
         s3 = fold (\<lambda>i s. s\<lparr>lh_block := (lh_block s)(i := ld32 lh (4 + 4 * i))\<rparr>) [0..<nat (lh_n s2)] s2 in
     brelse s3 b)"

definition write_head :: "'z klog_scheme \<Rightarrow> 'z klog_scheme res" where
  "write_head s =
     bindr (bread s (log_dev s) (log_start s)) (\<lambda>(b, s1).
     let s2 = set_bdata s1 b (st32 (bdata s1 b) 0 (word_of_int (lh_n s1)));
         s3 = fold (\<lambda>i s. set_bdata s b (st32 (bdata s b) (4 + 4 * i) (lh_block s i))) [0..<nat (lh_n s2)] s2 in
     bindr (bwrite s3 b) (\<lambda>s4. brelse s4 b))"

definition recover_from_log :: "'z klog_scheme \<Rightarrow> 'z klog_scheme res" where
  "recover_from_log s =
     bindr (read_head s) (\<lambda>s1.
     bindr (install_trans s1 True) (\<lambda>s2.
       write_head (s2\<lparr>lh_n := 0\<rparr>)))"

text \<open>
  The arguments \<open>logstart\<close> and \<open>nlog\<close> are the fields of the superblock.  The size check at the start of
  \<open>initlog\<close> compares two constants: the header structure has \<open>4 + 4 * LOGSIZE\<close> bytes.
\<close>

definition initlog :: "'z klog_scheme \<Rightarrow> u32 \<Rightarrow> u32 \<Rightarrow> u32 \<Rightarrow> 'z klog_scheme res" where
  "initlog s dev logstart nlog =
     (if 4 + 4 * LOGSIZE \<ge> int BSIZE then Panic ''initlog: too big logheader''
      else recover_from_log (s\<lparr>log_start := logstart, log_size := sint nlog, log_dev := dev\<rparr>))"

definition begin_op :: "'z klog_scheme \<Rightarrow> 'z klog_scheme res" where
  "begin_op s =
     (if log_committing s then Sleep ChanLog
      else if lh_n s + (log_outstanding s + 1) * MAXOPBLOCKS > LOGSIZE then Sleep ChanLog
      else Ret (s\<lparr>log_outstanding := log_outstanding s + 1\<rparr>))"

fun write_log_loop :: "'z klog_scheme \<Rightarrow> nat \<Rightarrow> nat \<Rightarrow> 'z klog_scheme res" where
  "write_log_loop s tail 0 = Ret s"
| "write_log_loop s tail (Suc k) =
     bindr (bread s (log_dev s) (log_start s + of_nat tail + 1)) (\<lambda>(to, s1).
     bindr (bread s1 (log_dev s1) (lh_block s1 tail)) (\<lambda>(from, s2).
     let s3 = set_bdata s2 to (bdata s2 from) in
     bindr (bwrite s3 to) (\<lambda>s4.
     bindr (brelse s4 from) (\<lambda>s5.
     bindr (brelse s5 to) (\<lambda>s6.
       write_log_loop s6 (Suc tail) k)))))"

definition write_log :: "'z klog_scheme \<Rightarrow> 'z klog_scheme res" where
  "write_log s = write_log_loop s 0 (nat (lh_n s))"

definition commit :: "'z klog_scheme \<Rightarrow> 'z klog_scheme res" where
  "commit s =
     (if lh_n s > 0 then
        bindr (write_log s) (\<lambda>s1.
        bindr (write_head s1) (\<lambda>s2.
        bindr (install_trans s2 False) (\<lambda>s3.
          write_head (s3\<lparr>lh_n := 0\<rparr>))))
      else Ret s)"

definition end_op :: "'z klog_scheme \<Rightarrow> 'z klog_scheme res" where
  "end_op s =
     (let s1 = s\<lparr>log_outstanding := log_outstanding s - 1\<rparr> in
      if log_committing s1 then Panic ''log.committing''
      else if log_outstanding s1 = 0 then
        bindr (commit (s1\<lparr>log_committing := True\<rparr>)) (\<lambda>s2.
        Ret (wakeup (s2\<lparr>log_committing := False\<rparr>) ChanLog))
      else Ret (wakeup s1 ChanLog))"

definition log_write :: "'z klog_scheme \<Rightarrow> nat \<Rightarrow> 'z klog_scheme res" where
  "log_write s b =
     (if lh_n s \<ge> LOGSIZE \<or> lh_n s \<ge> log_size s - 1 then Panic ''too big a transaction''
      else if log_outstanding s < 1 then Panic ''log_write outside of trans''
      else
        let i = (case find (\<lambda>i. lh_block s i = b_blockno (bufs s b)) [0..<nat (lh_n s)] of
                   Some i \<Rightarrow> i | None \<Rightarrow> nat (lh_n s));
            s1 = s\<lparr>lh_block := (lh_block s)(i := b_blockno (bufs s b))\<rparr> in
        Ret (if int i = lh_n s1 then (bpin s1 b)\<lparr>lh_n := lh_n s1 + 1\<rparr> else s1))"

end
