(* ===== verification/Fs.thy ===== *)
theory Fs
  imports Log
begin

text \<open>
  The file system of \<^verbatim>\<open>kernel/fs.c\<close> and its on-disk format, \<^verbatim>\<open>kernel/fs.h\<close>: the block bitmap, inodes, file
  contents, directories and path names.  Every access to a block goes through the buffer cache and
  every change through the log, in the order of the code.

  An inode pointer is its slot in the inode table and a null pointer is \<open>None\<close>.  Messages that the
  code prints for the operator are not part of the model.  Block and inode counters of loops are
  natural numbers: they stay below the sizes in the superblock.
\<close>

section \<open>On-disk format\<close>

definition NDIRECT :: nat where "NDIRECT = 12"
definition NINDIRECT :: nat where "NINDIRECT = BSIZE div 4"
definition MAXFILE :: nat where "MAXFILE = NDIRECT + NINDIRECT"
definition BPB :: nat where "BPB = BSIZE * 8"
definition IPB :: nat where "IPB = BSIZE div 64"
definition DIRSIZ :: nat where "DIRSIZ = 14"
definition NINODE :: nat where "NINODE = 50"
definition ROOTDEV :: u32 where "ROOTDEV = 1"
definition ROOTINO :: u32 where "ROOTINO = 1"
definition FSMAGIC :: u32 where "FSMAGIC = 0x10203040"
definition T_DIR :: u16 where "T_DIR = 1"
definition T_FILE :: u16 where "T_FILE = 2"
definition T_DEVICE :: u16 where "T_DEVICE = 3"

record superblock =
  sb_magic :: u32
  sb_size :: u32
  sb_nblocks :: u32
  sb_ninodes :: u32
  sb_nlog :: u32
  sb_logstart :: u32
  sb_inodestart :: u32
  sb_bmapstart :: u32

definition ld_superblock :: "block \<Rightarrow> superblock" where
  "ld_superblock b =
     \<lparr>sb_magic = ld32 b 0, sb_size = ld32 b 4, sb_nblocks = ld32 b 8, sb_ninodes = ld32 b 12,
      sb_nlog = ld32 b 16, sb_logstart = ld32 b 20, sb_inodestart = ld32 b 24, sb_bmapstart = ld32 b 28\<rparr>"

definition IBLOCK :: "u32 \<Rightarrow> superblock \<Rightarrow> u32" where
  "IBLOCK i sb = i div of_nat IPB + sb_inodestart sb"

definition BBLOCK :: "u32 \<Rightarrow> superblock \<Rightarrow> u32" where
  "BBLOCK b sb = b div of_nat BPB + sb_bmapstart sb"

record inode =
  i_dev :: u32
  i_inum :: u32
  i_ref :: int
  i_lock :: sleeplock
  i_valid :: bool
  i_type :: u16
  i_major :: u16
  i_minor :: u16
  i_nlink :: u16
  i_size :: u32
  i_addrs :: "nat \<Rightarrow> u32"

record kfs = klog +
  sb :: superblock
  inodes :: "nat \<Rightarrow> inode"

definition upd_inode :: "'z kfs_scheme \<Rightarrow> nat \<Rightarrow> (inode \<Rightarrow> inode) \<Rightarrow> 'z kfs_scheme" where
  "upd_inode s i f = s\<lparr>inodes := (inodes s)(i := f (inodes s i))\<rparr>"

section \<open>Superblock and block allocator\<close>

definition readsb :: "'z kfs_scheme \<Rightarrow> u32 \<Rightarrow> 'z kfs_scheme res" where
  "readsb s dev =
     bindr (bread s dev 1) (\<lambda>(bp, s1). brelse (s1\<lparr>sb := ld_superblock (bdata s1 bp)\<rparr>) bp)"

definition fsinit :: "'z kfs_scheme \<Rightarrow> u32 \<Rightarrow> 'z kfs_scheme res" where
  "fsinit s dev =
     bindr (readsb s dev) (\<lambda>s1.
     if sb_magic (sb s1) \<noteq> FSMAGIC then Panic ''invalid file system''
     else initlog s1 dev (sb_logstart (sb s1)) (sb_nlog (sb s1)))"

definition bzero :: "'z kfs_scheme \<Rightarrow> u32 \<Rightarrow> u32 \<Rightarrow> 'z kfs_scheme res" where
  "bzero s dev bno =
     bindr (bread s dev bno) (\<lambda>(bp, s1).
     let s2 = set_bdata s1 bp (blk_fill (bdata s1 bp) 0 BSIZE 0) in
     bindr (log_write s2 bp) (\<lambda>s3. brelse s3 bp))"

definition bit_mask :: "nat \<Rightarrow> u8" where "bit_mask bi = push_bit (bi mod 8) 1"

function balloc_bits :: "block \<Rightarrow> nat \<Rightarrow> nat \<Rightarrow> nat \<Rightarrow> nat option" where
  "balloc_bits d b sz bi =
     (if bi < BPB \<and> b + bi < sz then
        if d (bi div 8) AND bit_mask bi = 0 then Some bi else balloc_bits d b sz (Suc bi)
      else None)"
  by pat_completeness auto
termination
  by (relation "measure (\<lambda>(d, b, sz, bi). BPB - bi)") auto

declare balloc_bits.simps [simp del]

function balloc_loop :: "'z kfs_scheme \<Rightarrow> u32 \<Rightarrow> nat \<Rightarrow> nat \<Rightarrow> (u32 \<times> 'z kfs_scheme) res" where
  "balloc_loop s dev b sz =
     (if b < sz then
        bindr (bread s dev (BBLOCK (of_nat b) (sb s))) (\<lambda>(bp, s1).
        case balloc_bits (bdata s1 bp) b sz 0 of
          Some bi \<Rightarrow>
            let s2 = set_bdata s1 bp ((bdata s1 bp)(bi div 8 := bdata s1 bp (bi div 8) OR bit_mask bi)) in
            bindr (log_write s2 bp) (\<lambda>s3.
            bindr (brelse s3 bp) (\<lambda>s4.
            bindr (bzero s4 dev (of_nat (b + bi))) (\<lambda>s5.
              Ret (of_nat (b + bi), s5))))
        | None \<Rightarrow> bindr (brelse s1 bp) (\<lambda>s2. balloc_loop s2 dev (b + BPB) sz))
      else Ret (0, s))"
  by pat_completeness auto
termination
  by (relation "measure (\<lambda>(s, dev, b, sz). sz - b)") (auto simp: BPB_def BSIZE_def)

declare balloc_loop.simps [simp del]

definition balloc :: "'z kfs_scheme \<Rightarrow> u32 \<Rightarrow> (u32 \<times> 'z kfs_scheme) res" where
  "balloc s dev = balloc_loop s dev 0 (unat (sb_size (sb s)))"

definition bfree :: "'z kfs_scheme \<Rightarrow> u32 \<Rightarrow> u32 \<Rightarrow> 'z kfs_scheme res" where
  "bfree s dev b =
     bindr (bread s dev (BBLOCK b (sb s))) (\<lambda>(bp, s1).
     let bi = unat b mod BPB;
         d = bdata s1 bp in
     if d (bi div 8) AND bit_mask bi = 0 then Panic ''freeing free block''
     else
       let s2 = set_bdata s1 bp (d(bi div 8 := d (bi div 8) AND NOT (bit_mask bi))) in
       bindr (log_write s2 bp) (\<lambda>s3. brelse s3 bp))"

section \<open>Inodes\<close>

definition iinit :: "'z kfs_scheme \<Rightarrow> 'z kfs_scheme" where
  "iinit s = fold (\<lambda>i s. upd_inode s i (\<lambda>ip. ip\<lparr>i_lock := initsleeplock\<rparr>)) [0..<NINODE] s"

text \<open>The offset of a dinode in its block, and the dinode's fields.\<close>

definition dinode_off :: "u32 \<Rightarrow> nat" where "dinode_off inum = unat inum mod IPB * 64"

definition ld_dinode :: "block \<Rightarrow> nat \<Rightarrow> inode \<Rightarrow> inode" where
  "ld_dinode d off ip =
     ip\<lparr>i_type := ld16 d off, i_major := ld16 d (off + 2), i_minor := ld16 d (off + 4),
        i_nlink := ld16 d (off + 6), i_size := ld32 d (off + 8),
        i_addrs := (\<lambda>k. if k < NDIRECT + 1 then ld32 d (off + 12 + 4 * k) else i_addrs ip k)\<rparr>"

definition st_dinode :: "block \<Rightarrow> nat \<Rightarrow> inode \<Rightarrow> block" where
  "st_dinode d off ip =
     fold (\<lambda>k d. st32 d (off + 12 + 4 * k) (i_addrs ip k)) [0..<NDIRECT + 1]
       (st32 (st16 (st16 (st16 (st16 d off (i_type ip)) (off + 2) (i_major ip)) (off + 4) (i_minor ip))
         (off + 6) (i_nlink ip)) (off + 8) (i_size ip))"

definition iget :: "'z kfs_scheme \<Rightarrow> u32 \<Rightarrow> u32 \<Rightarrow> (nat \<times> 'z kfs_scheme) res" where
  "iget s dev inum =
     (case find (\<lambda>i. i_ref (inodes s i) > 0 \<and> i_dev (inodes s i) = dev \<and> i_inum (inodes s i) = inum)
        [0..<NINODE] of
        Some i \<Rightarrow> Ret (i, upd_inode s i (\<lambda>ip. ip\<lparr>i_ref := i_ref ip + 1\<rparr>))
      | None \<Rightarrow>
          (case find (\<lambda>i. i_ref (inodes s i) = 0) [0..<NINODE] of
             None \<Rightarrow> Panic ''iget: no inodes''
           | Some i \<Rightarrow>
               Ret (i, upd_inode s i (\<lambda>ip. ip\<lparr>i_dev := dev, i_inum := inum, i_ref := 1, i_valid := False\<rparr>))))"

function ialloc_loop :: "'z kfs_scheme \<Rightarrow> u32 \<Rightarrow> u16 \<Rightarrow> nat \<Rightarrow> nat \<Rightarrow> (nat option \<times> 'z kfs_scheme) res" where
  "ialloc_loop s dev type inum ninodes =
     (if inum < ninodes then
        bindr (bread s dev (IBLOCK (of_nat inum) (sb s))) (\<lambda>(bp, s1).
        let off = dinode_off (of_nat inum);
            d = bdata s1 bp in
        if ld16 d off = 0 then
          let s2 = set_bdata s1 bp (st16 (blk_fill d off 64 0) off type) in
          bindr (log_write s2 bp) (\<lambda>s3.
          bindr (brelse s3 bp) (\<lambda>s4.
          bindr (iget s4 dev (of_nat inum)) (\<lambda>(ip, s5). Ret (Some ip, s5))))
        else bindr (brelse s1 bp) (\<lambda>s2. ialloc_loop s2 dev type (Suc inum) ninodes))
      else Ret (None, s))"
  by pat_completeness auto
termination
  by (relation "measure (\<lambda>(s, dev, type, inum, ninodes). ninodes - inum)") auto

declare ialloc_loop.simps [simp del]

definition ialloc :: "'z kfs_scheme \<Rightarrow> u32 \<Rightarrow> u16 \<Rightarrow> (nat option \<times> 'z kfs_scheme) res" where
  "ialloc s dev type = ialloc_loop s dev type 1 (unat (sb_ninodes (sb s)))"

definition iupdate :: "'z kfs_scheme \<Rightarrow> nat \<Rightarrow> 'z kfs_scheme res" where
  "iupdate s ip =
     bindr (bread s (i_dev (inodes s ip)) (IBLOCK (i_inum (inodes s ip)) (sb s))) (\<lambda>(bp, s1).
     let s2 = set_bdata s1 bp (st_dinode (bdata s1 bp) (dinode_off (i_inum (inodes s1 ip))) (inodes s1 ip)) in
     bindr (log_write s2 bp) (\<lambda>s3. brelse s3 bp))"

definition idup :: "'z kfs_scheme \<Rightarrow> nat \<Rightarrow> 'z kfs_scheme" where
  "idup s ip = upd_inode s ip (\<lambda>i. i\<lparr>i_ref := i_ref i + 1\<rparr>)"

definition ilock :: "'z kfs_scheme \<Rightarrow> nat \<Rightarrow> 'z kfs_scheme res" where
  "ilock s ip =
     (if i_ref (inodes s ip) < 1 then Panic ''ilock''
      else
        bindr (acquiresleep s (i_lock (inodes s ip)) (ChanInodeLock ip)) (\<lambda>lk.
        let s1 = upd_inode s ip (\<lambda>i. i\<lparr>i_lock := lk\<rparr>) in
        if \<not> i_valid (inodes s1 ip) then
          bindr (bread s1 (i_dev (inodes s1 ip)) (IBLOCK (i_inum (inodes s1 ip)) (sb s1))) (\<lambda>(bp, s2).
          let s3 = upd_inode s2 ip (ld_dinode (bdata s2 bp) (dinode_off (i_inum (inodes s2 ip)))) in
          bindr (brelse s3 bp) (\<lambda>s4.
          let s5 = upd_inode s4 ip (\<lambda>i. i\<lparr>i_valid := True\<rparr>) in
          if i_type (inodes s5 ip) = 0 then Panic ''ilock: no type'' else Ret s5))
        else Ret s1))"

definition iunlock :: "'z kfs_scheme \<Rightarrow> nat \<Rightarrow> 'z kfs_scheme res" where
  "iunlock s ip =
     (if \<not> holdingsleep s (i_lock (inodes s ip)) \<or> i_ref (inodes s ip) < 1 then Panic ''iunlock''
      else
        let (lk, s1) = releasesleep s (ChanInodeLock ip) in
        Ret (upd_inode s1 ip (\<lambda>i. i\<lparr>i_lock := lk\<rparr>)))"

section \<open>Inode content\<close>

definition set_addr :: "'z kfs_scheme \<Rightarrow> nat \<Rightarrow> nat \<Rightarrow> u32 \<Rightarrow> 'z kfs_scheme" where
  "set_addr s ip k a = upd_inode s ip (\<lambda>i. i\<lparr>i_addrs := (i_addrs i)(k := a)\<rparr>)"

text \<open>\<open>if((addr = ip->addrs[k]) == 0)\<close> allocate a block for it; the result is 0 when the disk is full.\<close>

definition bmap_slot :: "'z kfs_scheme \<Rightarrow> nat \<Rightarrow> nat \<Rightarrow> (u32 \<times> 'z kfs_scheme) res" where
  "bmap_slot s ip k =
     (let addr = i_addrs (inodes s ip) k in
      if addr = 0 then
        bindr (balloc s (i_dev (inodes s ip))) (\<lambda>(addr, s1).
        if addr = 0 then Ret (0, s1) else Ret (addr, set_addr s1 ip k addr))
      else Ret (addr, s))"

definition bmap :: "'z kfs_scheme \<Rightarrow> nat \<Rightarrow> u32 \<Rightarrow> (u32 \<times> 'z kfs_scheme) res" where
  "bmap s ip bn =
     (if unat bn < NDIRECT then bmap_slot s ip (unat bn)
      else
        let bn = unat bn - NDIRECT in
        if bn < NINDIRECT then
          bindr (bmap_slot s ip NDIRECT) (\<lambda>(addr, s1).
          if addr = 0 then Ret (0, s1)
          else
            bindr (bread s1 (i_dev (inodes s1 ip)) addr) (\<lambda>(bp, s2).
            let addr = ld32 (bdata s2 bp) (4 * bn) in
            if addr = 0 then
              bindr (balloc s2 (i_dev (inodes s2 ip))) (\<lambda>(addr, s3).
              bindr (if addr \<noteq> 0 then log_write (set_bdata s3 bp (st32 (bdata s3 bp) (4 * bn) addr)) bp else Ret s3) (\<lambda>s4.
              bindr (brelse s4 bp) (\<lambda>s5. Ret (addr, s5))))
            else bindr (brelse s2 bp) (\<lambda>s3. Ret (addr, s3))))
        else Panic ''bmap: out of range'')"

fun itrunc_direct :: "'z kfs_scheme \<Rightarrow> nat \<Rightarrow> nat \<Rightarrow> nat \<Rightarrow> 'z kfs_scheme res" where
  "itrunc_direct s ip i 0 = Ret s"
| "itrunc_direct s ip i (Suc k) =
     bindr (if i_addrs (inodes s ip) i \<noteq> 0
            then bindr (bfree s (i_dev (inodes s ip)) (i_addrs (inodes s ip) i)) (\<lambda>s1. Ret (set_addr s1 ip i 0))
            else Ret s) (\<lambda>s2.
     itrunc_direct s2 ip (Suc i) k)"

fun itrunc_indirect :: "'z kfs_scheme \<Rightarrow> nat \<Rightarrow> nat \<Rightarrow> nat \<Rightarrow> nat \<Rightarrow> 'z kfs_scheme res" where
  "itrunc_indirect s ip bp j 0 = Ret s"
| "itrunc_indirect s ip bp j (Suc k) =
     bindr (if ld32 (bdata s bp) (4 * j) \<noteq> 0
            then bfree s (i_dev (inodes s ip)) (ld32 (bdata s bp) (4 * j)) else Ret s) (\<lambda>s1.
     itrunc_indirect s1 ip bp (Suc j) k)"

definition itrunc :: "'z kfs_scheme \<Rightarrow> nat \<Rightarrow> 'z kfs_scheme res" where
  "itrunc s ip =
     bindr (itrunc_direct s ip 0 NDIRECT) (\<lambda>s1.
     bindr (if i_addrs (inodes s1 ip) NDIRECT \<noteq> 0 then
              bindr (bread s1 (i_dev (inodes s1 ip)) (i_addrs (inodes s1 ip) NDIRECT)) (\<lambda>(bp, s2).
              bindr (itrunc_indirect s2 ip bp 0 NINDIRECT) (\<lambda>s3.
              bindr (brelse s3 bp) (\<lambda>s4.
              bindr (bfree s4 (i_dev (inodes s4 ip)) (i_addrs (inodes s4 ip) NDIRECT)) (\<lambda>s5.
                Ret (set_addr s5 ip NDIRECT 0)))))
            else Ret s1) (\<lambda>s6.
     iupdate (upd_inode s6 ip (\<lambda>i. i\<lparr>i_size := 0\<rparr>)) ip))"

text \<open>
  \<open>iput\<close>.  The sleep lock is free when the reference count is 1, which the code's comment argues; a
  run in which it is not would sleep.
\<close>

definition iput :: "'z kfs_scheme \<Rightarrow> nat \<Rightarrow> 'z kfs_scheme res" where
  "iput s ip =
     bindr (if i_ref (inodes s ip) = 1 \<and> i_valid (inodes s ip) \<and> i_nlink (inodes s ip) = 0 then
              bindr (acquiresleep s (i_lock (inodes s ip)) (ChanInodeLock ip)) (\<lambda>lk.
              let s1 = upd_inode s ip (\<lambda>i. i\<lparr>i_lock := lk\<rparr>) in
              bindr (itrunc s1 ip) (\<lambda>s2.
              let s3 = upd_inode s2 ip (\<lambda>i. i\<lparr>i_type := 0\<rparr>) in
              bindr (iupdate s3 ip) (\<lambda>s4.
              let s5 = upd_inode s4 ip (\<lambda>i. i\<lparr>i_valid := False\<rparr>);
                  (lk, s6) = releasesleep s5 (ChanInodeLock ip) in
              Ret (upd_inode s6 ip (\<lambda>i. i\<lparr>i_lock := lk\<rparr>)))))
            else Ret s) (\<lambda>s7.
     Ret (upd_inode s7 ip (\<lambda>i. i\<lparr>i_ref := i_ref i - 1\<rparr>)))"

definition iunlockput :: "'z kfs_scheme \<Rightarrow> nat \<Rightarrow> 'z kfs_scheme res" where
  "iunlockput s ip = bindr (iunlock s ip) (\<lambda>s1. iput s1 ip)"

record stat =
  st_dev :: u32
  st_ino :: u32
  st_type :: u16
  st_nlink :: u16
  st_size :: u64

definition stati :: "'z kfs_scheme \<Rightarrow> nat \<Rightarrow> stat" where
  "stati s ip =
     \<lparr>st_dev = i_dev (inodes s ip), st_ino = i_inum (inodes s ip), st_type = i_type (inodes s ip),
      st_nlink = i_nlink (inodes s ip), st_size = ucast (i_size (inodes s ip))\<rparr>"

section \<open>Reading and writing\<close>

text \<open>\<open>m = min(n - tot, BSIZE - off % BSIZE)\<close>\<close>

definition io_chunk :: "u32 \<Rightarrow> u32 \<Rightarrow> u32 \<Rightarrow> u32" where
  "io_chunk n tot off = min (n - tot) (of_nat BSIZE - off mod of_nat BSIZE)"

lemma io_chunk_decreases:
  assumes "tot < n"
  shows "unat n - unat (tot + io_chunk n tot off) < unat n - unat tot"
proof -
  have "unat (off mod 1024) < 1024" by (simp add: unat_mod)
  then have "unat (1024 - off mod 1024) = 1024 - unat (off mod 1024)"
    by (subst unat_sub_if') (simp_all add: word_le_nat_alt)
  then have room: "0 < unat (1024 - off mod 1024 :: u32)"
    using \<open>unat (off mod 1024) < 1024\<close> by simp
  have nt: "unat (n - tot) = unat n - unat tot"
    using assms by (simp add: unat_sub word_less_nat_alt word_le_nat_alt)
  have m: "0 < unat (io_chunk n tot off)" "unat (io_chunk n tot off) \<le> unat n - unat tot"
    using assms room by (auto simp: io_chunk_def BSIZE_def min_def nt word_le_nat_alt word_less_nat_alt)
  have "unat tot + unat (io_chunk n tot off) \<le> unat n"
    using m(2) assms by (simp add: word_less_nat_alt)
  then have "unat (tot + io_chunk n tot off) = unat tot + unat (io_chunk n tot off)"
    using unsigned_less [of n, where ?'a = nat] by (simp add: unat_word_ariths)
  then show ?thesis using m assms by (simp add: word_less_nat_alt)
qed

function readi_loop ::
  "'z kfs_scheme \<Rightarrow> nat \<Rightarrow> dst \<Rightarrow> u32 \<Rightarrow> u32 \<Rightarrow> u32 \<Rightarrow> u8 list \<Rightarrow> (u32 \<times> u8 list \<times> 'z kfs_scheme) res"
where
  "readi_loop s ip d off n tot obj =
     (if tot < n then
        bindr (bmap s ip (off div of_nat BSIZE)) (\<lambda>(addr, s1).
        if addr = 0 then Ret (tot, obj, s1)
        else
          bindr (bread s1 (i_dev (inodes s1 ip)) addr) (\<lambda>(bp, s2).
          let m = io_chunk n tot off;
              (r, obj, s3) = either_copyout s2 d obj (blk_get (bdata s2 bp) (unat (off mod of_nat BSIZE)) (unat m)) in
          bindr (brelse s3 bp) (\<lambda>s4.
          if r = -1 then Ret (-1, obj, s4)
          else readi_loop s4 ip (dst_add d m) (off + m) n (tot + m) obj)))
      else Ret (tot, obj, s))"
  by pat_completeness auto
termination
  by (relation "measure (\<lambda>(s, ip, d, off, n, tot, obj). unat n - unat tot)") (auto intro: io_chunk_decreases)

declare readi_loop.simps [simp del]

definition readi ::
  "'z kfs_scheme \<Rightarrow> nat \<Rightarrow> dst \<Rightarrow> u32 \<Rightarrow> u32 \<Rightarrow> (u32 \<times> u8 list \<times> 'z kfs_scheme) res"
where
  "readi s ip d off n =
     (if off > i_size (inodes s ip) \<or> off + n < off then Ret (0, [], s)
      else
        let n = (if off + n > i_size (inodes s ip) then i_size (inodes s ip) - off else n) in
        readi_loop s ip d off n 0 [])"

function writei_loop ::
  "'z kfs_scheme \<Rightarrow> nat \<Rightarrow> src \<Rightarrow> u32 \<Rightarrow> u32 \<Rightarrow> u32 \<Rightarrow> (u32 \<times> u32 \<times> 'z kfs_scheme) res"
where
  "writei_loop s ip d off n tot =
     (if tot < n then
        bindr (bmap s ip (off div of_nat BSIZE)) (\<lambda>(addr, s1).
        if addr = 0 then Ret (tot, off, s1)
        else
          bindr (bread s1 (i_dev (inodes s1 ip)) addr) (\<lambda>(bp, s2).
          let m = io_chunk n tot off;
              (r, bs) = either_copyin s2 d (unat m);
              s3 = set_bdata s2 bp (blk_put (bdata s2 bp) (unat (off mod of_nat BSIZE)) bs) in
          if r = -1 then bindr (brelse s3 bp) (\<lambda>s4. Ret (tot, off, s4))
          else
            bindr (log_write s3 bp) (\<lambda>s4.
            bindr (brelse s4 bp) (\<lambda>s5.
              writei_loop s5 ip (src_add d m) (off + m) n (tot + m)))))
      else Ret (tot, off, s))"
  by pat_completeness auto
termination
  by (relation "measure (\<lambda>(s, ip, d, off, n, tot). unat n - unat tot)") (auto intro: io_chunk_decreases)

declare writei_loop.simps [simp del]

definition writei :: "'z kfs_scheme \<Rightarrow> nat \<Rightarrow> src \<Rightarrow> u32 \<Rightarrow> u32 \<Rightarrow> (u32 \<times> 'z kfs_scheme) res" where
  "writei s ip d off n =
     (if off > i_size (inodes s ip) \<or> off + n < off then Ret (-1, s)
      else if unat (off + n) > MAXFILE * BSIZE then Ret (-1, s)
      else
        bindr (writei_loop s ip d off n 0) (\<lambda>(tot, off, s1).
        let s2 = (if off > i_size (inodes s1 ip) then upd_inode s1 ip (\<lambda>i. i\<lparr>i_size := off\<rparr>) else s1) in
        bindr (iupdate s2 ip) (\<lambda>s3. Ret (tot, s3))))"

end
