(* ===== verification/BlockCache.thy ===== *)
theory BlockCache
  imports Bio
begin

text \<open>
  What the buffer cache promises.  An abstract store (\<open>acache\<close>) has the current contents of every block, how
  many references each block has in the cache, which blocks are unlocked, the disk and the writes made
  to it.  Every operation of \<^verbatim>\<open>kernel/bio.c\<close> acts on it as the corresponding operation of the store, as long
  as the invariant \<open>bok\<close> holds: at most one buffer per block, locked buffers are referenced, and a buffer
  that nobody references agrees with the disk, so that recycling it loses nothing.  The locale is the
  contract the log and the file system use.
\<close>


section \<open>wakeup in closed form\<close>

definition waken :: "'z kproc_scheme \<Rightarrow> chan \<Rightarrow> nat \<Rightarrow> nat \<Rightarrow> proc" where
  "waken s c n = (\<lambda>p. if p < n \<and> p \<noteq> curp s \<and> p_state (procs s p) = SLEEPING \<and> p_chan (procs s p) = c
     then (procs s p)\<lparr>p_state := RUNNABLE\<rparr> else procs s p)"

lemma wakeup_upto: "fold (wakeup_one c) [0..<n] s = s\<lparr>procs := waken s c n\<rparr>"
proof (induction n)
  case 0
  then show ?case by (simp add: waken_def)
next
  case (Suc n)
  have "waken s c (Suc n) = (if n \<noteq> curp s \<and> p_state (procs s n) = SLEEPING \<and> p_chan (procs s n) = c
      then (waken s c n)(n := (procs s n)\<lparr>p_state := RUNNABLE\<rparr>) else waken s c n)"
    by (auto simp: waken_def fun_eq_iff less_Suc_eq)
  then show ?case using Suc by (simp add: wakeup_one_def upd_proc_def waken_def)
qed

lemma wakeup_eq: "wakeup s c = s\<lparr>procs := waken s c NPROC\<rparr>"
  by (simp add: wakeup_def wakeup_upto)

lemma waken_fields [simp]:
  "p_pid (waken s c n p) = p_pid (procs s p)" "p_chan (waken s c n p) = p_chan (procs s p)"
  "p_parent (waken s c n p) = p_parent (procs s p)" "p_killed (waken s c n p) = p_killed (procs s p)"
  "p_pagetable (waken s c n p) = p_pagetable (procs s p)" "p_sz (waken s c n p) = p_sz (procs s p)"
  "p_cwd (waken s c n p) = p_cwd (procs s p)" "p_ofile (waken s c n p) = p_ofile (procs s p)"
  "p_trapframe (waken s c n p) = p_trapframe (procs s p)"
  by (simp_all add: waken_def)

section \<open>The cache as an abstract store\<close>

record acache =
  av :: "u32 \<Rightarrow> block"
  ar :: "u32 \<Rightarrow> nat"
  af :: "u32 \<Rightarrow> bool"
  ad :: "u32 \<Rightarrow> block"
  aw :: "(u32 \<times> block) list"

definition slot_of :: "'z kbio_scheme \<Rightarrow> u32 \<Rightarrow> u32 \<Rightarrow> nat option" where
  "slot_of s d b = find (\<lambda>i. b_dev (bufs s i) = d \<and> b_blockno (bufs s i) = b) (lru s)"

definition babs :: "u32 \<Rightarrow> 'z kbio_scheme \<Rightarrow> acache" where
  "babs d s =
     \<lparr>av = (\<lambda>b. case slot_of s d b of None \<Rightarrow> disk s b
               | Some i \<Rightarrow> if b_valid (bufs s i) then bdata s i else disk s b),
      ar = (\<lambda>b. case slot_of s d b of None \<Rightarrow> 0 | Some i \<Rightarrow> unat (b_refcnt (bufs s i))),
      af = (\<lambda>b. case slot_of s d b of None \<Rightarrow> True | Some i \<Rightarrow> \<not> sl_locked (b_lock (bufs s i))),
      ad = disk s, aw = written s\<rparr>"

definition bok :: "u32 \<Rightarrow> 'z kbio_scheme \<Rightarrow> bool" where
  "bok d s \<longleftrightarrow>
     distinct (lru s) \<and> set (lru s) = {..<NBUF} \<and>
     (\<forall>i<NBUF. \<forall>j<NBUF. b_dev (bufs s i) = d \<and> b_dev (bufs s j) = d \<and>
        b_blockno (bufs s i) = b_blockno (bufs s j) \<longrightarrow> i = j) \<and>
     (\<forall>i<NBUF. b_dev (bufs s i) \<noteq> d \<longrightarrow> b_refcnt (bufs s i) = 0) \<and>
     (\<forall>i<NBUF. sl_locked (b_lock (bufs s i)) \<longrightarrow> b_refcnt (bufs s i) \<noteq> 0) \<and>
     (\<forall>i<NBUF. b_dev (bufs s i) = d \<and> b_valid (bufs s i) \<and> b_refcnt (bufs s i) = 0 \<longrightarrow>
        bdata s i = disk s (b_blockno (bufs s i)))"

lemma find_SomeD: "find P xs = Some x \<Longrightarrow> x \<in> set xs \<and> P x"
  by (induction xs) (auto split: if_splits)

lemma slot_of_Some:
  "bok d s \<Longrightarrow> slot_of s d b = Some i \<longleftrightarrow> i < NBUF \<and> b_dev (bufs s i) = d \<and> b_blockno (bufs s i) = b"
proof
  assume ok: "bok d s" and "slot_of s d b = Some i"
  then show "i < NBUF \<and> b_dev (bufs s i) = d \<and> b_blockno (bufs s i) = b"
    by (auto simp: slot_of_def bok_def dest!: find_SomeD)
next
  assume ok: "bok d s" and i: "i < NBUF \<and> b_dev (bufs s i) = d \<and> b_blockno (bufs s i) = b"
  show "slot_of s d b = Some i"
  proof (cases "slot_of s d b")
    case None
    then show ?thesis using ok i by (auto simp: slot_of_def find_None_iff bok_def)
  next
    case (Some j)
    then have "j < NBUF \<and> b_dev (bufs s j) = d \<and> b_blockno (bufs s j) = b"
      using ok by (auto simp: slot_of_def bok_def dest!: find_SomeD)
    with ok i have "j = i" unfolding bok_def by metis
    with Some show ?thesis by simp
  qed
qed

lemma slot_of_None:
  "bok d s \<Longrightarrow> slot_of s d b = None \<longleftrightarrow> (\<forall>i<NBUF. \<not> (b_dev (bufs s i) = d \<and> b_blockno (bufs s i) = b))"
  using slot_of_Some [of d s b] by (metis not_None_eq)

text \<open>Buffer \<open>i\<close> may be given to block \<open>b\<close>: it caches it already, or it is unused and nothing does.\<close>

definition usable :: "u32 \<Rightarrow> 'z kbio_scheme \<Rightarrow> nat \<Rightarrow> u32 \<Rightarrow> bool" where
  "usable d s i b \<longleftrightarrow>
     i < NBUF \<and> (slot_of s d b = Some i \<or> slot_of s d b = None \<and> b_refcnt (bufs s i) = 0)"

lemma bok_upd:
  assumes ok: "bok d s" and u: "usable d s i b"
    and B: "b_dev B = d" "b_blockno B = b" "sl_locked (b_lock B) \<Longrightarrow> b_refcnt B \<noteq> 0"
      "b_refcnt B = 0 \<Longrightarrow> b_valid B \<Longrightarrow> b_data B = disk s b"
  shows "bok d (s\<lparr>bufs := (bufs s)(i := B)\<rparr>)"
proof -
  have "i < NBUF" using u by (simp add: usable_def)
  have other: "\<not> (b_dev (bufs s j) = d \<and> b_blockno (bufs s j) = b)" if "j < NBUF" "j \<noteq> i" for j
    using u that by (auto simp: usable_def slot_of_None [OF ok] dest: slot_of_Some [OF ok, THEN iffD1]
        slot_of_Some [OF ok, of b j, THEN iffD2, OF conjI])
  show ?thesis
    using ok B other \<open>i < NBUF\<close> unfolding bok_def by (simp add: fun_upd_def) metis
qed

lemma slot_of_upd:
  assumes ok: "bok d s" and u: "usable d s i b" and ok': "bok d (s\<lparr>bufs := (bufs s)(i := B)\<rparr>)"
    and B: "b_dev B = d" "b_blockno B = b"
  shows "slot_of (s\<lparr>bufs := (bufs s)(i := B)\<rparr>) d c =
    (if c = b then Some i else case slot_of s d c of None \<Rightarrow> None | Some j \<Rightarrow> if j = i then None else Some j)"
proof -
  have i: "i < NBUF" using u by (simp add: usable_def)
  show ?thesis
  proof (cases "slot_of (s\<lparr>bufs := (bufs s)(i := B)\<rparr>) d c")
    case None
    then have none: "\<not> (b_dev (((bufs s)(i := B)) j) = d \<and> b_blockno (((bufs s)(i := B)) j) = c)" if "j < NBUF" for j
      using that slot_of_None [OF ok'] by auto
    then have "c \<noteq> b" using none [OF i] B by auto
    moreover have "j = i" if "slot_of s d c = Some j" for j
      using that none [of j] by (cases "j = i") (auto simp: slot_of_Some [OF ok])
    ultimately show ?thesis using None by (auto split: option.splits)
  next
    case (Some j)
    note j = Some [unfolded slot_of_Some [OF ok']]
    have new: "slot_of (s\<lparr>bufs := (bufs s)(i := B)\<rparr>) d b = Some i"
      using i B by (simp add: slot_of_Some [OF ok'])
    show ?thesis
    proof (cases "j = i")
      case True
      then show ?thesis using j B new by simp
    next
      case False
      then have "slot_of s d c = Some j" using j by (simp add: slot_of_Some [OF ok])
      moreover have "c \<noteq> b" using Some new False by auto
      ultimately show ?thesis using Some False by simp
    qed
  qed
qed

lemma babs_upd:
  assumes ok: "bok d s" and u: "usable d s i b"
    and B: "b_dev B = d" "b_blockno B = b" "sl_locked (b_lock B) \<Longrightarrow> b_refcnt B \<noteq> 0"
      "b_refcnt B = 0 \<Longrightarrow> b_valid B \<Longrightarrow> b_data B = disk s b"
  shows "babs d (s\<lparr>bufs := (bufs s)(i := B)\<rparr>) = (babs d s)\<lparr>
    av := (av (babs d s))(b := if b_valid B then b_data B else disk s b),
    ar := (ar (babs d s))(b := unat (b_refcnt B)), af := (af (babs d s))(b := \<not> sl_locked (b_lock B))\<rparr>"
proof -
  note slot = slot_of_upd [OF ok u bok_upd [OF assms] B(1,2)]
  have evicted: "b_refcnt (bufs s i) = 0 \<and> \<not> sl_locked (b_lock (bufs s i)) \<and>
      (b_valid (bufs s i) \<longrightarrow> bdata s i = disk s c)" if "slot_of s d c = Some i" "c \<noteq> b" for c
  proof -
    have c: "i < NBUF" "b_dev (bufs s i) = d" "b_blockno (bufs s i) = c"
      using that by (simp_all add: slot_of_Some [OF ok])
    then have "slot_of s d b \<noteq> Some i" using that by (auto simp: slot_of_Some [OF ok])
    then have "b_refcnt (bufs s i) = 0" using u by (simp add: usable_def)
    with ok c show ?thesis by (auto simp: bok_def)
  qed
  show ?thesis
    by (auto simp: babs_def slot fun_eq_iff split: option.splits if_splits dest: evicted)
qed


section \<open>The operations on the abstract store\<close>

definition a_read :: "u32 \<Rightarrow> acache \<Rightarrow> acache" where
  "a_read b c = c\<lparr>ar := (ar c)(b := ar c b + 1), af := (af c)(b := False)\<rparr>"

definition a_set :: "u32 \<Rightarrow> block \<Rightarrow> acache \<Rightarrow> acache" where
  "a_set b x c = c\<lparr>av := (av c)(b := x)\<rparr>"

definition a_write :: "u32 \<Rightarrow> acache \<Rightarrow> acache" where
  "a_write b c = c\<lparr>ad := (ad c)(b := av c b), aw := aw c @ [(b, av c b)]\<rparr>"

definition a_pin :: "u32 \<Rightarrow> acache \<Rightarrow> acache" where
  "a_pin b c = c\<lparr>ar := (ar c)(b := ar c b + 1)\<rparr>"

definition a_unpin :: "u32 \<Rightarrow> acache \<Rightarrow> acache" where
  "a_unpin b c = c\<lparr>ar := (ar c)(b := ar c b - 1)\<rparr>"

definition a_rel :: "u32 \<Rightarrow> acache \<Rightarrow> acache" where
  "a_rel b c = c\<lparr>ar := (ar c)(b := ar c b - 1), af := (af c)(b := True)\<rparr>"

text \<open>Block \<open>y\<close> becomes a copy of block \<open>x\<close>, in the cache and on the disk.\<close>

definition a_copy :: "u32 \<Rightarrow> u32 \<Rightarrow> acache \<Rightarrow> acache" where
  "a_copy x y c = c\<lparr>av := (av c)(y := av c x), ad := (ad c)(y := av c x), aw := aw c @ [(y, av c x)]\<rparr>"

definition a_room :: "u32 \<Rightarrow> acache \<Rightarrow> bool" where
  "a_room b c \<longleftrightarrow> 0 < ar c b \<or> card {x. 0 < ar c x} < NBUF"

text \<open>The current process holds the lock of buffer \<open>i\<close>, which caches block \<open>b\<close>.\<close>

definition bholds :: "u32 \<Rightarrow> 'z kbio_scheme \<Rightarrow> nat \<Rightarrow> u32 \<Rightarrow> bool" where
  "bholds d s i b \<longleftrightarrow> i < NBUF \<and> b_dev (bufs s i) = d \<and> b_blockno (bufs s i) = b \<and> b_valid (bufs s i) \<and>
     b_refcnt (bufs s i) \<noteq> 0 \<and> holdingsleep s (b_lock (bufs s i))"

lemma bholds_usable: "bok d s \<Longrightarrow> bholds d s i b \<Longrightarrow> usable d s i b"
  by (simp add: usable_def bholds_def slot_of_Some)

lemma bholds_slot: "bok d s \<Longrightarrow> bholds d s i b \<Longrightarrow> slot_of s d b = Some i"
  by (simp add: bholds_def slot_of_Some)

lemma babs_held:
  assumes "bok d s" "bholds d s i b"
  shows "av (babs d s) b = bdata s i" "ar (babs d s) b = unat (b_refcnt (bufs s i))" "\<not> af (babs d s) b"
  using assms by (simp_all add: babs_def bholds_slot) (simp_all add: bholds_def holdingsleep_def)

lemma babs_disk [simp]: "ad (babs d s) = disk s" "aw (babs d s) = written s"
  by (simp_all add: babs_def)

text \<open>Changing one buffer keeps the locks held on the others.\<close>

lemma bholds_upd_other:
  assumes "bholds d s j c" "j \<noteq> i"
  shows "bholds d (s\<lparr>bufs := (bufs s)(i := B)\<rparr>) j c"
  using assms by (simp add: bholds_def holdingsleep_def)

lemma room_buffer:
  assumes ok: "bok d s" and room: "card {x. 0 < ar (babs d s) x} < NBUF"
  shows "\<exists>i<NBUF. b_refcnt (bufs s i) = 0"
proof (rule ccontr)
  assume "\<not> ?thesis"
  then have all: "b_refcnt (bufs s i) \<noteq> 0" if "i < NBUF" for i using that by blast
  have dev: "b_dev (bufs s i) = d" if "i < NBUF" for i using ok all [OF that] that by (auto simp: bok_def)
  have "inj_on (\<lambda>i. b_blockno (bufs s i)) {..<NBUF}"
    using ok dev by (auto simp: bok_def inj_on_def)
  then have "NBUF = card ((\<lambda>i. b_blockno (bufs s i)) ` {..<NBUF})" by (simp add: card_image)
  also have "\<dots> \<le> card {x. 0 < ar (babs d s) x}"
  proof (rule card_mono)
    show "(\<lambda>i. b_blockno (bufs s i)) ` {..<NBUF} \<subseteq> {x. 0 < ar (babs d s) x}"
    proof (rule image_subsetI)
      fix i assume "i \<in> {..<NBUF}"
      then have "slot_of s d (b_blockno (bufs s i)) = Some i" using dev by (simp add: slot_of_Some [OF ok])
      then show "b_blockno (bufs s i) \<in> {x. 0 < ar (babs d s) x}"
        using all \<open>i \<in> {..<NBUF}\<close> by (simp add: babs_def unat_gt_0)
    qed
  qed simp
  finally show False using room by simp
qed

lemma refcnt_Suc: "unat x + 1 < 2 ^ 32 \<Longrightarrow> unat (x + 1) = unat x + 1 \<and> x + 1 \<noteq> 0" for x :: u32
proof -
  assume "unat x + 1 < 2 ^ 32"
  then have "unat (x + 1) = unat x + 1" by (simp add: unat_word_ariths)
  then show ?thesis by (metis Suc_eq_plus1 nat.distinct(1) unat_0)
qed

definition bread_buf :: "'z kbio_scheme \<Rightarrow> u32 \<Rightarrow> u32 \<Rightarrow> nat \<Rightarrow> buf" where
  "bread_buf s d b i = \<lparr>b_valid = True, b_dev = d, b_blockno = b,
     b_lock = \<lparr>sl_locked = True, sl_pid = p_pid (myproc s)\<rparr>,
     b_refcnt = (if slot_of s d b = None then 1 else b_refcnt (bufs s i) + 1), b_data = av (babs d s) b\<rparr>"

lemma bread_run:
  assumes ok: "bok d s" and free: "af (babs d s) b" and room: "a_room b (babs d s)"
  shows "\<exists>i. usable d s i b \<and> bread s d b = Ret (i, s\<lparr>bufs := (bufs s)(i := bread_buf s d b i)\<rparr>)"
proof (cases "slot_of s d b")
  case (Some i)
  have i: "i < NBUF" "b_dev (bufs s i) = d" "b_blockno (bufs s i) = b"
    using Some by (simp_all add: slot_of_Some [OF ok])
  have "\<not> sl_locked (b_lock (bufs s i))" using free Some by (simp add: babs_def)
  then have "bread s d b = Ret (i, s\<lparr>bufs := (bufs s)(i := bread_buf s d b i)\<rparr>)"
    using i Some
    by (cases "bufs s i") (simp add: bread_def bget_def slot_of_def block_lock_def acquiresleep_def upd_buf_def
        virtio_disk_rw_def set_bdata_def bread_buf_def babs_def)
  with Some i(1) show ?thesis by (auto simp: usable_def)
next
  case None
  then have "card {x. 0 < ar (babs d s) x} < NBUF" using room by (simp add: a_room_def babs_def)
  from room_buffer [OF ok this] obtain j where "j < NBUF" "b_refcnt (bufs s j) = 0" by blast
  then have "find (\<lambda>i. b_refcnt (bufs s i) = 0) (rev (lru s)) \<noteq> None"
    using ok by (auto simp: find_None_iff bok_def)
  then obtain i where i: "find (\<lambda>i. b_refcnt (bufs s i) = 0) (rev (lru s)) = Some i" by blast
  then have "i < NBUF" "b_refcnt (bufs s i) = 0" using ok by (auto simp: bok_def dest!: find_SomeD)
  then have "\<not> sl_locked (b_lock (bufs s i))" using ok by (auto simp: bok_def)
  then have "bread s d b = Ret (i, s\<lparr>bufs := (bufs s)(i := bread_buf s d b i)\<rparr>)"
    using None i
    by (cases "bufs s i") (simp add: bread_def bget_def slot_of_def block_lock_def acquiresleep_def upd_buf_def
        virtio_disk_rw_def set_bdata_def bread_buf_def babs_def)
  with None \<open>i < NBUF\<close> \<open>b_refcnt (bufs s i) = 0\<close> show ?thesis by (auto simp: usable_def)
qed


text \<open>What the operations of the cache leave alone: everything but the cache, the disk and who is runnable.\<close>

definition brest :: "'z kbio_scheme \<Rightarrow> mem \<times> u64 \<times> u64 \<times> nat \<times> (nat \<Rightarrow> proc) \<times> 'z" where
  "brest s = (pmem s, freelist s, sym_end s, curp s, (\<lambda>p. (procs s p)\<lparr>p_state := UNUSED\<rparr>), kbio.more s)"

lemma brest_upd [simp]: "brest (s\<lparr>bufs := B\<rparr>) = brest s" "brest (s\<lparr>lru := L\<rparr>) = brest s"
  "brest (s\<lparr>disk := D\<rparr>) = brest s" "brest (s\<lparr>written := W\<rparr>) = brest s"
  by (simp_all add: brest_def)

lemma brest_wakeup [simp]: "brest (wakeup s c) = brest s"
  by (auto simp: brest_def wakeup_eq waken_def)

definition keeps_locks :: "u32 \<Rightarrow> 'z kbio_scheme \<Rightarrow> 'z kbio_scheme \<Rightarrow> u32 set \<Rightarrow> bool" where
  "keeps_locks d s s' X \<longleftrightarrow> (\<forall>j c. bholds d s j c \<longrightarrow> c \<notin> X \<longrightarrow> bholds d s' j c)"

lemma bread_spec:
  assumes ok: "bok d s" and free: "af (babs d s) b" and room: "a_room b (babs d s)"
    and few: "ar (babs d s) b + 1 < 2 ^ 32"
  shows "\<exists>i s'. bread s d b = Ret (i, s') \<and> bok d s' \<and> babs d s' = a_read b (babs d s) \<and> bholds d s' i b \<and>
    brest s' = brest s \<and> keeps_locks d s s' {}"
proof -
  obtain i where u: "usable d s i b" and run: "bread s d b = Ret (i, s\<lparr>bufs := (bufs s)(i := bread_buf s d b i)\<rparr>)"
    using bread_run [OF ok free room] by blast
  let ?B = "bread_buf s d b i" and ?s' = "s\<lparr>bufs := (bufs s)(i := bread_buf s d b i)\<rparr>"
  have cnt: "unat (b_refcnt ?B) = ar (babs d s) b + 1 \<and> b_refcnt ?B \<noteq> 0"
  proof (cases "slot_of s d b")
    case None
    then show ?thesis by (simp add: bread_buf_def babs_def)
  next
    case (Some j)
    then have "j = i" using u by (simp add: usable_def)
    then show ?thesis using Some few refcnt_Suc [of "b_refcnt (bufs s i)"] by (simp add: bread_buf_def babs_def)
  qed
  have B: "b_dev ?B = d" "b_blockno ?B = b" "b_valid ?B" "b_data ?B = av (babs d s) b" "sl_locked (b_lock ?B)"
    by (simp_all add: bread_buf_def)
  have ok': "bok d ?s'" by (rule bok_upd [OF ok u]) (use B cnt in auto)
  moreover have "babs d ?s' = a_read b (babs d s)"
    by (subst babs_upd [OF ok u]) (use B cnt in \<open>auto simp: a_read_def\<close>)
  moreover have "bholds d ?s' i b"
    using u B cnt by (simp add: bholds_def usable_def holdingsleep_def) (simp add: bread_buf_def)
  moreover have "keeps_locks d s ?s' {}"
    unfolding keeps_locks_def
  proof (intro allI impI)
    fix j c assume h: "bholds d s j c"
    have "j \<noteq> i"
    proof
      assume "j = i"
      then have "slot_of s d c = Some i" "b_refcnt (bufs s i) \<noteq> 0" "\<not> af (babs d s) c"
        using h bholds_slot [OF ok h] babs_held [OF ok h] by (simp_all add: bholds_def)
      with u free show False using slot_of_Some [OF ok, of b i] slot_of_Some [OF ok, of c i] by (auto simp: usable_def)
    qed
    with h show "bholds d ?s' j c" by (rule bholds_upd_other)
  qed
  ultimately show ?thesis using run by (intro exI [of _ i] exI [of _ ?s']) simp
qed

lemma upd_held:
  assumes ok: "bok d s" and h: "bholds d s i b"
    and B: "b_dev B = d" "b_blockno B = b" "b_valid B" "b_refcnt B \<noteq> 0" "b_lock B = b_lock (bufs s i)"
  shows "bok d (s\<lparr>bufs := (bufs s)(i := B)\<rparr>)"
    and "babs d (s\<lparr>bufs := (bufs s)(i := B)\<rparr>) = (babs d s)\<lparr>av := (av (babs d s))(b := b_data B), ar := (ar (babs d s))(b := unat (b_refcnt B))\<rparr>"
    and "keeps_locks d s (s\<lparr>bufs := (bufs s)(i := B)\<rparr>) {}"
proof -
  note u = bholds_usable [OF ok h]
  show "bok d (s\<lparr>bufs := (bufs s)(i := B)\<rparr>)" by (rule bok_upd [OF ok u]) (use B in auto)
  have "af (babs d s) b \<longleftrightarrow> \<not> sl_locked (b_lock B)"
    using babs_held(3) [OF ok h] h B by (simp add: bholds_def holdingsleep_def)
  then show "babs d (s\<lparr>bufs := (bufs s)(i := B)\<rparr>) = (babs d s)\<lparr>av := (av (babs d s))(b := b_data B), ar := (ar (babs d s))(b := unat (b_refcnt B))\<rparr>"
    by (subst babs_upd [OF ok u]) (use B in \<open>auto simp: fun_upd_idem\<close>)
  show "keeps_locks d s (s\<lparr>bufs := (bufs s)(i := B)\<rparr>) {}"
    using h B by (auto simp: keeps_locks_def bholds_def holdingsleep_def)
qed

lemma set_bdata_spec:
  assumes ok: "bok d s" and h: "bholds d s i b"
  shows "bok d (set_bdata s i x) \<and> babs d (set_bdata s i x) = a_set b x (babs d s) \<and>
    brest (set_bdata s i x) = brest s \<and> keeps_locks d s (set_bdata s i x) {}"
proof -
  have B: "b_dev ((bufs s i)\<lparr>b_data := x\<rparr>) = d" "b_blockno ((bufs s i)\<lparr>b_data := x\<rparr>) = b" "b_valid ((bufs s i)\<lparr>b_data := x\<rparr>)"
    "b_refcnt ((bufs s i)\<lparr>b_data := x\<rparr>) \<noteq> 0" "b_lock ((bufs s i)\<lparr>b_data := x\<rparr>) = b_lock (bufs s i)"
    using h by (simp_all add: bholds_def)
  show ?thesis
    using upd_held [OF ok h B] babs_held(2) [OF ok h] by (simp add: set_bdata_def upd_buf_def a_set_def fun_upd_idem)
qed

lemma bwrite_spec:
  assumes ok: "bok d s" and h: "bholds d s i b"
  shows "\<exists>s'. bwrite s i = Ret s' \<and> bok d s' \<and> babs d s' = a_write b (babs d s) \<and> brest s' = brest s \<and> keeps_locks d s s' {}"
proof -
  let ?s' = "s\<lparr>disk := (disk s)(b := bdata s i), written := written s @ [(b, bdata s i)]\<rparr>"
  have run: "bwrite s i = Ret ?s'" using h by (simp add: bwrite_def bholds_def virtio_disk_rw_def)
  have i: "i < NBUF" "b_dev (bufs s i) = d" "b_blockno (bufs s i) = b" "b_refcnt (bufs s i) \<noteq> 0" "b_valid (bufs s i)"
    using h by (simp_all add: bholds_def)
  have "b_blockno (bufs s j) \<noteq> b" if "j < NBUF" "b_dev (bufs s j) = d" "b_refcnt (bufs s j) = 0" for j
    using ok i that unfolding bok_def by metis
  then have "bok d ?s'" using ok by (auto simp: bok_def)
  moreover have "babs d ?s' = a_write b (babs d s)"
    using bholds_slot [OF ok h] i(5)
    by (auto simp: babs_def a_write_def slot_of_def fun_eq_iff split: option.splits)
  moreover have "keeps_locks d s ?s' {}" by (simp add: keeps_locks_def bholds_def holdingsleep_def)
  ultimately show ?thesis using run by auto
qed


lemma bok_procs [simp]: "bok d (s\<lparr>procs := P\<rparr>) = bok d s" "babs d (s\<lparr>procs := P\<rparr>) = babs d s"
  by (simp add: bok_def, auto simp: babs_def slot_of_def fun_eq_iff split: option.splits)

lemma lru_order:
  assumes ok: "bok d s" and L: "distinct L" "set L = {..<NBUF}"
  shows "bok d (s\<lparr>lru := L\<rparr>)" and "babs d (s\<lparr>lru := L\<rparr>) = babs d s"
proof -
  show ok': "bok d (s\<lparr>lru := L\<rparr>)" using ok L by (simp add: bok_def)
  have "slot_of (s\<lparr>lru := L\<rparr>) d b = slot_of s d b" for b
  proof (cases "slot_of s d b")
    case None
    then have "slot_of (s\<lparr>lru := L\<rparr>) d b = None" using slot_of_None [OF ok, of b] slot_of_None [OF ok', of b] by simp
    with None show ?thesis by simp
  next
    case (Some i)
    then have "slot_of (s\<lparr>lru := L\<rparr>) d b = Some i" using slot_of_Some [OF ok, of b i] slot_of_Some [OF ok', of b i] by simp
    with Some show ?thesis by simp
  qed
  then show "babs d (s\<lparr>lru := L\<rparr>) = babs d s" by (auto simp: babs_def fun_eq_iff split: option.splits)
qed

lemma brelse_spec:
  assumes ok: "bok d s" and h: "bholds d s i b"
    and clean: "ar (babs d s) b = 1 \<Longrightarrow> av (babs d s) b = ad (babs d s) b"
  shows "\<exists>s'. brelse s i = Ret s' \<and> bok d s' \<and> babs d s' = a_rel b (babs d s) \<and> brest s' = brest s \<and> keeps_locks d s s' {b}"
proof -
  define B where "B = (bufs s i)\<lparr>b_lock := initsleeplock, b_refcnt := b_refcnt (bufs s i) - 1\<rparr>"
  define s1 where "s1 = s\<lparr>bufs := (bufs s)(i := B)\<rparr>"
  define P where "P = waken s (ChanBufLock i) NPROC"
  define L where "L = (if b_refcnt B = 0 then i # remove1 i (lru s) else lru s)"
  have i: "i < NBUF" "b_dev (bufs s i) = d" "b_blockno (bufs s i) = b" "b_valid (bufs s i)" "b_refcnt (bufs s i) \<noteq> 0"
    using h by (simp_all add: bholds_def)
  have cnt: "unat (b_refcnt B) = ar (babs d s) b - 1"
    using babs_held(2) [OF ok h] unat_minus_one [OF i(5)] by (simp add: B_def)
  have run: "brelse s i = Ret (s1\<lparr>procs := P, lru := L\<rparr>)"
    using h by (simp add: brelse_def bholds_def releasesleep_def wakeup_eq upd_buf_def s1_def B_def P_def L_def initsleeplock_def)
  have B: "b_dev B = d" "b_blockno B = b" "\<not> sl_locked (b_lock B)" "b_valid B" "b_data B = bdata s i"
    using i by (simp_all add: B_def initsleeplock_def)
  have data: "b_data B = disk s b" if "b_refcnt B = 0"
  proof -
    have "ar (babs d s) b = 1"
      using cnt that babs_held(2) [OF ok h] i(5) by (simp add: unat_eq_0 [symmetric])
    then show ?thesis using clean B(5) babs_held(1) [OF ok h] by simp
  qed
  note u = bholds_usable [OF ok h]
  have ok1: "bok d s1" unfolding s1_def by (rule bok_upd [OF ok u]) (use B data in auto)
  have abs1: "babs d s1 = a_rel b (babs d s)"
    unfolding s1_def
    by (subst babs_upd [OF ok u]) (use B data cnt babs_held(1) [OF ok h] in \<open>auto simp: a_rel_def fun_upd_idem\<close>)
  have L: "distinct L" "set L = {..<NBUF}"
    using ok i(1) by (auto simp: L_def bok_def)
  have s': "s1\<lparr>procs := P, lru := L\<rparr> = (s1\<lparr>procs := P\<rparr>)\<lparr>lru := L\<rparr>" by simp
  have "bok d (s1\<lparr>procs := P, lru := L\<rparr>)" "babs d (s1\<lparr>procs := P, lru := L\<rparr>) = a_rel b (babs d s)"
    using lru_order [OF _ L, of d "s1\<lparr>procs := P\<rparr>"] ok1 abs1 by simp_all
  moreover have "brest (s1\<lparr>procs := P, lru := L\<rparr>) = brest s"
    by (auto simp: brest_def s1_def P_def waken_def)
  moreover have "keeps_locks d s (s1\<lparr>procs := P, lru := L\<rparr>) {b}"
    using i by (auto simp: keeps_locks_def bholds_def holdingsleep_def s1_def P_def)
  ultimately show ?thesis using run by blast
qed

lemma bpin_spec:
  assumes ok: "bok d s" and h: "bholds d s i b" and few: "ar (babs d s) b + 1 < 2 ^ 32"
  shows "bok d (bpin s i) \<and> babs d (bpin s i) = a_pin b (babs d s) \<and> brest (bpin s i) = brest s \<and> keeps_locks d s (bpin s i) {}"
proof -
  let ?B = "(bufs s i)\<lparr>b_refcnt := b_refcnt (bufs s i) + 1\<rparr>"
  have cnt: "unat (b_refcnt (bufs s i) + 1) = ar (babs d s) b + 1 \<and> b_refcnt (bufs s i) + 1 \<noteq> 0"
    using refcnt_Suc [of "b_refcnt (bufs s i)"] few babs_held(2) [OF ok h] by simp
  then have B: "b_dev ?B = d" "b_blockno ?B = b" "b_valid ?B" "b_refcnt ?B \<noteq> 0" "b_lock ?B = b_lock (bufs s i)"
    using h by (simp_all add: bholds_def)
  show ?thesis
    using upd_held [OF ok h B] cnt babs_held(1) [OF ok h] by (simp add: bpin_def upd_buf_def a_pin_def fun_upd_idem)
qed

lemma bunpin_spec:
  assumes ok: "bok d s" and h: "bholds d s i b" and two: "2 \<le> ar (babs d s) b"
  shows "bok d (bunpin s i) \<and> babs d (bunpin s i) = a_unpin b (babs d s) \<and> brest (bunpin s i) = brest s \<and> keeps_locks d s (bunpin s i) {}"
proof -
  let ?B = "(bufs s i)\<lparr>b_refcnt := b_refcnt (bufs s i) - 1\<rparr>"
  have "b_refcnt (bufs s i) \<noteq> 0" using h by (simp add: bholds_def)
  then have cnt: "unat (b_refcnt (bufs s i) - 1) = ar (babs d s) b - 1"
    using babs_held(2) [OF ok h] by (simp add: unat_minus_one)
  then have "unat (b_refcnt (bufs s i) - 1) \<noteq> 0" using two by simp
  then have "b_refcnt (bufs s i) - 1 \<noteq> 0" by (metis unat_0)
  then have B: "b_dev ?B = d" "b_blockno ?B = b" "b_valid ?B" "b_refcnt ?B \<noteq> 0" "b_lock ?B = b_lock (bufs s i)"
    using h by (simp_all add: bholds_def)
  show ?thesis
    using upd_held [OF ok h B] cnt babs_held(1) [OF ok h] by (simp add: bunpin_def upd_buf_def a_unpin_def fun_upd_idem)
qed

lemma unheld_clean: "bok d s \<Longrightarrow> ar (babs d s) b = 0 \<Longrightarrow> av (babs d s) b = ad (babs d s) b"
proof (cases "slot_of s d b")
  case None
  then show ?thesis by (simp add: babs_def)
next
  case (Some i)
  assume ok: "bok d s" and z: "ar (babs d s) b = 0"
  have "i < NBUF" "b_dev (bufs s i) = d" "b_blockno (bufs s i) = b" using Some by (simp_all add: slot_of_Some [OF ok])
  with z Some ok show ?thesis by (auto simp: babs_def bok_def unat_eq_0)
qed


section \<open>The interface of the cache\<close>

text \<open>
  What a client of the cache relies on.  \<open>ab\<close> is the abstract store, \<open>hl s i b\<close> says that the running
  process holds buffer \<open>i\<close> for block \<open>b\<close>, and \<open>rs\<close> is the part of the state that the cache does not touch.
\<close>

locale block_cache =
  fixes rd :: "'s \<Rightarrow> u32 \<Rightarrow> (nat \<times> 's) res"
    and wr :: "'s \<Rightarrow> nat \<Rightarrow> 's res"
    and rl :: "'s \<Rightarrow> nat \<Rightarrow> 's res"
    and st :: "'s \<Rightarrow> nat \<Rightarrow> block \<Rightarrow> 's"
    and pn :: "'s \<Rightarrow> nat \<Rightarrow> 's"
    and un :: "'s \<Rightarrow> nat \<Rightarrow> 's"
    and dt :: "'s \<Rightarrow> nat \<Rightarrow> block"
    and ok :: "'s \<Rightarrow> bool"
    and hl :: "'s \<Rightarrow> nat \<Rightarrow> u32 \<Rightarrow> bool"
    and ab :: "'s \<Rightarrow> acache"
    and rs :: "'s \<Rightarrow> 'r"
  assumes rd_law: "ok s \<Longrightarrow> af (ab s) b \<Longrightarrow> a_room b (ab s) \<Longrightarrow> ar (ab s) b + 1 < 2 ^ 32 \<Longrightarrow>
      \<exists>i s'. rd s b = Ret (i, s') \<and> ok s' \<and> ab s' = a_read b (ab s) \<and> hl s' i b \<and> rs s' = rs s \<and>
        (\<forall>j c. hl s j c \<longrightarrow> hl s' j c)"
    and dt_law: "ok s \<Longrightarrow> hl s i b \<Longrightarrow> dt s i = av (ab s) b"
    and hl_law: "ok s \<Longrightarrow> hl s i b \<Longrightarrow> 0 < ar (ab s) b \<and> \<not> af (ab s) b"
    and clean_law: "ok s \<Longrightarrow> ar (ab s) b = 0 \<Longrightarrow> av (ab s) b = ad (ab s) b"
    and st_law: "ok s \<Longrightarrow> hl s i b \<Longrightarrow> ok (st s i x) \<and> ab (st s i x) = a_set b x (ab s) \<and> rs (st s i x) = rs s \<and>
        (\<forall>j c. hl s j c \<longrightarrow> hl (st s i x) j c)"
    and wr_law: "ok s \<Longrightarrow> hl s i b \<Longrightarrow> \<exists>s'. wr s i = Ret s' \<and> ok s' \<and> ab s' = a_write b (ab s) \<and> rs s' = rs s \<and>
        (\<forall>j c. hl s j c \<longrightarrow> hl s' j c)"
    and rl_law: "ok s \<Longrightarrow> hl s i b \<Longrightarrow> (ar (ab s) b = 1 \<Longrightarrow> av (ab s) b = ad (ab s) b) \<Longrightarrow>
        \<exists>s'. rl s i = Ret s' \<and> ok s' \<and> ab s' = a_rel b (ab s) \<and> rs s' = rs s \<and>
          (\<forall>j c. hl s j c \<longrightarrow> c \<noteq> b \<longrightarrow> hl s' j c)"
    and pn_law: "ok s \<Longrightarrow> hl s i b \<Longrightarrow> ar (ab s) b + 1 < 2 ^ 32 \<Longrightarrow>
        ok (pn s i) \<and> ab (pn s i) = a_pin b (ab s) \<and> rs (pn s i) = rs s \<and> (\<forall>j c. hl s j c \<longrightarrow> hl (pn s i) j c)"
    and un_law: "ok s \<Longrightarrow> hl s i b \<Longrightarrow> 2 \<le> ar (ab s) b \<Longrightarrow>
        ok (un s i) \<and> ab (un s i) = a_unpin b (ab s) \<and> rs (un s i) = rs s \<and> (\<forall>j c. hl s j c \<longrightarrow> hl (un s i) j c)"
begin

text \<open>Reading a block and releasing it leaves the store as it was.\<close>

lemma peek:
  assumes "ok s" "af (ab s) b" "a_room b (ab s)" "ar (ab s) b + 1 < 2 ^ 32"
  shows "\<exists>i s1. rd s b = Ret (i, s1) \<and> ok s1 \<and> hl s1 i b \<and> dt s1 i = av (ab s) b \<and> rs s1 = rs s \<and>
    ab s1 = a_read b (ab s) \<and> (\<forall>j c. hl s j c \<longrightarrow> hl s1 j c) \<and>
    (\<exists>s'. rl s1 i = Ret s' \<and> ok s' \<and> ab s' = ab s \<and> rs s' = rs s \<and> (\<forall>j c. hl s j c \<longrightarrow> hl s' j c))"
proof -
  obtain i s1 where r: "rd s b = Ret (i, s1)" "ok s1" "ab s1 = a_read b (ab s)" "hl s1 i b" "rs s1 = rs s"
    "\<And>j c. hl s j c \<Longrightarrow> hl s1 j c"
    using rd_law [OF assms] by blast
  have "av (ab s1) b = ad (ab s1) b" if "ar (ab s1) b = 1"
    using that clean_law [OF assms(1), of b] by (simp add: r a_read_def)
  then obtain s' where s': "rl s1 i = Ret s'" "ok s'" "ab s' = a_rel b (ab s1)" "rs s' = rs s1"
    "\<And>j c. hl s1 j c \<Longrightarrow> c \<noteq> b \<Longrightarrow> hl s' j c"
    using rl_law [OF r(2,4)] by blast
  have "ab s' = ab s" using assms(2) by (simp add: s' r a_rel_def a_read_def fun_upd_idem)
  moreover have "c \<noteq> b" if "hl s j c" for j c using hl_law [OF assms(1) that] assms(2) by auto
  ultimately show ?thesis using r s' dt_law [OF r(2,4)] by (auto simp: a_read_def)
qed

text \<open>The two copies of the log: block \<open>a\<close> is read first, then \<open>b\<close>, one is copied over the other and written.\<close>

lemma read2:
  assumes "ok s" "a \<noteq> b" "af (ab s) a" "af (ab s) b" "a_room a (ab s)" "a_room b (a_read a (ab s))"
    "ar (ab s) a + 1 < 2 ^ 32" "ar (ab s) b + 1 < 2 ^ 32"
  shows "\<exists>i s1 j s2. rd s a = Ret (i, s1) \<and> rs s1 = rs s \<and> rd s1 b = Ret (j, s2) \<and> rs s2 = rs s \<and> ok s2 \<and>
    hl s2 i a \<and> hl s2 j b \<and> ab s2 = a_read b (a_read a (ab s)) \<and> dt s2 i = av (ab s) a \<and> dt s2 j = av (ab s) b"
proof -
  obtain i s1 where r: "rd s a = Ret (i, s1)" "ok s1" "ab s1 = a_read a (ab s)" "hl s1 i a" "rs s1 = rs s"
    using rd_law [of s a] assms by blast
  obtain j s2 where q: "rd s1 b = Ret (j, s2)" "ok s2" "ab s2 = a_read b (ab s1)" "hl s2 j b" "rs s2 = rs s1" "hl s2 i a"
    using rd_law [of s1 b] r assms by (auto simp: a_read_def)
  show ?thesis
    using r q dt_law [OF q(2,4)] dt_law [OF q(2,6)] by (auto simp: a_read_def)
qed

lemma copy_to_first:
  assumes "ok s" "a \<noteq> b" "af (ab s) a" "af (ab s) b" "a_room a (ab s)" "a_room b (a_read a (ab s))"
    "ar (ab s) a + 1 < 2 ^ 32" "ar (ab s) b + 1 < 2 ^ 32"
  shows "\<exists>i s1 j s2 s4 s5 s6. rd s a = Ret (i, s1) \<and> rs s1 = rs s \<and> rd s1 b = Ret (j, s2) \<and>
    wr (st s2 i (dt s2 j)) i = Ret s4 \<and> rl s4 j = Ret s5 \<and> rl s5 i = Ret s6 \<and>
    ok s6 \<and> rs s6 = rs s \<and> ab s6 = a_copy b a (ab s)"
proof -
  obtain i s1 j s2 where r: "rd s a = Ret (i, s1)" "rs s1 = rs s" "rd s1 b = Ret (j, s2)" "rs s2 = rs s" "ok s2"
    "hl s2 i a" "hl s2 j b" "ab s2 = a_read b (a_read a (ab s))" "dt s2 j = av (ab s) b"
    using read2 [OF assms] by blast
  define s3 where "s3 = st s2 i (dt s2 j)"
  have s3: "ok s3" "ab s3 = a_set a (av (ab s) b) (ab s2)" "rs s3 = rs s" "hl s3 i a" "hl s3 j b"
    using st_law [OF r(5,6), of "dt s2 j"] r by (auto simp: s3_def)
  obtain s4 where s4: "wr s3 i = Ret s4" "ok s4" "ab s4 = a_write a (ab s3)" "rs s4 = rs s3" "hl s4 i a" "hl s4 j b"
    using wr_law [OF s3(1,4)] s3 by blast
  have "av (ab s4) b = ad (ab s4) b" if "ar (ab s4) b = 1"
    using that clean_law [OF assms(1), of b] assms(2) by (simp add: s4 s3 r a_read_def a_set_def a_write_def split: if_splits)
  then obtain s5 where s5: "rl s4 j = Ret s5" "ok s5" "ab s5 = a_rel b (ab s4)" "rs s5 = rs s4" "hl s5 i a"
    using rl_law [OF s4(2,6)] s4(5) assms(2) by blast
  have "av (ab s5) a = ad (ab s5) a" by (simp add: s5 s4 a_write_def a_rel_def)
  then obtain s6 where s6: "rl s5 i = Ret s6" "ok s6" "ab s6 = a_rel a (ab s5)" "rs s6 = rs s5"
    using rl_law [OF s5(2,5)] by blast
  have "ab s6 = a_copy b a (ab s)"
    using assms(2-4)
    by (auto simp: s6 s5 s4 s3 r a_copy_def a_rel_def a_write_def a_set_def a_read_def fun_eq_iff)
  then show ?thesis using r s3 s4 s5 s6 by (auto simp: s3_def)
qed

text \<open>
  The copy of an installation.  With \<open>unpin\<close> the target was pinned once by \<open>log_write\<close> and loses that
  pin.
\<close>

lemma copy_to_second:
  assumes "ok s" "a \<noteq> b" "af (ab s) a" "af (ab s) b" "a_room a (ab s)" "a_room b (a_read a (ab s))"
    "ar (ab s) a + 1 < 2 ^ 32" "ar (ab s) b + 1 < 2 ^ 32" "unpin \<Longrightarrow> 0 < ar (ab s) b"
  shows "\<exists>i s1 j s2 s4 s6 s7. rd s a = Ret (i, s1) \<and> rs s1 = rs s \<and> rd s1 b = Ret (j, s2) \<and>
    wr (st s2 j (dt s2 i)) j = Ret s4 \<and> rl (if unpin then un s4 j else s4) i = Ret s6 \<and> rl s6 j = Ret s7 \<and>
    ok s7 \<and> rs s7 = rs s \<and>
    ab s7 = (if unpin then a_unpin b (a_copy a b (ab s)) else a_copy a b (ab s))"
proof -
  obtain i s1 j s2 where r: "rd s a = Ret (i, s1)" "rs s1 = rs s" "rd s1 b = Ret (j, s2)" "rs s2 = rs s" "ok s2"
    "hl s2 i a" "hl s2 j b" "ab s2 = a_read b (a_read a (ab s))" "dt s2 i = av (ab s) a"
    using read2 [OF assms(1-8)] by blast
  define s3 where "s3 = st s2 j (dt s2 i)"
  have s3: "ok s3" "ab s3 = a_set b (av (ab s) a) (ab s2)" "rs s3 = rs s" "hl s3 i a" "hl s3 j b"
    using st_law [OF r(5,7), of "dt s2 i"] r by (auto simp: s3_def)
  obtain s4 where s4: "wr s3 j = Ret s4" "ok s4" "ab s4 = a_write b (ab s3)" "rs s4 = rs s3" "hl s4 i a" "hl s4 j b"
    using wr_law [OF s3(1,5)] s3 by blast
  define s5 where "s5 = (if unpin then un s4 j else s4)"
  have two: "2 \<le> ar (ab s4) b" if unpin
    using assms(9) [OF that] assms(2) by (simp add: s4 s3 r a_write_def a_set_def a_read_def)
  have s5: "ok s5" "ab s5 = (if unpin then a_unpin b (ab s4) else ab s4)" "rs s5 = rs s4" "hl s5 i a" "hl s5 j b"
    using un_law [OF s4(2,6) two] s4 by (auto simp: s5_def)
  have "av (ab s5) a = ad (ab s5) a" if "ar (ab s5) a = 1"
    using that clean_law [OF assms(1), of a] assms(2)
    by (simp add: s5 s4 s3 r a_read_def a_set_def a_write_def a_unpin_def split: if_splits)
  then obtain s6 where s6: "rl s5 i = Ret s6" "ok s6" "ab s6 = a_rel a (ab s5)" "rs s6 = rs s5" "hl s6 j b"
    using rl_law [OF s5(1,4)] s5(5) assms(2) by blast
  have "av (ab s6) b = ad (ab s6) b" by (simp add: s6 s5 s4 a_write_def a_rel_def a_unpin_def)
  then obtain s7 where s7: "rl s6 j = Ret s7" "ok s7" "ab s7 = a_rel b (ab s6)" "rs s7 = rs s6"
    using rl_law [OF s6(2,5)] by blast
  have "ab s7 = (if unpin then a_unpin b (a_copy a b (ab s)) else a_copy a b (ab s))"
    using assms(2-4)
    by (auto simp: s7 s6 s5 s4 s3 r a_copy_def a_rel_def a_write_def a_set_def a_read_def a_unpin_def fun_eq_iff)
  then show ?thesis using r s3 s4 s5 s6 s7 by (auto simp: s3_def s5_def)
qed

text \<open>A block is read, replaced by \<open>f\<close> of its contents, written and released.\<close>

lemma rewrite:
  assumes "ok s" "af (ab s) b" "a_room b (ab s)" "ar (ab s) b + 1 < 2 ^ 32"
  shows "\<exists>i s1 s3 s4. rd s b = Ret (i, s1) \<and> rs s1 = rs s \<and> ok s1 \<and> hl s1 i b \<and> dt s1 i = av (ab s) b \<and>
    ab s1 = a_read b (ab s) \<and> wr (st s1 i x) i = Ret s3 \<and> rl s3 i = Ret s4 \<and> ok s4 \<and> rs s4 = rs s \<and>
    ab s4 = (ab s)\<lparr>av := (av (ab s))(b := x), ad := (ad (ab s))(b := x), aw := aw (ab s) @ [(b, x)]\<rparr>"
proof -
  obtain i s1 where r: "rd s b = Ret (i, s1)" "ok s1" "ab s1 = a_read b (ab s)" "hl s1 i b" "rs s1 = rs s"
    using rd_law [OF assms] by blast
  have s2: "ok (st s1 i x)" "ab (st s1 i x) = a_set b x (ab s1)" "rs (st s1 i x) = rs s" "hl (st s1 i x) i b"
    using st_law [OF r(2,4), of x] r by auto
  obtain s3 where s3: "wr (st s1 i x) i = Ret s3" "ok s3" "ab s3 = a_write b (ab (st s1 i x))" "rs s3 = rs (st s1 i x)" "hl s3 i b"
    using wr_law [OF s2(1,4)] s2 by blast
  have "av (ab s3) b = ad (ab s3) b" by (simp add: s3 a_write_def)
  then obtain s4 where s4: "rl s3 i = Ret s4" "ok s4" "ab s4 = a_rel b (ab s3)" "rs s4 = rs s3"
    using rl_law [OF s3(2,5)] by blast
  have "ab s4 = (ab s)\<lparr>av := (av (ab s))(b := x), ad := (ad (ab s))(b := x), aw := aw (ab s) @ [(b, x)]\<rparr>"
    using assms(2) by (auto simp: s4 s3 s2 r a_rel_def a_write_def a_set_def a_read_def fun_eq_iff)
  then show ?thesis using r s2 s3 s4 dt_law [OF r(2,4)] by (auto simp: a_read_def)
qed

end

interpretation bcache: block_cache "\<lambda>s. bread s d" bwrite brelse set_bdata bpin bunpin bdata "bok d" "bholds d" "babs d" brest
  for d :: u32
proof (unfold_locales, goal_cases)
  case (1 s b)
  then show ?case using bread_spec [of d s b] by (simp add: keeps_locks_def)
next
  case (2 s i b)
  then show ?case using babs_held(1) [of d s i b] by simp
next
  case (3 s i b)
  then show ?case using babs_held(2,3) [of d s i b] by (auto simp: bholds_def unat_gt_0)
next
  case (4 s b)
  then show ?case by (rule unheld_clean)
next
  case (5 s i b x)
  then show ?case using set_bdata_spec [of d s i b x] by (simp add: keeps_locks_def)
next
  case (6 s i b)
  then show ?case using bwrite_spec [of d s i b] by (simp add: keeps_locks_def)
next
  case (7 s i b)
  then show ?case using brelse_spec [of d s i b] by (simp add: keeps_locks_def)
next
  case (8 s i b)
  then show ?case using bpin_spec [of d s i b] by (simp add: keeps_locks_def)
next
  case (9 s i b)
  then show ?case using bunpin_spec [of d s i b] by (simp add: keeps_locks_def)
qed

end
