(* ===== verification/LogSpec.thy ===== *)
theory LogSpec
  imports Log BlockCache
begin

text \<open>
  What the log does to the disk.  The runs of \<^verbatim>\<open>kernel/log.c\<close> are computed on the abstract store of the
  buffer cache: \<open>write_log\<close> and \<open>install_trans\<close> are sequences of block copies, so a commit is an explicit list
  of disk writes, and so is a recovery.  Crash safety is then a statement about prefixes of that list.
\<close>

section \<open>Little-endian fields of a block\<close>

lemma ld32_st32_same [simp]: "ld32 (st32 b i v) i = v"
proof (rule bit_word_eqI)
  fix n assume "n < LENGTH(32)"
  then consider "n < 8" | "8 \<le> n" "n < 16" | "16 \<le> n" "n < 24" | "24 \<le> n" "n < 32" by force
  then show "bit (ld32 (st32 b i v) i) n = bit v n"
    by cases (auto simp: ld32_def st32_def bit_simps dest: bit_imp_le_length)
qed

lemma ld32_st32_other: "i + 4 \<le> j \<or> j + 4 \<le> i \<Longrightarrow> ld32 (st32 b i v) j = ld32 b j"
  by (auto simp: ld32_def st32_def)

lemma ld16_st16_same [simp]: "ld16 (st16 b i v) i = v"
proof (rule bit_word_eqI)
  fix n assume "n < LENGTH(16)"
  then consider "n < 8" | "8 \<le> n" "n < 16" by force
  then show "bit (ld16 (st16 b i v) i) n = bit v n"
    by cases (auto simp: ld16_def st16_def bit_simps dest: bit_imp_le_length)
qed

lemma ld16_st16_other: "i + 2 \<le> j \<or> j + 2 \<le> i \<Longrightarrow> ld16 (st16 b i v) j = ld16 b j"
  by (auto simp: ld16_def st16_def)

lemma ld16_st32_other: "i + 4 \<le> j \<or> j + 2 \<le> i \<Longrightarrow> ld16 (st32 b i v) j = ld16 b j"
  by (auto simp: ld16_def st32_def)

lemma ld32_st16_other: "i + 2 \<le> j \<or> j + 4 \<le> i \<Longrightarrow> ld32 (st16 b i v) j = ld32 b j"
  by (auto simp: ld32_def st16_def)

lemmas ld_st_other = ld32_st32_other ld16_st16_other ld16_st32_other ld32_st16_other

section \<open>The header block\<close>

definition head_block :: "block \<Rightarrow> int \<Rightarrow> (nat \<Rightarrow> u32) \<Rightarrow> block" where
  "head_block x n bl = fold (\<lambda>i d. st32 d (4 + 4 * i) (bl i)) [0..<nat n] (st32 x 0 (word_of_int n))"

definition head_n :: "block \<Rightarrow> int" where "head_n h = sint (ld32 h 0)"
definition head_blk :: "block \<Rightarrow> nat \<Rightarrow> u32" where "head_blk h i = ld32 h (4 + 4 * i)"

lemma head_fold_count: "ld32 (fold (\<lambda>i d. st32 d (4 + 4 * i) (bl i)) [0..<m] x) 0 = ld32 x 0"
  by (induction m) (simp_all add: ld32_st32_other)

lemma head_fold_blk:
  "ld32 (fold (\<lambda>i d. st32 d (4 + 4 * i) (bl i)) [0..<m] x) (4 + 4 * j) = (if j < m then bl j else ld32 x (4 + 4 * j))"
proof (induction m)
  case 0
  then show ?case by simp
next
  case (Suc m)
  show ?case
  proof (cases "j = m")
    case True
    then show ?thesis by simp
  next
    case False
    then have "4 + 4 * m + 4 \<le> 4 + 4 * j \<or> 4 + 4 * j + 4 \<le> 4 + 4 * m" by linarith
    then show ?thesis using Suc False by (simp add: ld32_st32_other)
  qed
qed

lemma head_n_block: "0 \<le> n \<Longrightarrow> n < 2 ^ 31 \<Longrightarrow> head_n (head_block x n bl) = n"
proof -
  assume n: "0 \<le> n" "n < 2 ^ 31"
  have "sint (word_of_int n :: u32) = n"
    using n by (simp add: sint_sbintrunc' signed_take_bit_int_eq_self)
  then show ?thesis by (simp add: head_n_def head_block_def head_fold_count)
qed

lemma head_blk_block: "j < nat n \<Longrightarrow> head_blk (head_block x n bl) j = bl j"
  by (simp add: head_blk_def head_block_def head_fold_blk)

section \<open>Runs of the log in terms of the store\<close>

lemma brest_log:
  fixes s s' :: "'z klog_scheme"
  assumes "brest s' = brest s"
  shows "log_start s' = log_start s" "log_dev s' = log_dev s" "lh_n s' = lh_n s" "lh_block s' = lh_block s"
    "log_size s' = log_size s" "log_outstanding s' = log_outstanding s" "log_committing s' = log_committing s"
    "klog.more s' = klog.more s"
  using assms by (cases s; cases s'; simp add: brest_def)+

definition log_slot :: "'z klog_scheme \<Rightarrow> nat \<Rightarrow> u32" where
  "log_slot s j = log_start s + of_nat j + 1"

definition quiet :: "acache \<Rightarrow> bool" where
  "quiet c \<longleftrightarrow> (\<forall>b. af c b) \<and> (\<forall>b. ar c b + 1 < 2 ^ 32) \<and> card {x. 0 < ar c x} < NBUF"

lemma quiet_room: "quiet c \<Longrightarrow> a_room b c"
  by (simp add: quiet_def a_room_def)

lemma quiet_a_copy [simp]: "quiet (a_copy x y c) = quiet c"
  by (simp add: quiet_def a_copy_def)

lemma ar_a_copy [simp]: "ar (a_copy x y c) = ar c"
  by (simp add: a_copy_def)

lemma write_log_loop_run:
  assumes "bok (log_dev s) s" "quiet (babs (log_dev s) s)"
    "\<And>j. tail \<le> j \<Longrightarrow> j < tail + k \<Longrightarrow> 0 < ar (babs (log_dev s) s) (lh_block s j) \<and> log_slot s j \<noteq> lh_block s j"
  shows "\<exists>s'. write_log_loop s tail k = Ret s' \<and> bok (log_dev s) s' \<and> brest s' = brest s \<and>
    babs (log_dev s) s' = fold (\<lambda>j. a_copy (lh_block s j) (log_slot s j)) [tail..<tail + k] (babs (log_dev s) s)"
  using assms
proof (induction k arbitrary: s tail)
  case 0
  then show ?case by simp
next
  case (Suc k)
  let ?d = "log_dev s" and ?c = "babs (log_dev s) s"
  have pin: "0 < ar ?c (lh_block s tail)" "log_slot s tail \<noteq> lh_block s tail" using Suc.prems(3) [of tail] by auto
  have room2: "a_room (lh_block s tail) (a_read (log_slot s tail) ?c)"
    using pin by (simp add: a_room_def a_read_def)
  obtain i s1 j s2 s4 s5 s6 where
    run: "bread s ?d (log_slot s tail) = Ret (i, s1)" "brest s1 = brest s" "bread s1 ?d (lh_block s tail) = Ret (j, s2)"
      "bwrite (set_bdata s2 i (bdata s2 j)) i = Ret s4" "brelse s4 j = Ret s5" "brelse s5 i = Ret s6"
      "bok ?d s6" "brest s6 = brest s" "babs ?d s6 = a_copy (lh_block s tail) (log_slot s tail) ?c"
    using bcache.copy_to_first [OF Suc.prems(1) pin(2) _ _ quiet_room [OF Suc.prems(2)] room2] Suc.prems(2)
    by (auto simp: quiet_def)
  note same = brest_log [OF run(8)] and same1 = brest_log [OF run(2)]
  have slot: "log_slot s6 = log_slot s" by (simp add: log_slot_def same fun_eq_iff)
  have "\<exists>s'. write_log_loop s6 (Suc tail) k = Ret s' \<and> bok (log_dev s6) s' \<and> brest s' = brest s6 \<and>
    babs (log_dev s6) s' = fold (\<lambda>j. a_copy (lh_block s6 j) (log_slot s6 j)) [Suc tail..<Suc tail + k] (babs (log_dev s6) s6)"
    by (rule Suc.IH) (use Suc.prems run(7) in \<open>auto simp: same slot run(9)\<close>)
  then obtain s' where s': "write_log_loop s6 (Suc tail) k = Ret s'" "bok ?d s'" "brest s' = brest s"
    "babs ?d s' = fold (\<lambda>j. a_copy (lh_block s j) (log_slot s j)) [Suc tail..<Suc tail + k] (babs ?d s6)"
    by (auto simp: same slot run(8))
  have "write_log_loop s tail (Suc k) = Ret s'"
    using run(1,3-6) s'(1) by (simp add: log_slot_def same1)
  moreover have "[tail..<tail + Suc k] = tail # [Suc tail..<Suc tail + k]"
    by (simp add: upt_conv_Cons del: upt_Suc)
  ultimately show ?case using s' run(9) by (simp del: upt_Suc)
qed

lemma write_log_run:
  assumes "bok (log_dev s) s" "quiet (babs (log_dev s) s)"
    "\<And>j. j < nat (lh_n s) \<Longrightarrow> 0 < ar (babs (log_dev s) s) (lh_block s j) \<and> log_slot s j \<noteq> lh_block s j"
  shows "\<exists>s'. write_log s = Ret s' \<and> bok (log_dev s) s' \<and> brest s' = brest s \<and>
    babs (log_dev s) s' = fold (\<lambda>j. a_copy (lh_block s j) (log_slot s j)) [0..<nat (lh_n s)] (babs (log_dev s) s)"
  using write_log_loop_run [of s 0 "nat (lh_n s)"] assms by (simp add: write_log_def)


definition a_install :: "bool \<Rightarrow> u32 \<Rightarrow> u32 \<Rightarrow> acache \<Rightarrow> acache" where
  "a_install unpin x y c = (if unpin then a_unpin y (a_copy x y c) else a_copy x y c)"

lemma quiet_a_install: "quiet c \<Longrightarrow> quiet (a_install u x y c)"
proof -
  assume q: "quiet c"
  have "{z. 0 < ar (a_install u x y c) z} \<subseteq> {z. 0 < ar c z}"
    by (auto simp: a_install_def a_unpin_def split: if_splits)
  then have "card {z. 0 < ar (a_install u x y c) z} \<le> card {z. 0 < ar c z}" by (rule card_mono [rotated]) simp
  moreover have "ar (a_install u x y c) b \<le> ar c b" for b by (simp add: a_install_def a_unpin_def)
  then have "ar (a_install u x y c) b + 1 < 2 ^ 32" for b using q by (meson add_le_mono1 le_less_trans quiet_def)
  moreover have "af (a_install u x y c) = af c" by (simp add: a_install_def a_unpin_def a_copy_def)
  ultimately show ?thesis using q unfolding quiet_def by auto
qed

lemma install_trans_loop_run:
  assumes "bok (log_dev s) s" "quiet (babs (log_dev s) s)"
    "\<And>j. tail \<le> j \<Longrightarrow> j < tail + k \<Longrightarrow> log_slot s j \<noteq> lh_block s j"
    "\<not> recovering \<Longrightarrow> inj_on (lh_block s) {tail..<tail + k} \<and> (\<forall>j\<in>{tail..<tail + k}. 0 < ar (babs (log_dev s) s) (lh_block s j))"
    "recovering \<Longrightarrow> card {x. 0 < ar (babs (log_dev s) s) x} + 1 < NBUF"
  shows "\<exists>s'. install_trans_loop s recovering tail k = Ret s' \<and> bok (log_dev s) s' \<and> brest s' = brest s \<and>
    babs (log_dev s) s' = fold (\<lambda>j. a_install (\<not> recovering) (log_slot s j) (lh_block s j)) [tail..<tail + k] (babs (log_dev s) s)"
  using assms
proof (induction k arbitrary: s tail)
  case 0
  then show ?case by simp
next
  case (Suc k)
  let ?d = "log_dev s" and ?c = "babs (log_dev s) s"
  have neq: "log_slot s tail \<noteq> lh_block s tail" using Suc.prems(3) [of tail] by auto
  have pin: "0 < ar ?c (lh_block s tail)" if "\<not> recovering" using Suc.prems(4) [OF that] by auto
  have room2: "a_room (lh_block s tail) (a_read (log_slot s tail) ?c)"
  proof (cases recovering)
    case True
    have "{x. 0 < ar (a_read (log_slot s tail) ?c) x} \<subseteq> insert (log_slot s tail) {x. 0 < ar ?c x}"
      by (auto simp: a_read_def)
    then have "card {x. 0 < ar (a_read (log_slot s tail) ?c) x} \<le> card (insert (log_slot s tail) {x. 0 < ar ?c x})"
      by (rule card_mono [rotated]) simp
    also have "\<dots> \<le> card {x. 0 < ar ?c x} + 1" by (simp add: card_insert_if)
    finally show ?thesis using Suc.prems(5) [OF True] by (simp add: a_room_def)
  qed (use pin in \<open>simp add: a_room_def a_read_def\<close>)
  have free: "af ?c b" "ar ?c b + 1 < 2 ^ 32" for b using Suc.prems(2) by (auto simp: quiet_def)
  obtain i s1 j s2 s4 s6 s7 where
    run: "bread s ?d (log_slot s tail) = Ret (i, s1)" "brest s1 = brest s" "bread s1 ?d (lh_block s tail) = Ret (j, s2)"
      "bwrite (set_bdata s2 j (bdata s2 i)) j = Ret s4" "brelse (if \<not> recovering then bunpin s4 j else s4) i = Ret s6"
      "brelse s6 j = Ret s7" "bok ?d s7" "brest s7 = brest s"
      "babs ?d s7 = a_install (\<not> recovering) (log_slot s tail) (lh_block s tail) ?c"
    using bcache.copy_to_second [OF Suc.prems(1) neq free(1) free(1) quiet_room [OF Suc.prems(2)] room2 free(2) free(2),
        of "\<not> recovering", OF pin]
    unfolding a_install_def by blast
  note same = brest_log [OF run(8)] and same1 = brest_log [OF run(2)]
  have slot: "log_slot s7 = log_slot s" by (simp add: log_slot_def same fun_eq_iff)
  have "\<exists>s'. install_trans_loop s7 recovering (Suc tail) k = Ret s' \<and> bok (log_dev s7) s' \<and> brest s' = brest s7 \<and>
    babs (log_dev s7) s' = fold (\<lambda>j. a_install (\<not> recovering) (log_slot s7 j) (lh_block s7 j)) [Suc tail..<Suc tail + k] (babs (log_dev s7) s7)"
  proof (rule Suc.IH, goal_cases)
    case 1
    then show ?case using run(7) by (simp add: same)
  next
    case 2
    then show ?case using quiet_a_install [OF Suc.prems(2)] by (simp add: same run(9))
  next
    case (3 j)
    then show ?case using Suc.prems(3) [of j] by (simp add: same slot)
  next
    case 4
    then have inj: "inj_on (lh_block s) {tail..<tail + Suc k}"
      and pins: "\<And>j. j \<in> {tail..<tail + Suc k} \<Longrightarrow> 0 < ar ?c (lh_block s j)"
      using Suc.prems(4) by auto
    have "lh_block s j \<noteq> lh_block s tail" if "j \<in> {Suc tail..<Suc tail + k}" for j
      using inj_onD [OF inj, of j tail] that by auto
    moreover have "inj_on (lh_block s) {Suc tail..<Suc tail + k}" by (rule inj_on_subset [OF inj]) auto
    ultimately show ?case using pins by (auto simp: same run(9) a_install_def a_unpin_def)
  next
    case 5
    then show ?case using Suc.prems(5) by (simp add: same run(9) a_install_def)
  qed
  then obtain s' where s': "install_trans_loop s7 recovering (Suc tail) k = Ret s'" "bok ?d s'" "brest s' = brest s"
    "babs ?d s' = fold (\<lambda>j. a_install (\<not> recovering) (log_slot s j) (lh_block s j)) [Suc tail..<Suc tail + k] (babs ?d s7)"
    by (auto simp: same slot run(8))
  have "install_trans_loop s recovering tail (Suc k) = Ret s'"
    using run(1,3-6) s'(1) by (simp add: log_slot_def same1 Let_def)
  moreover have "[tail..<tail + Suc k] = tail # [Suc tail..<Suc tail + k]"
    by (simp add: upt_conv_Cons del: upt_Suc)
  ultimately show ?case using s' run(9) by (simp del: upt_Suc)
qed


lemma set_bdata_twice [simp]: "set_bdata (set_bdata s b x) b y = set_bdata s b y"
  by (simp add: set_bdata_def upd_buf_def)

lemma bdata_set_bdata [simp]: "bdata (set_bdata s b x) b = x"
  by (simp add: set_bdata_def upd_buf_def)

lemma log_set_bdata [simp]:
  "lh_block (set_bdata s b x) = lh_block s" "lh_n (set_bdata s b x) = lh_n s" "log_dev (set_bdata s b x) = log_dev s"
  "log_start (set_bdata s b x) = log_start s"
  by (simp_all add: set_bdata_def upd_buf_def)

lemma write_head_fold:
  "fold (\<lambda>i s. set_bdata s b (st32 (bdata s b) (4 + 4 * i) (lh_block s i))) [0..<m] (set_bdata s b x) =
    set_bdata s b (fold (\<lambda>i d. st32 d (4 + 4 * i) (lh_block s i)) [0..<m] x)"
  by (induction m) simp_all

lemma write_head_run:
  assumes "bok (log_dev s) s" "quiet (babs (log_dev s) s)"
  shows "\<exists>s' x. write_head s = Ret s' \<and> bok (log_dev s) s' \<and> brest s' = brest s \<and>
    x = head_block (av (babs (log_dev s) s) (log_start s)) (lh_n s) (lh_block s) \<and>
    babs (log_dev s) s' = (babs (log_dev s) s)\<lparr>av := (av (babs (log_dev s) s))(log_start s := x),
      ad := (ad (babs (log_dev s) s))(log_start s := x), aw := aw (babs (log_dev s) s) @ [(log_start s, x)]\<rparr>"
proof -
  let ?d = "log_dev s" and ?c = "babs (log_dev s) s"
  let ?x = "head_block (av ?c (log_start s)) (lh_n s) (lh_block s)"
  have "af ?c (log_start s)" "ar ?c (log_start s) + 1 < 2 ^ 32" using assms(2) by (auto simp: quiet_def)
  from bcache.rewrite [OF assms(1) this(1) quiet_room [OF assms(2)] this(2), of ?x]
  obtain i s1 s3 s4 where run: "bread s ?d (log_start s) = Ret (i, s1)" "brest s1 = brest s" "bdata s1 i = av ?c (log_start s)"
      "bwrite (set_bdata s1 i ?x) i = Ret s3" "brelse s3 i = Ret s4" "bok ?d s4" "brest s4 = brest s"
      "babs ?d s4 = ?c\<lparr>av := (av ?c)(log_start s := ?x), ad := (ad ?c)(log_start s := ?x), aw := aw ?c @ [(log_start s, ?x)]\<rparr>"
    by blast
  note same1 = brest_log [OF run(2)]
  have "write_head s = Ret s4"
    using run(1,4,5) by (simp add: write_head_def same1 write_head_fold run(3) Let_def head_block_def)
  then show ?thesis using run by blast
qed

lemma read_head_fold:
  "fold (\<lambda>i s. s\<lparr>lh_block := (lh_block s)(i := f i)\<rparr>) [0..<m] s = s\<lparr>lh_block := (\<lambda>i. if i < m then f i else lh_block s i)\<rparr>"
proof (induction m)
  case (Suc m)
  have "(\<lambda>i. if i < Suc m then f i else lh_block s i) = (\<lambda>i. if i < m then f i else lh_block s i)(m := f m)"
    by (auto simp: fun_eq_iff)
  then show ?case unfolding upt_Suc_append [OF le0] fold_append o_apply Suc by simp
qed simp

lemma bok_klog [simp]: "bok d (s\<lparr>lh_n := n, lh_block := g\<rparr>) = bok d s" "babs d (s\<lparr>lh_n := n, lh_block := g\<rparr>) = babs d s"
  "bok d (s\<lparr>lh_n := n\<rparr>) = bok d s" "babs d (s\<lparr>lh_n := n\<rparr>) = babs d s"
  by (simp add: bok_def, auto simp: babs_def slot_of_def bok_def fun_eq_iff split: option.splits)

lemma brelse_klog: "brelse (s\<lparr>lh_n := n, lh_block := g\<rparr>) i =
    (case brelse s i of Ret s' \<Rightarrow> Ret (s'\<lparr>lh_n := n, lh_block := g\<rparr>) | Panic e \<Rightarrow> Panic e | Sleep c \<Rightarrow> Sleep c | Diverge \<Rightarrow> Diverge)"
  by (simp add: brelse_def holdingsleep_def releasesleep_def upd_buf_def wakeup_eq waken_def Let_def cong: if_cong)

lemma read_head_run:
  assumes "bok (log_dev s) s" "quiet (babs (log_dev s) s)"
  shows "\<exists>s1. read_head s = Ret (s1\<lparr>lh_n := head_n (av (babs (log_dev s) s) (log_start s)),
      lh_block := (\<lambda>i. if i < nat (head_n (av (babs (log_dev s) s) (log_start s)))
        then head_blk (av (babs (log_dev s) s) (log_start s)) i else lh_block s i)\<rparr>) \<and>
    bok (log_dev s) s1 \<and> brest s1 = brest s \<and> babs (log_dev s) s1 = babs (log_dev s) s"
proof -
  let ?d = "log_dev s" and ?c = "babs (log_dev s) s"
  have "af ?c (log_start s)" "ar ?c (log_start s) + 1 < 2 ^ 32" using assms(2) by (auto simp: quiet_def)
  from bcache.peek [OF assms(1) this(1) quiet_room [OF assms(2)] this(2)]
  obtain i s1 s' where run: "bread s ?d (log_start s) = Ret (i, s1)" "brest s1 = brest s" "bdata s1 i = av ?c (log_start s)"
      "brelse s1 i = Ret s'" "bok ?d s'" "babs ?d s' = ?c" "brest s' = brest s"
    by blast
  note same1 = brest_log [OF run(2)] and same = brest_log [OF run(7)]
  have "read_head s = Ret (s'\<lparr>lh_n := head_n (av ?c (log_start s)),
      lh_block := (\<lambda>i. if i < nat (head_n (av ?c (log_start s))) then head_blk (av ?c (log_start s)) i else lh_block s i)\<rparr>)"
    using run(1,4) by (simp add: read_head_def run(3) Let_def head_n_def head_blk_def read_head_fold brelse_klog same1 cong: if_cong)
  then show ?thesis using run by blast
qed

section \<open>Sequences of writes\<close>

definition apply_writes :: "(u32 \<times> block) list \<Rightarrow> (u32 \<Rightarrow> block) \<Rightarrow> u32 \<Rightarrow> block" where
  "apply_writes ws f = fold (\<lambda>(b, x) f. f(b := x)) ws f"

lemma apply_writes_simps [simp]:
  "apply_writes [] f = f" "apply_writes ((b, x) # ws) f = apply_writes ws (f(b := x))"
  "apply_writes (vs @ ws) f = apply_writes ws (apply_writes vs f)"
  by (simp_all add: apply_writes_def)

lemma apply_writes_other: "b \<notin> fst ` set ws \<Longrightarrow> apply_writes ws f b = f b"
  by (induction ws arbitrary: f) auto

lemma apply_writes_cases: "apply_writes ws f b = f b \<or> (b, apply_writes ws f b) \<in> set ws"
proof (induction ws arbitrary: f)
  case (Cons w ws)
  obtain a x where w: "w = (a, x)" by force
  have "apply_writes ws (f(a := x)) b = (f(a := x)) b \<or> (b, apply_writes ws (f(a := x)) b) \<in> set ws"
    by (rule Cons.IH)
  then show ?case by (cases "a = b") (auto simp: w)
qed simp

lemma apply_writes_map:
  "inj_on dst (set js) \<Longrightarrow> j \<in> set js \<Longrightarrow> apply_writes (map (\<lambda>j. (dst j, x j)) js) f (dst j) = x j"
proof (induction js arbitrary: f)
  case (Cons i js)
  show ?case
  proof (cases "j \<in> set js")
    case True
    then show ?thesis using Cons by (simp add: inj_on_def)
  next
    case False
    then have "j = i" using Cons.prems(2) by simp
    moreover have "dst i \<notin> fst ` set (map (\<lambda>j. (dst j, x j)) js)"
    proof
      assume "dst i \<in> fst ` set (map (\<lambda>j. (dst j, x j)) js)"
      then obtain k where k: "k \<in> set js" "dst k = dst i" by auto
      then have "k = i" using inj_onD [OF Cons.prems(1), of k i] by simp
      with k False \<open>j = i\<close> show False by simp
    qed
    ultimately show ?thesis by (simp add: apply_writes_other del: map_eq_conv)
  qed
qed simp

text \<open>If every write puts \<open>g b\<close> into its block \<open>b\<close>, each block has its old contents or \<open>g b\<close>.\<close>

lemma apply_writes_same:
  "(\<And>b x. (b, x) \<in> set ws \<Longrightarrow> x = g b) \<Longrightarrow> apply_writes ws f b = (if b \<in> fst ` set ws then g b else f b)"
proof (induction ws arbitrary: f)
  case (Cons w ws)
  obtain a x where w: "w = (a, x)" by force
  have "x = g a" using Cons.prems [of a x] w by simp
  moreover have "apply_writes ws (f(a := x)) b = (if b \<in> fst ` set ws then g b else (f(a := x)) b)"
    by (rule Cons.IH) (use Cons.prems in auto)
  ultimately show ?case by (auto simp: w)
qed simp

lemma fold_copy:
  assumes "\<And>i j. i \<in> set js \<Longrightarrow> j \<in> set js \<Longrightarrow> src j \<noteq> dst i"
  shows "fold (\<lambda>j. a_copy (src j) (dst j)) js c =
    (let ws = map (\<lambda>j. (dst j, av c (src j))) js in
     c\<lparr>av := apply_writes ws (av c), ad := apply_writes ws (ad c), aw := aw c @ ws\<rparr>)"
  using assms
proof (induction js arbitrary: c)
  case (Cons j js)
  let ?c = "a_copy (src j) (dst j) c"
  have "fold (\<lambda>j. a_copy (src j) (dst j)) js ?c =
    (let ws = map (\<lambda>j. (dst j, av ?c (src j))) js in
     ?c\<lparr>av := apply_writes ws (av ?c), ad := apply_writes ws (ad ?c), aw := aw ?c @ ws\<rparr>)"
    by (rule Cons.IH) (use Cons.prems in auto)
  moreover have "map (\<lambda>i. (dst i, av ?c (src i))) js = map (\<lambda>i. (dst i, av c (src i))) js"
    using Cons.prems by (simp add: a_copy_def)
  ultimately show ?case by (simp add: Let_def) (simp add: a_copy_def)
qed simp

text \<open>Installation drops the pin of each target.\<close>

lemma fold_install:
  assumes "\<And>i j. i \<in> set js \<Longrightarrow> j \<in> set js \<Longrightarrow> src j \<noteq> dst i"
  shows "\<exists>R. fold (\<lambda>j. a_install u (src j) (dst j)) js c =
    (let ws = map (\<lambda>j. (dst j, av c (src j))) js in
     c\<lparr>av := apply_writes ws (av c), ar := R, ad := apply_writes ws (ad c), aw := aw c @ ws\<rparr>) \<and>
    (\<forall>b. R b \<le> ar c b) \<and> (u \<longrightarrow> (\<forall>j\<in>set js. R (dst j) \<le> ar c (dst j) - 1)) \<and> (\<not> u \<longrightarrow> R = ar c)"
  using assms
proof (induction js arbitrary: c)
  case Nil
  show ?case by (rule exI [of _ "ar c"]) simp
next
  case (Cons j js)
  let ?c = "a_install u (src j) (dst j) c"
  have "\<exists>R. fold (\<lambda>j. a_install u (src j) (dst j)) js ?c =
    (let ws = map (\<lambda>j. (dst j, av ?c (src j))) js in
     ?c\<lparr>av := apply_writes ws (av ?c), ar := R, ad := apply_writes ws (ad ?c), aw := aw ?c @ ws\<rparr>) \<and>
    (\<forall>b. R b \<le> ar ?c b) \<and> (u \<longrightarrow> (\<forall>j\<in>set js. R (dst j) \<le> ar ?c (dst j) - 1)) \<and> (\<not> u \<longrightarrow> R = ar ?c)"
    by (rule Cons.IH) (use Cons.prems in auto)
  then obtain R where R: "fold (\<lambda>j. a_install u (src j) (dst j)) js ?c =
    (let ws = map (\<lambda>j. (dst j, av ?c (src j))) js in
     ?c\<lparr>av := apply_writes ws (av ?c), ar := R, ad := apply_writes ws (ad ?c), aw := aw ?c @ ws\<rparr>)"
    "\<And>b. R b \<le> ar ?c b" "u \<Longrightarrow> \<forall>j\<in>set js. R (dst j) \<le> ar ?c (dst j) - 1" "\<not> u \<Longrightarrow> R = ar ?c" by blast
  have ar: "ar ?c = (if u then (ar c)(dst j := ar c (dst j) - 1) else ar c)"
    by (simp add: a_install_def a_unpin_def)
  have "map (\<lambda>i. (dst i, av ?c (src i))) js = map (\<lambda>i. (dst i, av c (src i))) js"
    using Cons.prems by (simp add: a_copy_def a_install_def a_unpin_def)
  with R(1) have "fold (\<lambda>j. a_install u (src j) (dst j)) (j # js) c =
    (let ws = map (\<lambda>j. (dst j, av c (src j))) (j # js) in
     c\<lparr>av := apply_writes ws (av c), ar := R, ad := apply_writes ws (ad c), aw := aw c @ ws\<rparr>)"
    by (simp add: Let_def) (simp add: a_install_def a_copy_def a_unpin_def)
  moreover have "R b \<le> ar c b" for b using R(2) [of b] by (auto simp: ar split: if_splits)
  moreover have "R (dst i) \<le> ar c (dst i) - 1" if u "i \<in> set (j # js)" for i
  proof -
    have "R (dst i) \<le> ar ?c (dst i)" by (rule R(2))
    moreover have "i \<in> set js \<Longrightarrow> R (dst i) \<le> ar ?c (dst i) - 1" using R(3) [OF \<open>u\<close>] by blast
    ultimately show ?thesis using that unfolding ar by (auto split: if_splits)
  qed
  moreover have "\<not> u \<Longrightarrow> R = ar c" using R(4) unfolding ar by simp
  ultimately show ?case by blast
qed

section \<open>Commit and recovery\<close>

definition log_area :: "'z klog_scheme \<Rightarrow> u32 set" where
  "log_area s = insert (log_start s) (log_slot s ` {..<29})"

text \<open>
  The state between system calls: nothing is locked, the blocks of the transaction are pinned in the
  cache, once each, and lie outside the log.
\<close>

definition log_ready :: "'z klog_scheme \<Rightarrow> bool" where
  "log_ready s \<longleftrightarrow> bok (log_dev s) s \<and> (\<forall>b. af (babs (log_dev s) s) b) \<and> 0 \<le> lh_n s \<and> lh_n s < 30 \<and>
     inj_on (lh_block s) {..<nat (lh_n s)} \<and> (\<forall>j<nat (lh_n s). lh_block s j \<notin> log_area s) \<and>
     (\<forall>b. ar (babs (log_dev s) s) b = (if b \<in> lh_block s ` {..<nat (lh_n s)} then 1 else 0))"

lemma log_ready_quiet: "log_ready s \<Longrightarrow> quiet (babs (log_dev s) s)"
proof -
  assume r: "log_ready s"
  then have "{x. 0 < ar (babs (log_dev s) s) x} = lh_block s ` {..<nat (lh_n s)}" by (auto simp: log_ready_def)
  moreover have "card (lh_block s ` {..<nat (lh_n s)}) = nat (lh_n s)" using r by (simp add: log_ready_def card_image)
  ultimately show ?thesis using r by (auto simp: quiet_def log_ready_def NBUF_def)
qed

lemma log_slot_inj: "inj_on (log_slot s) {..<29}"
proof (rule inj_onI)
  fix i j assume ij: "i \<in> {..<29}" "j \<in> {..<29}" "log_slot s i = log_slot s j"
  then have "(of_nat i :: u32) = of_nat j" by (simp add: log_slot_def)
  then have "unat (of_nat i :: u32) = unat (of_nat j :: u32)" by simp
  then show "i = j" using ij by (simp add: unat_of_nat)
qed

lemma log_slot_start: "j < 29 \<Longrightarrow> log_slot s j \<noteq> log_start s"
proof
  assume j: "j < 29" and "log_slot s j = log_start s"
  then have "(of_nat j + 1 :: u32) = 0" by (simp add: log_slot_def add.assoc)
  then have "unat (of_nat (j + 1) :: u32) = 0" by (simp add: add.commute)
  then show False using j by (simp add: unat_of_nat del: of_nat_add of_nat_Suc)
qed

text \<open>The writes a commit sends to the disk, in order.\<close>

definition commit_writes :: "'z klog_scheme \<Rightarrow> (u32 \<times> block) list" where
  "commit_writes s =
     (let c = babs (log_dev s) s; n = nat (lh_n s);
          h1 = head_block (av c (log_start s)) (lh_n s) (lh_block s);
          h2 = head_block h1 0 (lh_block s) in
      map (\<lambda>j. (log_slot s j, av c (lh_block s j))) [0..<n] @ [(log_start s, h1)] @
      map (\<lambda>j. (lh_block s j, av c (lh_block s j))) [0..<n] @ [(log_start s, h2)])"


lemma log_slot_block:
  assumes "log_ready s" "i < nat (lh_n s)" "j < nat (lh_n s)"
  shows "log_slot s i \<noteq> lh_block s j" "lh_block s j \<noteq> log_start s"
proof -
  have "log_slot s i \<in> log_area s" using assms by (auto simp: log_ready_def log_area_def)
  moreover have "lh_block s j \<notin> log_area s" using assms by (simp add: log_ready_def)
  ultimately show "log_slot s i \<noteq> lh_block s j" by auto
  show "lh_block s j \<noteq> log_start s" using \<open>lh_block s j \<notin> log_area s\<close> by (simp add: log_area_def)
qed

lemma quiet_upd: "quiet (c\<lparr>av := f, ad := g, aw := w\<rparr>) = quiet c"
  by (simp add: quiet_def)

lemma brest_lh_n:
  fixes s s' t :: "'z klog_scheme"
  shows "brest s' = brest (t\<lparr>lh_n := n\<rparr>) \<Longrightarrow> brest t = brest s \<Longrightarrow> brest (s'\<lparr>lh_n := lh_n s\<rparr>) = brest s"
  by (cases s; cases s'; cases t; simp add: brest_def)

abbreviation log_copies :: "'z klog_scheme \<Rightarrow> (u32 \<times> block) list" where
  "log_copies s \<equiv> map (\<lambda>j. (log_slot s j, av (babs (log_dev s) s) (lh_block s j))) [0..<nat (lh_n s)]"

abbreviation home_copies :: "'z klog_scheme \<Rightarrow> (u32 \<times> block) list" where
  "home_copies s \<equiv> map (\<lambda>j. (lh_block s j, av (babs (log_dev s) s) (lh_block s j))) [0..<nat (lh_n s)]"

lemma log_ready_pins:
  "log_ready s \<Longrightarrow> j < nat (lh_n s) \<Longrightarrow> 0 < ar (babs (log_dev s) s) (lh_block s j) \<and> log_slot s j \<noteq> lh_block s j"
  using log_slot_block(1) [of s j j] by (auto simp: log_ready_def)

lemma write_log_copies:
  assumes r: "log_ready s"
  shows "\<exists>s1. write_log s = Ret s1 \<and> bok (log_dev s) s1 \<and> brest s1 = brest s \<and>
    babs (log_dev s) s1 = (babs (log_dev s) s)\<lparr>av := apply_writes (log_copies s) (av (babs (log_dev s) s)),
      ad := apply_writes (log_copies s) (disk s), aw := written s @ log_copies s\<rparr>"
proof -
  let ?d = "log_dev s" and ?c = "babs (log_dev s) s" and ?n = "nat (lh_n s)"
  have ok: "bok ?d s" and q: "quiet ?c" using r log_ready_quiet by (auto simp: log_ready_def)
  obtain s1 where s1: "write_log s = Ret s1" "bok ?d s1" "brest s1 = brest s"
      "babs ?d s1 = fold (\<lambda>j. a_copy (lh_block s j) (log_slot s j)) [0..<?n] ?c"
    using write_log_run [OF ok q log_ready_pins [OF r]] by blast
  moreover have "fold (\<lambda>j. a_copy (lh_block s j) (log_slot s j)) [0..<?n] ?c = ?c\<lparr>av := apply_writes (log_copies s) (av ?c),
      ad := apply_writes (log_copies s) (disk s), aw := written s @ log_copies s\<rparr>"
    by (subst fold_copy) (auto simp: Let_def dest: log_slot_block(1) [OF r])
  ultimately show ?thesis by auto
qed

lemma log_copies_read:
  assumes r: "log_ready s"
  shows "apply_writes (log_copies s) f (log_start s) = f (log_start s)"
    and "j < nat (lh_n s) \<Longrightarrow> apply_writes (log_copies s) f (log_slot s j) = av (babs (log_dev s) s) (lh_block s j)"
proof -
  have n: "nat (lh_n s) < 30" using r by (auto simp: log_ready_def)
  have "log_start s \<notin> fst ` set (log_copies s)"
  proof
    assume "log_start s \<in> fst ` set (log_copies s)"
    then obtain j where "j < nat (lh_n s)" "log_start s = log_slot s j" by auto
    then show False using log_slot_start [of j s] n by simp
  qed
  then show "apply_writes (log_copies s) f (log_start s) = f (log_start s)" by (rule apply_writes_other)
  have "inj_on (log_slot s) (set [0..<nat (lh_n s)])" using n by (auto intro: inj_on_subset [OF log_slot_inj])
  then show "j < nat (lh_n s) \<Longrightarrow> apply_writes (log_copies s) f (log_slot s j) = av (babs (log_dev s) s) (lh_block s j)"
    by (intro apply_writes_map) auto
qed

lemma install_home_copies:
  assumes r: "log_ready s" and t: "bok (log_dev s) t" "brest t = brest s"
    and c: "babs (log_dev s) t = (babs (log_dev s) s)\<lparr>av := f, ad := g, aw := w\<rparr>"
    and f: "\<And>j. j < nat (lh_n s) \<Longrightarrow> f (log_slot s j) = av (babs (log_dev s) s) (lh_block s j)"
  shows "\<exists>t'. install_trans t False = Ret t' \<and> bok (log_dev s) t' \<and> brest t' = brest t \<and>
    babs (log_dev s) t' = (babs (log_dev s) s)\<lparr>av := apply_writes (home_copies s) f, ar := (\<lambda>_. 0),
      ad := apply_writes (home_copies s) g, aw := w @ home_copies s\<rparr>"
proof -
  let ?d = "log_dev s" and ?n = "nat (lh_n s)"
  note same = brest_log [OF t(2)]
  have slot: "log_slot t = log_slot s" by (simp add: log_slot_def same fun_eq_iff)
  have "\<exists>t'. install_trans t False = Ret t' \<and> bok (log_dev t) t' \<and> brest t' = brest t \<and>
    babs (log_dev t) t' = fold (\<lambda>j. a_install (\<not> False) (log_slot t j) (lh_block t j)) [0..<0 + nat (lh_n t)] (babs (log_dev t) t)"
    unfolding install_trans_def
  proof (rule install_trans_loop_run, goal_cases)
    case 2
    then show ?case using log_ready_quiet [OF r] by (simp add: same c quiet_upd)
  next
    case 4
    then show ?case using r log_ready_pins [OF r] by (simp add: same c log_ready_def lessThan_atLeast0)
  qed (use t(1) log_ready_pins [OF r] slot in \<open>auto simp: same\<close>)
  then obtain t' where t': "install_trans t False = Ret t'" "bok ?d t'" "brest t' = brest t"
      "babs ?d t' = fold (\<lambda>j. a_install True (log_slot s j) (lh_block s j)) [0..<?n] (babs ?d t)"
    by (auto simp: same slot)
  have W: "map (\<lambda>j. (lh_block s j, av (babs ?d t) (log_slot s j))) [0..<?n] = home_copies s" using f by (simp add: c)
  have "log_slot s j \<noteq> lh_block s i" if "i \<in> set [0..<?n]" "j \<in> set [0..<?n]" for i j
    using log_slot_block(1) [OF r, of j i] that by simp
  from fold_install [of "[0..<?n]" "log_slot s" "lh_block s" True "babs ?d t", OF this] obtain R where
    c': "babs ?d t' = (babs ?d t)\<lparr>av := apply_writes (home_copies s) f, ar := R, ad := apply_writes (home_copies s) g, aw := w @ home_copies s\<rparr>"
    and R: "\<And>b. R b \<le> ar (babs ?d t) b" "\<forall>j\<in>set [0..<?n]. R (lh_block s j) \<le> ar (babs ?d t) (lh_block s j) - 1"
    unfolding t'(4) Let_def W by (auto simp: c)
  have "R b = 0" for b
    using R(1) [of b] R(2) r by (cases "b \<in> lh_block s ` {..<?n}") (auto simp: c log_ready_def)
  then have "R = (\<lambda>_. 0)" by (rule ext)
  with t' c' show ?thesis by (simp add: c)
qed

lemma commit_run:
  assumes r: "log_ready s" and n: "0 < lh_n s"
  shows "\<exists>s'. commit s = Ret s' \<and> bok (log_dev s) s' \<and> babs (log_dev s) s' = (babs (log_dev s) s)
      \<lparr>av := apply_writes (commit_writes s) (av (babs (log_dev s) s)), ar := (\<lambda>_. 0),
       ad := apply_writes (commit_writes s) (disk s), aw := written s @ commit_writes s\<rparr> \<and>
    lh_n s' = 0 \<and> brest (s'\<lparr>lh_n := lh_n s\<rparr>) = brest s"
proof -
  let ?d = "log_dev s" and ?c = "babs (log_dev s) s" and ?n = "nat (lh_n s)"
  obtain s1 where s1: "write_log s = Ret s1" "bok ?d s1" "brest s1 = brest s"
      "babs ?d s1 = ?c\<lparr>av := apply_writes (log_copies s) (av ?c), ad := apply_writes (log_copies s) (disk s), aw := written s @ log_copies s\<rparr>"
    using write_log_copies [OF r] by blast
  note same1 = brest_log [OF s1(3)]
  have H1: "av (babs ?d s1) (log_start s) = av ?c (log_start s)" by (simp add: s1(4) log_copies_read(1) [OF r])
  have q1: "quiet (babs ?d s1)" using log_ready_quiet [OF r] by (simp add: s1(4) quiet_upd)
  define h1 where "h1 = head_block (av ?c (log_start s)) (lh_n s) (lh_block s)"
  obtain s2 where s2: "write_head s1 = Ret s2" "bok ?d s2" "brest s2 = brest s1"
      "babs ?d s2 = (babs ?d s1)\<lparr>av := (av (babs ?d s1))(log_start s := h1), ad := (ad (babs ?d s1))(log_start s := h1),
         aw := aw (babs ?d s1) @ [(log_start s, h1)]\<rparr>"
    using write_head_run [of s1, unfolded same1 H1, folded h1_def] s1(2) q1 by blast
  define f g where "f = (apply_writes (log_copies s) (av ?c))(log_start s := h1)"
    and "g = (apply_writes (log_copies s) (disk s))(log_start s := h1)"
  have c2: "babs ?d s2 = ?c\<lparr>av := f, ad := g, aw := written s @ log_copies s @ [(log_start s, h1)]\<rparr>"
    by (simp add: s2(4) s1(4) f_def g_def)
  have f: "f (log_slot s j) = av ?c (lh_block s j)" if "j < ?n" for j
  proof -
    have "j < 29" using that r by (auto simp: log_ready_def)
    then show ?thesis using log_copies_read(2) [OF r that] log_slot_start [of j s] by (simp add: f_def)
  qed
  have rest2: "brest s2 = brest s" using s2(3) s1(3) by simp
  obtain s3 where s3: "install_trans s2 False = Ret s3" "bok ?d s3" "brest s3 = brest s2"
      "babs ?d s3 = ?c\<lparr>av := apply_writes (home_copies s) f, ar := (\<lambda>_. 0), ad := apply_writes (home_copies s) g,
         aw := written s @ log_copies s @ [(log_start s, h1)] @ home_copies s\<rparr>"
    using install_home_copies [OF r s2(2) rest2 c2 f] by auto
  note same3 = brest_log [OF s3(3) [unfolded rest2]]
  let ?s3 = "s3\<lparr>lh_n := 0\<rparr>"
  have "log_start s \<notin> fst ` set (home_copies s)" using log_slot_block(2) [OF r] by force
  then have H3: "av (babs ?d ?s3) (log_start s) = h1" by (simp add: s3(4) apply_writes_other f_def)
  have q3: "quiet (babs ?d ?s3)" using log_ready_quiet [OF r] by (simp add: s3(4) quiet_def NBUF_def)
  have e3: "log_dev ?s3 = ?d" "log_start ?s3 = log_start s" "lh_n ?s3 = 0" "lh_block ?s3 = lh_block s" by (simp_all add: same3)
  have ok3: "bok ?d ?s3" using s3(2) by simp
  obtain s4 where s4: "write_head ?s3 = Ret s4" "bok ?d s4" "brest s4 = brest ?s3"
      "babs ?d s4 = (babs ?d ?s3)\<lparr>av := (av (babs ?d ?s3))(log_start s := head_block h1 0 (lh_block s)),
         ad := (ad (babs ?d ?s3))(log_start s := head_block h1 0 (lh_block s)),
         aw := aw (babs ?d ?s3) @ [(log_start s, head_block h1 0 (lh_block s))]\<rparr>"
    using write_head_run [of ?s3, unfolded e3 H3, OF ok3 q3] by blast
  have "commit s = Ret s4" using n s1(1) s2(1) s3(1) s4(1) by (simp add: commit_def)
  moreover have "brest (s4\<lparr>lh_n := lh_n s\<rparr>) = brest s" using brest_lh_n [OF s4(3)] s3(3) rest2 by simp
  moreover have "lh_n s4 = 0" using brest_log(3) [OF s4(3)] by simp
  ultimately show ?thesis using s4(2,4)
    by (simp add: s3(4) f_def g_def commit_writes_def Let_def h1_def fun_upd_def)
qed

text \<open>What recovery writes when it finds the disk \<open>D\<close>.\<close>

definition recovery_writes :: "u32 \<Rightarrow> (nat \<Rightarrow> u32) \<Rightarrow> (u32 \<Rightarrow> block) \<Rightarrow> (u32 \<times> block) list" where
  "recovery_writes H sl D =
     map (\<lambda>j. (head_blk (D H) j, D (sl j))) [0..<nat (head_n (D H))] @ [(H, st32 (D H) 0 0)]"

text \<open>The state of the cache after a boot: nothing is cached that differs from the disk, nothing is in use.\<close>

definition cold :: "u32 \<Rightarrow> 'z kbio_scheme \<Rightarrow> bool" where
  "cold d s \<longleftrightarrow> bok d s \<and> (\<forall>b. af (babs d s) b \<and> ar (babs d s) b = 0)"

lemma cold_view: "cold d s \<Longrightarrow> av (babs d s) = disk s"
  by (rule ext) (use unheld_clean [of d s] in \<open>simp add: cold_def\<close>)

lemma cold_quiet: "cold d s \<Longrightarrow> quiet (babs d s)"
  by (simp add: cold_def quiet_def NBUF_def)

lemma head_block_0: "head_block x 0 bl = st32 x 0 0"
  by (simp add: head_block_def)

lemma recover_run:
  assumes c: "cold (log_dev s) s" and n: "head_n (disk s (log_start s)) \<le> 29"
    and out: "\<And>j. j < nat (head_n (disk s (log_start s))) \<Longrightarrow> head_blk (disk s (log_start s)) j \<notin> log_area s"
  shows "\<exists>s'. recover_from_log s = Ret s' \<and> bok (log_dev s) s' \<and>
    (let ws = recovery_writes (log_start s) (log_slot s) (disk s) in
     babs (log_dev s) s' = (babs (log_dev s) s)\<lparr>av := apply_writes ws (disk s), ad := apply_writes ws (disk s), aw := written s @ ws\<rparr>)"
proof -
  let ?d = "log_dev s" and ?H = "log_start s" and ?D = "disk s"
  let ?n = "nat (head_n (?D ?H))"
  note av = cold_view [OF c]
  have ok: "bok ?d s" using c by (simp add: cold_def)
  obtain s1 where s1: "read_head s = Ret (s1\<lparr>lh_n := head_n (?D ?H), lh_block := (\<lambda>i. if i < ?n then head_blk (?D ?H) i else lh_block s i)\<rparr>)"
      "bok ?d s1" "brest s1 = brest s" "babs ?d s1 = babs ?d s"
    using read_head_run [OF ok cold_quiet [OF c], unfolded av] by blast
  define t where "t = s1\<lparr>lh_n := head_n (?D ?H), lh_block := (\<lambda>i. if i < ?n then head_blk (?D ?H) i else lh_block s i)\<rparr>"
  note same1 = brest_log [OF s1(3)]
  have t: "log_dev t = ?d" "log_start t = ?H" "log_slot t = log_slot s" "bok ?d t" "babs ?d t = babs ?d s" "lh_n t = head_n (?D ?H)"
    and tb: "\<And>j. j < ?n \<Longrightarrow> lh_block t j = head_blk (?D ?H) j"
    using s1 by (simp_all add: t_def same1 log_slot_def fun_eq_iff)
  have slot_neq: "log_slot s i \<noteq> head_blk (?D ?H) j" if "i < ?n" "j < ?n" for i j
  proof -
    have "log_slot s i \<in> log_area s" using that(1) n by (simp add: log_area_def)
    then show ?thesis using out [OF that(2)] by auto
  qed
  have "\<exists>s2. install_trans t True = Ret s2 \<and> bok (log_dev t) s2 \<and> brest s2 = brest t \<and>
    babs (log_dev t) s2 = fold (\<lambda>j. a_install (\<not> True) (log_slot t j) (lh_block t j)) [0..<0 + nat (lh_n t)] (babs (log_dev t) t)"
    unfolding install_trans_def
    by (rule install_trans_loop_run) (use c cold_quiet [OF c] slot_neq in \<open>auto simp: t tb cold_def NBUF_def\<close>)
  then obtain s2 where s2: "install_trans t True = Ret s2" "bok ?d s2" "brest s2 = brest t"
      "babs ?d s2 = fold (\<lambda>j. a_install False (log_slot s j) (lh_block t j)) [0..<?n] (babs ?d s)"
    by (auto simp: t)
  let ?W = "map (\<lambda>j. (head_blk (?D ?H) j, ?D (log_slot s j))) [0..<?n]"
  have W: "map (\<lambda>j. (lh_block t j, av (babs ?d s) (log_slot s j))) [0..<?n] = ?W" by (simp add: av tb)
  have "log_slot s j \<noteq> lh_block t i" if "i \<in> set [0..<?n]" "j \<in> set [0..<?n]" for i j
    using slot_neq [of j i] that by (simp add: tb)
  from fold_install [of "[0..<?n]" "log_slot s" "lh_block t" False "babs ?d s", OF this]
  have c2: "babs ?d s2 = (babs ?d s)\<lparr>av := apply_writes ?W ?D, ad := apply_writes ?W ?D, aw := written s @ ?W\<rparr>"
    unfolding s2(4) Let_def W by (auto simp: av)
  note same2 = brest_log [OF s2(3), unfolded t]
  let ?s3 = "s2\<lparr>lh_n := 0\<rparr>"
  have e3: "log_dev ?s3 = ?d" "log_start ?s3 = ?H" "lh_n ?s3 = 0" by (simp_all add: same2)
  have ok3: "bok ?d ?s3" using s2(2) by simp
  have q3: "quiet (babs ?d ?s3)" using cold_quiet [OF c] by (simp add: c2 quiet_upd)
  have "?H \<notin> fst ` set ?W" using out by (force simp: log_area_def)
  then have H3: "av (babs ?d ?s3) ?H = ?D ?H" by (simp add: c2 apply_writes_other)
  obtain s4 where s4: "write_head ?s3 = Ret s4" "bok ?d s4"
      "babs ?d s4 = (babs ?d ?s3)\<lparr>av := (av (babs ?d ?s3))(?H := st32 (?D ?H) 0 0), ad := (ad (babs ?d ?s3))(?H := st32 (?D ?H) 0 0),
         aw := aw (babs ?d ?s3) @ [(?H, st32 (?D ?H) 0 0)]\<rparr>"
    using write_head_run [of ?s3, unfolded e3 H3 head_block_0, OF ok3 q3] by blast
  have "recover_from_log s = Ret s4" using s1(1) s2(1) s4(1) by (simp add: recover_from_log_def t_def)
  then show ?thesis using s4(2,3) by (simp add: recovery_writes_def Let_def c2 head_block_0)
qed


lemma apply_writes_idem:
  assumes "\<And>b x. (b, x) \<in> set ws \<Longrightarrow> x = g b" "\<And>b x. (b, x) \<in> set vs \<Longrightarrow> x = g b" "fst ` set ws \<subseteq> fst ` set vs"
  shows "apply_writes vs (apply_writes ws f) = apply_writes vs f"
  using assms by (auto simp: fun_eq_iff apply_writes_same [of _ g])

text \<open>
  The effect of recovery on any prefix of the writes of a commit.  \<open>x j\<close> are the new contents of the
  blocks \<open>bl j\<close>, \<open>H\<close> is the header block and \<open>sl j\<close> are the blocks of the log.
\<close>

lemma recovery_of_prefix:
  fixes H :: u32 and sl bl :: "nat \<Rightarrow> u32" and x :: "nat \<Rightarrow> block" and n :: nat
  defines "W1 \<equiv> map (\<lambda>j. (sl j, x j)) [0..<n]" and "W3 \<equiv> map (\<lambda>j. (bl j, x j)) [0..<n]"
  assumes inj: "inj_on sl {..<n}" and sH: "\<And>j. j < n \<Longrightarrow> sl j \<noteq> H" and out: "\<And>i j. i < n \<Longrightarrow> j < n \<Longrightarrow> bl j \<noteq> H \<and> bl j \<noteq> sl i"
    and g: "\<And>j. j < n \<Longrightarrow> x j = g (bl j)"
    and h1: "head_n h1 = int n" "\<And>j. j < n \<Longrightarrow> head_blk h1 j = bl j" and h2: "head_n h2 = 0" and h0: "head_n (D H) = 0"
    and D': "D' = apply_writes (take k (W1 @ [(H, h1)] @ W3 @ [(H, h2)])) D"
    and b: "b \<noteq> H" "b \<notin> sl ` {..<n}"
  shows "apply_writes (recovery_writes H sl D') D' b = (if k \<le> n then D b else if b \<in> bl ` {..<n} then g b else D b)"
proof -
  have len: "length W1 = n" "length W3 = n" by (simp_all add: W1_def W3_def)
  have f1: "fst ` set W1 = sl ` {..<n}" and f3: "fst ` set W3 = bl ` {..<n}" by (force simp: W1_def W3_def)+
  have sub1: "fst ` set (take k W1) \<subseteq> sl ` {..<n}" using image_mono [OF set_take_subset [of k W1], of fst] f1 by simp
  have Hsl: "H \<notin> sl ` {..<n}" and Hbl: "H \<notin> bl ` {..<n}" using sH out by force+
  consider "k \<le> n" | "n < k" "k \<le> n + 1 + n" | "n + 1 + n < k" by linarith
  then show ?thesis
  proof cases
    case 1
    then have "D' = apply_writes (take k W1) D" by (simp add: D' len)
    moreover have "apply_writes (take k W1) D H = D H" by (rule apply_writes_other) (use sub1 Hsl in auto)
    moreover have "apply_writes (take k W1) D b = D b" by (rule apply_writes_other) (use sub1 b in auto)
    ultimately show ?thesis using 1 b h0 by (simp add: recovery_writes_def)
  next
    case 2
    define m where "m = k - (n + 1)"
    have m: "k = n + 1 + m" "m \<le> n" using 2 by (simp_all add: m_def)
    let ?E = "(apply_writes W1 D)(H := h1)"
    have D'': "D' = apply_writes (take m W3) ?E" using m by (simp add: D' len take_Cons')
    have sub3: "fst ` set (take m W3) \<subseteq> fst ` set W3" by (auto dest: in_set_takeD)
    have DH: "D' H = h1" unfolding D'' by (subst apply_writes_other) (use sub3 f3 Hbl in auto)
    have Ds: "D' (sl j) = x j" if "j < n" for j
    proof -
      have "sl j \<notin> fst ` set (take m W3)" using sub3 f3 out that by force
      moreover have "apply_writes W1 D (sl j) = x j" unfolding W1_def by (rule apply_writes_map) (use inj that in \<open>auto simp: lessThan_atLeast0\<close>)
      ultimately show ?thesis using sH [OF that] by (simp add: D'' apply_writes_other)
    qed
    have rec: "recovery_writes H sl D' = W3 @ [(H, st32 h1 0 0)]"
      using h1 Ds by (simp add: recovery_writes_def DH W3_def)
    have W3g: "y = g a" if "(a, y) \<in> set W3" for a y using that g by (auto simp: W3_def)
    have "apply_writes W3 D' = apply_writes W3 ?E"
      unfolding D'' by (rule apply_writes_idem [of _ g]) (use W3g sub3 in \<open>auto dest: in_set_takeD\<close>)
    then have "apply_writes (recovery_writes H sl D') D' b = (if b \<in> bl ` {..<n} then g b else ?E b)"
      using b by (simp add: rec apply_writes_same [of _ g, OF W3g] f3)
    moreover have "?E b = D b" using b f1 by (simp add: apply_writes_other)
    ultimately show ?thesis using 2 by simp
  next
    case 3
    let ?E = "(apply_writes W1 D)(H := h1)"
    have D'': "D' = (apply_writes W3 ?E)(H := h2)" using 3 by (simp add: D' len)
    have W3g: "y = g a" if "(a, y) \<in> set W3" for a y using that g by (auto simp: W3_def)
    have "?E b = D b" using b f1 by (simp add: apply_writes_other)
    then show ?thesis using 3 b h2 by (simp add: recovery_writes_def D'' apply_writes_same [of _ g, OF W3g] f3)
  qed
qed


lemma bok_log_fields:
  "bok d (s\<lparr>log_start := a, log_size := e, log_dev := f\<rparr>) = bok d s"
  "babs d (s\<lparr>log_start := a, log_size := e, log_dev := f\<rparr>) = babs d s"
  by (simp add: bok_def, auto simp: babs_def slot_of_def bok_def fun_eq_iff split: option.splits)

lemma crash_recovers:
  assumes ready: "log_ready s" and empty: "head_n (disk s (log_start s)) = 0"
    and r: "cold (log_dev s) r" "disk r = apply_writes (take k (commit_writes s)) (disk s)"
  shows "\<exists>r'. initlog r (log_dev s) (log_start s) nlog = Ret r' \<and> head_n (disk r' (log_start s)) = 0 \<and>
    (\<forall>b. b \<notin> log_area s \<longrightarrow> disk r' b = (if k \<le> nat (lh_n s) then disk s b else av (babs (log_dev s) s) b))"
proof -
  let ?H = "log_start s" and ?n = "nat (lh_n s)" and ?c = "babs (log_dev s) s"
  let ?h1 = "head_block (av ?c ?H) (lh_n s) (lh_block s)"
  define t where "t = r\<lparr>log_start := ?H, log_size := sint nlog, log_dev := log_dev s\<rparr>"
  have t: "cold (log_dev t) t" "log_start t = ?H" "log_dev t = log_dev s" "log_slot t = log_slot s" "disk t = disk r" "log_area t = log_area s"
    using r(1) by (simp_all add: t_def cold_def bok_log_fields log_slot_def log_area_def fun_eq_iff)
  have n30: "0 \<le> lh_n s" "lh_n s < 30" using ready by (auto simp: log_ready_def)
  have h1: "head_n ?h1 = int ?n" "\<And>j. j < ?n \<Longrightarrow> head_blk ?h1 j = lh_block s j"
    using n30 by (simp_all add: head_n_block head_blk_block)
  have h2: "head_n (head_block ?h1 0 (lh_block s)) = 0" by (simp add: head_n_block)
  have ws: "commit_writes s = map (\<lambda>j. (log_slot s j, av ?c (lh_block s j))) [0..<?n] @ [(?H, ?h1)] @
      map (\<lambda>j. (lh_block s j, av ?c (lh_block s j))) [0..<?n] @ [(?H, head_block ?h1 0 (lh_block s))]"
    by (simp add: commit_writes_def Let_def)
  have inj: "inj_on (log_slot s) {..<?n}" using n30 by (auto intro: inj_on_subset [OF log_slot_inj])
  have sH: "log_slot s j \<noteq> ?H" if "j < ?n" for j using that n30 by (intro log_slot_start) auto
  have out: "lh_block s j \<noteq> ?H \<and> lh_block s j \<noteq> log_slot s i" if "i < ?n" "j < ?n" for i j
    using log_slot_block [OF ready that] by auto
  have fin: "apply_writes (recovery_writes ?H (log_slot s) (disk r)) (disk r) b =
      (if k \<le> ?n then disk s b else if b \<in> lh_block s ` {..<?n} then av ?c b else disk s b)"
    if "b \<notin> log_area s" for b
  proof (rule recovery_of_prefix [OF inj sH out refl h1 h2 empty r(2) [unfolded ws]])
    show "b \<noteq> ?H" using that by (simp add: log_area_def)
    show "b \<notin> log_slot s ` {..<?n}" using that n30 by (auto simp: log_area_def)
  qed
  have head: "disk r ?H = disk s ?H \<or> disk r ?H = ?h1 \<or> disk r ?H = head_block ?h1 0 (lh_block s)"
  proof -
    have "disk r ?H = disk s ?H \<or> (?H, disk r ?H) \<in> set (commit_writes s)"
      using apply_writes_cases [of "take k (commit_writes s)" "disk s" ?H] unfolding r(2) by (auto dest: in_set_takeD)
    then show ?thesis
    proof
      assume "(?H, disk r ?H) \<in> set (commit_writes s)"
      then consider j where "j < ?n" "log_slot s j = ?H" | "disk r ?H = ?h1" | j where "j < ?n" "lh_block s j = ?H"
        | "disk r ?H = head_block ?h1 0 (lh_block s)" unfolding ws by auto
      then show ?thesis by cases (use sH out in auto)
    qed simp
  qed
  have "head_n (disk r ?H) \<le> 29"
    using head empty h1(1) h2 n30 by auto
  moreover have "head_blk (disk r ?H) j \<notin> log_area s" if "j < nat (head_n (disk r ?H))" for j
    using head that empty h1 h2 ready by (auto simp: log_ready_def)
  ultimately obtain r' where r': "recover_from_log t = Ret r'"
      "babs (log_dev s) r' = (babs (log_dev s) t)\<lparr>av := apply_writes (recovery_writes ?H (log_slot s) (disk r)) (disk r),
         ad := apply_writes (recovery_writes ?H (log_slot s) (disk r)) (disk r), aw := written t @ recovery_writes ?H (log_slot s) (disk r)\<rparr>"
    using recover_run [OF t(1)] by (auto simp: t Let_def)
  have disk': "disk r' = apply_writes (recovery_writes ?H (log_slot s) (disk r)) (disk r)"
    using arg_cong [OF r'(2), of ad] by simp
  have "av ?c b = disk s b" if "b \<notin> lh_block s ` {..<?n}" for b
    using unheld_clean [of "log_dev s" s b] ready that by (simp add: log_ready_def)
  moreover have "initlog r (log_dev s) ?H nlog = Ret r'"
    using r'(1) by (simp add: initlog_def t_def LOGSIZE_def MAXOPBLOCKS_def BSIZE_def)
  moreover have "head_n (disk r' ?H) = 0"
    by (simp add: disk' recovery_writes_def head_n_def)
  ultimately show ?thesis using fin by (auto simp: disk')
qed

end
