(* ===== verification/LogStore.thy ===== *)
theory LogStore
  imports LogSpec
begin

text \<open>
  What the file system sees of the block layers inside a transaction: blocks are read, changed,
  logged and released.  The locale \<open>logged_store\<close> is that interface, with the block contents the file
  system works on, the blocks on the disk, and the set of the blocks in the transaction; it is
  interpreted on \<^verbatim>\<open>kernel/bio.c\<close> and \<^verbatim>\<open>kernel/log.c\<close>.
\<close>

section \<open>The state inside a transaction\<close>

definition logged :: "'z klog_scheme \<Rightarrow> u32 set" where
  "logged s = lh_block s ` {..<nat (lh_n s)}"

abbreviation view :: "'z klog_scheme \<Rightarrow> u32 \<Rightarrow> block" where
  "view s \<equiv> av (babs (log_dev s) s)"

text \<open>\<open>X\<close> is the set of the blocks whose buffers the running process holds.\<close>

definition log_inv :: "u32 \<Rightarrow> 'z klog_scheme \<Rightarrow> u32 set \<Rightarrow> bool" where
  "log_inv d s X \<longleftrightarrow> log_dev s = d \<and> bok d s \<and> finite X \<and> (\<forall>b. af (babs d s) b \<longleftrightarrow> b \<notin> X) \<and> 0 \<le> lh_n s \<and> lh_n s < 30 \<and>
     inj_on (lh_block s) {..<nat (lh_n s)} \<and> logged s \<inter> log_area s = {} \<and>
     (\<forall>b. ar (babs d s) b = of_bool (b \<in> logged s) + of_bool (b \<in> X))"

lemma log_inv_ready: "log_inv d s {} \<longleftrightarrow> log_dev s = d \<and> log_ready s"
  by (auto simp: log_inv_def log_ready_def logged_def)

definition lrest :: "'z klog_scheme \<Rightarrow> _" where
  "lrest s = (written s, brest (s\<lparr>lh_n := 0, lh_block := (\<lambda>_. 0)\<rparr>))"

lemma lrest_log:
  fixes s s' :: "'z klog_scheme"
  assumes "lrest s' = lrest s"
  shows "log_start s' = log_start s" "log_dev s' = log_dev s" "log_size s' = log_size s" "log_outstanding s' = log_outstanding s"
    "log_committing s' = log_committing s" "klog.more s' = klog.more s" "written s' = written s" "curp s' = curp s"
    "pmem s' = pmem s" "freelist s' = freelist s" "sym_end s' = sym_end s"
  using assms by (cases s; cases s'; simp add: lrest_def brest_def)+

definition log_cap :: "'z klog_scheme \<Rightarrow> nat" where
  "log_cap s = (if log_outstanding s < 1 then 0 else nat (min 29 (log_size s - 1)))"

lemma finite_logged [simp]: "finite (logged s)" by (simp add: logged_def)

lemma card_logged: "log_inv d s X \<Longrightarrow> int (card (logged s)) = lh_n s"
  by (simp add: log_inv_def logged_def card_image)

lemma lrest_cong:
  fixes s s' :: "'z klog_scheme"
  assumes "brest s' = brest s"
  shows "written s' = written s \<Longrightarrow> lrest s' = lrest s" "logged s' = logged s" "log_area s' = log_area s" "log_cap s' = log_cap s" "log_dev s' = log_dev s"
proof -
  note e = brest_log [OF assms]
  show "logged s' = logged s" "log_area s' = log_area s" "log_cap s' = log_cap s" "log_dev s' = log_dev s"
    by (simp_all add: logged_def log_area_def log_slot_def log_cap_def e cong: image_cong_simp)
  show "written s' = written s \<Longrightarrow> lrest s' = lrest s" using assms by (cases s; cases s') (simp add: lrest_def brest_def)
qed

lemma log_inv_step:
  fixes s s' :: "'z klog_scheme"
  assumes "log_inv d s X" "brest s' = brest s" "bok d s'" "finite X'" "\<And>b. af (babs d s') b \<longleftrightarrow> b \<notin> X'"
    "\<And>b. ar (babs d s') b = of_bool (b \<in> logged s) + of_bool (b \<in> X')"
  shows "log_inv d s' X'"
  using assms by (simp add: log_inv_def lrest_cong [OF assms(2)] brest_log [OF assms(2)])

section \<open>The interface of the file system\<close>

locale logged_store =
  fixes rd :: "'s \<Rightarrow> u32 \<Rightarrow> (nat \<times> 's) res"
    and lw :: "'s \<Rightarrow> nat \<Rightarrow> 's res"
    and rl :: "'s \<Rightarrow> nat \<Rightarrow> 's res"
    and st :: "'s \<Rightarrow> nat \<Rightarrow> block \<Rightarrow> 's"
    and dt :: "'s \<Rightarrow> nat \<Rightarrow> block"
    and inv :: "'s \<Rightarrow> u32 set \<Rightarrow> bool"
    and hl :: "'s \<Rightarrow> nat \<Rightarrow> u32 \<Rightarrow> bool"
    and vw :: "'s \<Rightarrow> u32 \<Rightarrow> block"
    and ds :: "'s \<Rightarrow> u32 \<Rightarrow> block"
    and lg :: "'s \<Rightarrow> u32 set"
    and cp :: "'s \<Rightarrow> nat"
    and la :: "'s \<Rightarrow> u32 set"
    and rs :: "'s \<Rightarrow> 'r"
  assumes rd_law: "inv s X \<Longrightarrow> b \<notin> X \<Longrightarrow> b \<in> lg s \<or> card (lg s \<union> X) < NBUF \<Longrightarrow>
      \<exists>i s'. rd s b = Ret (i, s') \<and> inv s' (insert b X) \<and> hl s' i b \<and> vw s' = vw s \<and> ds s' = ds s \<and> lg s' = lg s \<and>
        cp s' = cp s \<and> la s' = la s \<and> rs s' = rs s \<and> (\<forall>j c. hl s j c \<longrightarrow> hl s' j c)"
    and hl_law: "inv s X \<Longrightarrow> hl s i b \<Longrightarrow> b \<in> X \<and> dt s i = vw s b"
    and clean_law: "inv s X \<Longrightarrow> b \<notin> lg s \<Longrightarrow> b \<notin> X \<Longrightarrow> vw s b = ds s b"
    and st_law: "inv s X \<Longrightarrow> hl s i b \<Longrightarrow> inv (st s i x) X \<and> vw (st s i x) = (vw s)(b := x) \<and> ds (st s i x) = ds s \<and>
        lg (st s i x) = lg s \<and> cp (st s i x) = cp s \<and> la (st s i x) = la s \<and> rs (st s i x) = rs s \<and> (\<forall>j c. hl s j c \<longrightarrow> hl (st s i x) j c)"
    and lw_law: "inv s X \<Longrightarrow> hl s i b \<Longrightarrow> b \<notin> la s \<Longrightarrow> card (lg s) < cp s \<Longrightarrow>
        \<exists>s'. lw s i = Ret s' \<and> inv s' X \<and> vw s' = vw s \<and> ds s' = ds s \<and> lg s' = insert b (lg s) \<and>
          cp s' = cp s \<and> la s' = la s \<and> rs s' = rs s \<and> (\<forall>j c. hl s j c \<longrightarrow> hl s' j c)"
    and rl_law: "inv s X \<Longrightarrow> hl s i b \<Longrightarrow> b \<in> lg s \<or> vw s b = ds s b \<Longrightarrow>
        \<exists>s'. rl s i = Ret s' \<and> inv s' (X - {b}) \<and> vw s' = vw s \<and> ds s' = ds s \<and> lg s' = lg s \<and>
          cp s' = cp s \<and> la s' = la s \<and> rs s' = rs s \<and> (\<forall>j c. hl s j c \<longrightarrow> c \<noteq> b \<longrightarrow> hl s' j c)"
begin

definition kept :: "'s \<Rightarrow> 's \<Rightarrow> bool" where
  "kept s s' \<longleftrightarrow> ds s' = ds s \<and> cp s' = cp s \<and> la s' = la s \<and> rs s' = rs s \<and> (\<forall>j c. hl s j c \<longrightarrow> hl s' j c)"

text \<open>A block is read, looked at and released.\<close>

lemma look:
  assumes "inv s X" "b \<notin> X" "b \<in> lg s \<or> card (lg s \<union> X) < NBUF"
  shows "\<exists>i s1. rd s b = Ret (i, s1) \<and> dt s1 i = vw s b \<and>
    (\<exists>s'. rl s1 i = Ret s' \<and> inv s' X \<and> vw s' = vw s \<and> lg s' = lg s \<and> kept s s')"
proof -
  obtain i s1 where r: "rd s b = Ret (i, s1)" "inv s1 (insert b X)" "hl s1 i b" "vw s1 = vw s" "ds s1 = ds s" "lg s1 = lg s"
      "cp s1 = cp s" "la s1 = la s" "rs s1 = rs s" "\<And>j c. hl s j c \<Longrightarrow> hl s1 j c"
    using rd_law [OF assms] by blast
  have "b \<in> lg s1 \<or> vw s1 b = ds s1 b" using clean_law [OF assms(1) _ assms(2)] by (auto simp: r)
  from rl_law [OF r(2,3) this] obtain s' where s': "rl s1 i = Ret s'" "inv s' (insert b X - {b})" "vw s' = vw s1" "ds s' = ds s1"
      "lg s' = lg s1" "cp s' = cp s1" "la s' = la s1" "rs s' = rs s1" "\<And>j c. hl s1 j c \<Longrightarrow> c \<noteq> b \<Longrightarrow> hl s' j c" by blast
  have "c \<noteq> b" if "hl s j c" for j c using hl_law [OF assms(1) that] assms(2) by auto
  then have "kept s s'" using r(5-10) s'(4,6-9) by (auto simp: kept_def)
  then show ?thesis using r(1,4,6) s' hl_law [OF r(2,3)] assms(2) by (auto simp: insert_Diff_if)
qed

text \<open>A block is read, changed, logged and released.\<close>

lemma update:
  assumes "inv s X" "b \<notin> X" "b \<in> lg s \<or> card (lg s \<union> X) < NBUF" "b \<notin> la s" "card (lg s) < cp s"
  shows "\<exists>i s1. rd s b = Ret (i, s1) \<and> dt s1 i = vw s b \<and>
    (\<forall>x. \<exists>s2 s'. lw (st s1 i x) i = Ret s2 \<and> rl s2 i = Ret s' \<and> inv s' X \<and> vw s' = (vw s)(b := x) \<and>
      lg s' = insert b (lg s) \<and> kept s s')"
proof -
  obtain i s1 where r: "rd s b = Ret (i, s1)" "inv s1 (insert b X)" "hl s1 i b" "vw s1 = vw s" "ds s1 = ds s" "lg s1 = lg s"
      "cp s1 = cp s" "la s1 = la s" "rs s1 = rs s" "\<And>j c. hl s j c \<Longrightarrow> hl s1 j c"
    using rd_law [OF assms(1-3)] by blast
  have c: "c \<noteq> b" if "hl s j c" for j c using hl_law [OF assms(1) that] assms(2) by auto
  have "\<exists>s2 s'. lw (st s1 i x) i = Ret s2 \<and> rl s2 i = Ret s' \<and> inv s' X \<and> vw s' = (vw s)(b := x) \<and>
      lg s' = insert b (lg s) \<and> kept s s'" for x
  proof -
    let ?t = "st s1 i x"
    have t: "inv ?t (insert b X)" "vw ?t = (vw s)(b := x)" "ds ?t = ds s" "lg ?t = lg s" "cp ?t = cp s" "la ?t = la s" "rs ?t = rs s"
        "\<And>j c. hl s1 j c \<Longrightarrow> hl ?t j c"
      using st_law [OF r(2,3), of x] by (simp_all add: r)
    have la: "b \<notin> la ?t" "card (lg ?t) < cp ?t" using assms(4,5) by (simp_all add: t)
    obtain s2 where s2: "lw ?t i = Ret s2" "inv s2 (insert b X)" "vw s2 = vw ?t" "ds s2 = ds ?t" "lg s2 = insert b (lg ?t)"
        "cp s2 = cp ?t" "la s2 = la ?t" "rs s2 = rs ?t" "\<And>j c. hl ?t j c \<Longrightarrow> hl s2 j c"
      using lw_law [OF t(1) t(8) [OF r(3)] la] by blast
    obtain s' where s': "rl s2 i = Ret s'" "inv s' (insert b X - {b})" "vw s' = vw s2" "ds s' = ds s2"
        "lg s' = lg s2" "cp s' = cp s2" "la s' = la s2" "rs s' = rs s2" "\<And>j c. hl s2 j c \<Longrightarrow> c \<noteq> b \<Longrightarrow> hl s' j c"
      using rl_law [OF s2(2) s2(9) [OF t(8) [OF r(3)]]] s2(5) by blast
    have "kept s s'" using c r(10) t s2(4-9) s'(4-9) by (simp add: kept_def)
    then show ?thesis using s2 s' t assms(2) by (auto simp: insert_Diff_if)
  qed
  then show ?thesis using r(1,4) hl_law [OF r(2,3)] by auto
qed

end

section \<open>The buffer cache and the log provide it\<close>

lemma babs_ad_aw: "babs d s' = c \<Longrightarrow> disk s' = ad c \<and> written s' = aw c" by auto

lemma log_inv_pos: "log_inv d s X \<Longrightarrow> {x. 0 < ar (babs d s) x} = logged s \<union> X"
  by (auto simp: log_inv_def)

lemma bread_logged:
  assumes "log_inv d s X" "b \<notin> X" "b \<in> logged s \<or> card (logged s \<union> X) < NBUF"
  shows "\<exists>i s'. bread s d b = Ret (i, s') \<and> log_inv d s' (insert b X) \<and> bholds d s' i b \<and> babs d s' = a_read b (babs d s) \<and>
    brest s' = brest s \<and> (\<forall>j c. bholds d s j c \<longrightarrow> bholds d s' j c)"
proof -
  have pre: "bok d s" "af (babs d s) b" "a_room b (babs d s)" "ar (babs d s) b + 1 < 2 ^ 32"
    using assms log_inv_pos [OF assms(1)] by (auto simp: log_inv_def a_room_def)
  obtain i s' where r: "bread s d b = Ret (i, s')" "bok d s'" "babs d s' = a_read b (babs d s)" "bholds d s' i b" "brest s' = brest s"
      "\<And>j c. bholds d s j c \<Longrightarrow> bholds d s' j c"
    using bcache.rd_law [OF pre] by blast
  have "log_inv d s' (insert b X)"
    by (rule log_inv_step [OF assms(1) r(5,2)]) (use assms in \<open>auto simp: r(3) a_read_def log_inv_def\<close>)
  then show ?thesis using r by blast
qed

lemma brelse_logged:
  assumes "log_inv d s X" "bholds d s i b" "b \<in> logged s \<or> av (babs d s) b = disk s b"
  shows "\<exists>s'. brelse s i = Ret s' \<and> log_inv d s' (X - {b}) \<and> babs d s' = a_rel b (babs d s) \<and> brest s' = brest s \<and>
    (\<forall>j c. bholds d s j c \<longrightarrow> c \<noteq> b \<longrightarrow> bholds d s' j c)"
proof -
  have ok: "bok d s" using assms(1) by (simp add: log_inv_def)
  have b: "b \<in> X" using assms(1) bcache.hl_law [OF ok assms(2)] by (auto simp: log_inv_def)
  have "av (babs d s) b = ad (babs d s) b" if "ar (babs d s) b = 1"
    using that assms(1,3) b by (auto simp: log_inv_def)
  then obtain s' where r: "brelse s i = Ret s'" "bok d s'" "babs d s' = a_rel b (babs d s)" "brest s' = brest s"
      "\<And>j c. bholds d s j c \<Longrightarrow> c \<noteq> b \<Longrightarrow> bholds d s' j c"
    using bcache.rl_law [OF ok assms(2)] by blast
  have "log_inv d s' (X - {b})"
    by (rule log_inv_step [OF assms(1) r(4,2)]) (use assms(1) b in \<open>auto simp: r(3) a_rel_def log_inv_def\<close>)
  then show ?thesis using r by blast
qed

lemma find_logged: "find (\<lambda>i. lh_block s i = b) [0..<nat (lh_n s)] = None \<longleftrightarrow> b \<notin> logged s"
  by (auto simp: find_None_iff logged_def)

text \<open>A block that is already in the transaction is not added again.\<close>

lemma log_write_absorbs:
  assumes "b_blockno (bufs s i) \<in> logged s" "card (logged s) < log_cap s" "int (card (logged s)) = lh_n s"
  shows "log_write s i = Ret s"
proof -
  let ?P = "\<lambda>j. lh_block s j = b_blockno (bufs s i)"
  obtain j where j: "find ?P [0..<nat (lh_n s)] = Some j" using find_logged [of s "b_blockno (bufs s i)"] assms(1) by auto
  then have "lh_block s j = b_blockno (bufs s i)" "j < nat (lh_n s)" by (auto dest: find_SomeD)
  then show ?thesis using assms(2,3) j
    by (auto simp: log_write_def log_cap_def LOGSIZE_def MAXOPBLOCKS_def fun_upd_idem split: if_splits)
qed

lemma log_write_adds:
  assumes "b_blockno (bufs s i) \<notin> logged s" "card (logged s) < log_cap s" "int (card (logged s)) = lh_n s"
  shows "log_write s i =
    Ret ((bpin (s\<lparr>lh_block := (lh_block s)(nat (lh_n s) := b_blockno (bufs s i))\<rparr>) i)\<lparr>lh_n := lh_n s + 1\<rparr>)"
proof -
  have "find (\<lambda>j. lh_block s j = b_blockno (bufs s i)) [0..<nat (lh_n s)] = None" using find_logged assms(1) by blast
  then show ?thesis using assms(2,3)
    by (auto simp: log_write_def log_cap_def LOGSIZE_def MAXOPBLOCKS_def Let_def split: if_splits)
qed

lemma log_write_logged:
  assumes inv: "log_inv d s X" and h: "bholds d s i b" and b: "b \<notin> log_area s" and c: "card (logged s) < log_cap s"
  shows "\<exists>s'. log_write s i = Ret s' \<and> log_inv d s' X \<and> av (babs d s') = av (babs d s) \<and> disk s' = disk s \<and>
    logged s' = insert b (logged s) \<and> log_cap s' = log_cap s \<and> log_area s' = log_area s \<and> lrest s' = lrest s \<and>
    (\<forall>j c. bholds d s j c \<longrightarrow> bholds d s' j c)"
proof (cases "b \<in> logged s")
  case True
  have "b_blockno (bufs s i) = b" using h by (simp add: bholds_def)
  then have "log_write s i = Ret s" using True c card_logged [OF inv] by (intro log_write_absorbs) auto
  then show ?thesis using inv True by (auto simp: insert_absorb)
next
  case False
  let ?n = "nat (lh_n s)"
  let ?s' = "(bpin s i)\<lparr>lh_n := lh_n s + 1, lh_block := (lh_block s)(?n := b)\<rparr>"
  have n: "0 \<le> lh_n s" "lh_n s + 1 < 30" "inj_on (lh_block s) {..<?n}"
    using inv c card_logged [OF inv] by (auto simp: log_inv_def log_cap_def split: if_splits)
  have bn: "b_blockno (bufs s i) = b" using h by (simp add: bholds_def)
  have lw: "log_write s i = Ret ?s'"
    using log_write_adds [of s i] False c card_logged [OF inv] by (simp add: bn bpin_def upd_buf_def)
  have p: "bok d (bpin s i)" "babs d (bpin s i) = a_pin b (babs d s)" "brest (bpin s i) = brest s"
      "\<And>j c. bholds d s j c \<Longrightarrow> bholds d (bpin s i) j c"
    using bcache.pn_law [OF _ h] inv by (auto simp: log_inv_def)
  note e = lrest_cong [OF p(3)] brest_log [OF p(3)]
  have ext: "{..<nat (lh_n s + 1)} = insert ?n {..<?n}" using n(1) by auto
  have lg: "logged ?s' = insert b (logged s)" unfolding logged_def by (simp add: ext del: fun_upd_apply) (auto simp: image_def)
  have area: "log_area ?s' = log_area s" by (simp add: log_area_def log_slot_def e cong: image_cong_simp)
  have hl: "bholds d ?s' j c \<longleftrightarrow> bholds d (bpin s i) j c" for j c by (simp add: bholds_def holdingsleep_def)
  have abs: "babs d ?s' = a_pin b (babs d s)" "bok d ?s'" using p(1,2) by simp_all
  have rest: "lrest ?s' = lrest s" using e(1) babs_ad_aw [OF p(2)] by (simp add: lrest_def a_pin_def)
  have "inj_on (lh_block ?s') {..<nat (lh_n ?s')}"
    using n(3) False by (simp add: ext logged_def) (auto simp: inj_on_def)
  then have "log_inv d ?s' X"
    using inv b n False abs by (simp add: log_inv_def lg area e) (auto simp: a_pin_def)
  moreover have "log_cap ?s' = log_cap s" by (simp add: log_cap_def e)
  moreover have "av (babs d ?s') = av (babs d s)" "disk ?s' = disk s" using babs_ad_aw [OF p(2)] by (simp_all add: p(2) a_pin_def)
  ultimately show ?thesis using lw lg area rest p(4) hl by blast
qed

interpretation lstore: logged_store "\<lambda>s. bread s d" log_write brelse set_bdata bdata "log_inv d" "bholds d"
    "\<lambda>s. av (babs d s)" disk logged log_cap log_area lrest
  for d :: u32
proof (unfold_locales, goal_cases)
  case (1 s X b)
  then obtain i s' where r: "bread s d b = Ret (i, s')" "log_inv d s' (insert b X)" "bholds d s' i b" "babs d s' = a_read b (babs d s)"
      "brest s' = brest s" "\<And>j c. bholds d s j c \<Longrightarrow> bholds d s' j c"
    using bread_logged by blast
  have "av (babs d s') = av (babs d s)" "disk s' = disk s" "written s' = written s" using babs_ad_aw [OF r(4)] by (simp_all add: r(4) a_read_def)
  then show ?case using r lrest_cong [OF r(5)] by blast
next
  case (2 s X i b)
  then have "bok d s" by (simp add: log_inv_def)
  then show ?case using 2 bcache.hl_law [of d s i b] bcache.dt_law [of d s i b] by (auto simp: log_inv_def)
next
  case (3 s X b)
  then show ?case using bcache.clean_law [of d s b] by (simp add: log_inv_def)
next
  case (4 s X i b x)
  then have ok: "bok d s" by (simp add: log_inv_def)
  note r = bcache.st_law [OF ok 4(2), of x]
  then have r': "bok d (set_bdata s i x)" "babs d (set_bdata s i x) = a_set b x (babs d s)" "brest (set_bdata s i x) = brest s" by auto
  have "log_inv d (set_bdata s i x) X"
    by (rule log_inv_step [OF 4(1) r'(3,1)]) (use 4(1) in \<open>auto simp: r'(2) a_set_def log_inv_def\<close>)
  moreover have "disk (set_bdata s i x) = disk s" "written (set_bdata s i x) = written s" using babs_ad_aw [OF r'(2)] by (simp_all add: a_set_def)
  ultimately show ?case using r lrest_cong [OF r'(3)] by (auto simp: a_set_def)
next
  case (5 s X i b)
  then show ?case by (rule log_write_logged)
next
  case (6 s X i b)
  then obtain s' where r: "brelse s i = Ret s'" "log_inv d s' (X - {b})" "babs d s' = a_rel b (babs d s)" "brest s' = brest s"
      "\<And>j c. bholds d s j c \<Longrightarrow> c \<noteq> b \<Longrightarrow> bholds d s' j c"
    using brelse_logged by blast
  have "av (babs d s') = av (babs d s)" "disk s' = disk s" "written s' = written s" using babs_ad_aw [OF r(3)] by (simp_all add: r(3) a_rel_def)
  then show ?case using r lrest_cong [OF r(4)] by blast
qed

end
