(* ===== verification/FsSpec.thy ===== *)
theory FsSpec
  imports Fs LogStore
begin

text \<open>
  The block allocator, inodes and file contents of \<^verbatim>\<open>kernel/fs.c\<close> on the blocks that the file system sees
  inside a transaction.
\<close>

section \<open>The part of the state that block operations keep\<close>

lemma lrest_kfs:
  fixes s s' :: "'z kfs_scheme"
  assumes "lrest s' = lrest s"
  shows "sb s' = sb s" "inodes s' = inodes s" "kfs.more s' = kfs.more s"
  using lrest_log(6) [OF assms] by (cases s; cases s'; simp)+

lemma brest_kfs:
  fixes s s' :: "'z kfs_scheme"
  assumes "brest s' = brest s"
  shows "sb s' = sb s" "inodes s' = inodes s" "kfs.more s' = kfs.more s"
  using brest_log(8) [OF assms] by (cases s; cases s'; simp)+

lemma cache_inodes [simp]:
  "bok d (s\<lparr>inodes := I\<rparr>) = bok d s" "babs d (s\<lparr>inodes := I\<rparr>) = babs d s" "bholds d (s\<lparr>inodes := I\<rparr>) i b = bholds d s i b"
  by (simp_all add: bok_def babs_def slot_of_def bholds_def holdingsleep_def cong: option.case_cong if_cong)

lemma log_inodes [simp]:
  "logged (s\<lparr>inodes := I\<rparr>) = logged s" "log_area (s\<lparr>inodes := I\<rparr>) = log_area s" "log_cap (s\<lparr>inodes := I\<rparr>) = log_cap s"
  "log_inv d (s\<lparr>inodes := I\<rparr>) X = log_inv d s X"
  by (simp_all add: logged_def log_area_def log_slot_def log_cap_def log_inv_def cong: image_cong_simp)

text \<open>The state a block operation leaves: the blocks \<open>V\<close>, the transaction \<open>L\<close>, and the rest as before.\<close>

definition fs_step :: "u32 \<Rightarrow> u32 set \<Rightarrow> 'z kfs_scheme \<Rightarrow> (u32 \<Rightarrow> block) \<Rightarrow> u32 set \<Rightarrow> 'z kfs_scheme \<Rightarrow> bool" where
  "fs_step d X s V L s' \<longleftrightarrow> log_inv d s' X \<and> av (babs d s') = V \<and> logged s' = L \<and> lstore.kept d s s'"

lemma fs_stepD:
  assumes "fs_step d X s V L s'"
  shows "log_inv d s' X" "av (babs d s') = V" "logged s' = L" "disk s' = disk s" "log_cap s' = log_cap s" "log_area s' = log_area s"
    "lrest s' = lrest s" "sb s' = sb s" "inodes s' = inodes s" "log_dev s' = d" "pmem s' = pmem s" "curp s' = curp s"
    "bholds d s j c \<Longrightarrow> bholds d s' j c"
  using assms lrest_kfs [of s' s] lrest_log [of s' s] by (auto simp: fs_step_def lstore.kept_def log_inv_def)

lemma fs_step_trans:
  "fs_step d X s V L s1 \<Longrightarrow> fs_step d Y s1 V' L' s2 \<Longrightarrow> fs_step d Y s V' L' s2"
  by (simp add: fs_step_def lstore.kept_def)

lemma fs_step_refl: "log_inv d s X \<Longrightarrow> fs_step d X s (view s) (logged s) s"
  by (simp add: fs_step_def lstore.kept_def log_inv_def)

lemma fs_look:
  assumes "log_inv d s X" "b \<notin> X" "b \<in> logged s \<or> card (logged s \<union> X) < NBUF"
  shows "\<exists>i s1 s'. bread s d b = Ret (i, s1) \<and> bdata s1 i = view s b \<and> brelse s1 i = Ret s' \<and> fs_step d X s (view s) (logged s) s'"
proof -
  have "log_dev s = d" using assms(1) by (simp add: log_inv_def)
  then show ?thesis using lstore.look [OF assms] by (simp add: fs_step_def)
qed

lemma fs_update:
  assumes "log_inv d s X" "b \<notin> X" "b \<in> logged s \<or> card (logged s \<union> X) < NBUF" "b \<notin> log_area s" "card (logged s) < log_cap s"
  shows "\<exists>i s1. bread s d b = Ret (i, s1) \<and> bdata s1 i = view s b \<and> inodes s1 = inodes s \<and> sb s1 = sb s \<and>
    (\<forall>x. \<exists>s2 s'. log_write (set_bdata s1 i x) i = Ret s2 \<and> brelse s2 i = Ret s' \<and>
      fs_step d X s ((view s)(b := x)) (insert b (logged s)) s')"
proof -
  have d: "log_dev s = d" using assms(1) by (simp add: log_inv_def)
  obtain i s1 where r: "bread s d b = Ret (i, s1)" "bdata s1 i = av (babs d s) b" and
    u: "\<forall>x. \<exists>s2 s'. log_write (set_bdata s1 i x) i = Ret s2 \<and> brelse s2 i = Ret s' \<and> log_inv d s' X \<and>
      av (babs d s') = (av (babs d s))(b := x) \<and> logged s' = insert b (logged s) \<and> lstore.kept d s s'"
    using lstore.update [OF assms] by blast
  have e: "brest s1 = brest s" using bread_logged [OF assms(1-3)] r(1) by auto
  have "inodes s1 = inodes s" "sb s1 = sb s" by (rule brest_kfs [OF e])+
  then show ?thesis using r u d by (simp add: fs_step_def)
qed

section \<open>The block bitmap\<close>

definition block_used :: "(u32 \<Rightarrow> block) \<Rightarrow> superblock \<Rightarrow> nat \<Rightarrow> bool" where
  "block_used V S n \<longleftrightarrow> V (BBLOCK (of_nat n) S) (n mod BPB div 8) AND bit_mask (n mod BPB) \<noteq> 0"

definition bit_set :: "block \<Rightarrow> nat \<Rightarrow> block" where
  "bit_set d bi = d(bi div 8 := d (bi div 8) OR bit_mask bi)"

definition bit_clear :: "block \<Rightarrow> nat \<Rightarrow> block" where
  "bit_clear d bi = d(bi div 8 := d (bi div 8) AND NOT (bit_mask bi))"

lemma bit_maskD: "(x AND bit_mask bi = 0) = (\<not> bit x (bi mod 8))"
  by (simp add: bit_mask_def bit_iff_and_push_bit_not_eq_0)

lemma balloc_bits_Some:
  "balloc_bits d b sz bi = Some k \<Longrightarrow> bi \<le> k \<and> k < BPB \<and> b + k < sz \<and> d (k div 8) AND bit_mask k = 0 \<and>
    (\<forall>j. bi \<le> j \<and> j < k \<longrightarrow> d (j div 8) AND bit_mask j \<noteq> 0)"
proof (induction d b sz bi rule: balloc_bits.induct)
  case (1 d b sz bi)
  show ?case
  proof (cases "d (bi div 8) AND bit_mask bi = 0")
    case False
    then have "balloc_bits d b sz (Suc bi) = Some k" "bi < BPB" "b + bi < sz"
      using 1(2) balloc_bits.simps [of d b sz bi] by (auto split: if_splits)
    then show ?thesis using 1(1) False by (metis Suc_leD Suc_leI le_neq_implies_less)
  next
    case True
    then show ?thesis using 1(2) balloc_bits.simps [of d b sz bi] by (auto split: if_splits)
  qed
qed

lemma balloc_bits_None:
  "balloc_bits d b sz bi = None \<Longrightarrow> bi \<le> k \<Longrightarrow> k < BPB \<Longrightarrow> b + k < sz \<Longrightarrow> d (k div 8) AND bit_mask k \<noteq> 0"
proof (induction d b sz bi rule: balloc_bits.induct)
  case (1 d b sz bi)
  then show ?case using balloc_bits.simps [of d b sz bi] by (cases "bi = k") (auto split: if_splits)
qed


lemma bit_bit_mask: "bit (bit_mask bi) n \<longleftrightarrow> n = bi mod 8"
  by (auto simp: bit_mask_def bit_simps)

lemma bit_set_read: "(bit_set d bi (k div 8) AND bit_mask k = 0) = (d (k div 8) AND bit_mask k = 0 \<and> k \<noteq> bi)"
proof (cases "k div 8 = bi div 8")
  case True
  have "k mod 8 = bi mod 8 \<longleftrightarrow> k = bi" using True by (metis div_mult_mod_eq)
  then show ?thesis using True by (auto simp: bit_set_def bit_maskD bit_simps bit_bit_mask)
qed (auto simp: bit_set_def)

lemma bit_clear_read: "(bit_clear d bi (k div 8) AND bit_mask k = 0) = (d (k div 8) AND bit_mask k = 0 \<or> k = bi)"
proof (cases "k div 8 = bi div 8")
  case True
  have "k mod 8 = bi mod 8 \<longleftrightarrow> k = bi" using True by (metis div_mult_mod_eq)
  then show ?thesis using True by (auto simp: bit_clear_def bit_maskD bit_simps bit_bit_mask)
qed (auto simp: bit_clear_def)

lemma bitmap_block:
  assumes "BPB dvd b" "k < BPB" "b + k < 2 ^ 32"
  shows "BBLOCK (of_nat (b + k)) S = BBLOCK (of_nat b) S" "(b + k) mod BPB = k"
proof -
  have u: "unat (of_nat (b + k) :: u32) = b + k" "unat (of_nat b :: u32) = b" using assms(3) by (simp_all add: unat_of_nat del: of_nat_add)
  have "(b + k) div BPB = b div BPB" using assms(1,2) by (auto simp: div_add1_eq elim!: dvdE)
  then have "(of_nat (b + k) :: u32) div of_nat BPB = of_nat b div of_nat BPB"
    by (simp only: word_unat_eq_iff unat_div u) (simp add: BPB_def BSIZE_def unat_of_nat)
  then show "BBLOCK (of_nat (b + k)) S = BBLOCK (of_nat b) S" by (simp add: BBLOCK_def)
  show "(b + k) mod BPB = k" using assms(1,2) by (auto simp: mod_add_left_eq elim!: dvdE)
qed

text \<open>
  What the allocator relies on: the bitmap blocks are outside the log and not held, and a free block is
  neither of these, nor a bitmap block, nor block 0.
\<close>

definition bitmap_ok :: "'z kfs_scheme \<Rightarrow> u32 set \<Rightarrow> bool" where
  "bitmap_ok s X \<longleftrightarrow>
     (\<forall>n<unat (sb_size (sb s)). BBLOCK (of_nat n) (sb s) \<notin> log_area s \<union> X) \<and>
     (\<forall>n<unat (sb_size (sb s)). \<not> block_used (view s) (sb s) n \<longrightarrow> n \<noteq> 0 \<and> of_nat n \<notin> log_area s \<union> X \<and>
        (\<forall>m<unat (sb_size (sb s)). of_nat n \<noteq> BBLOCK (of_nat m) (sb s)))"

definition zero_block :: "block \<Rightarrow> block" where "zero_block x = blk_fill x 0 BSIZE 0"

lemma bzero_run:
  assumes "log_inv d s X" "b \<notin> X" "card (logged s \<union> X) < NBUF" "b \<notin> log_area s" "card (logged s) < log_cap s"
  shows "\<exists>s'. bzero s d b = Ret s' \<and> fs_step d X s ((view s)(b := zero_block (view s b))) (insert b (logged s)) s'"
proof -
  obtain i s1 where r: "bread s d b = Ret (i, s1)" "bdata s1 i = view s b" and u: "\<forall>x. \<exists>s2 s'. log_write (set_bdata s1 i x) i = Ret s2 \<and>
      brelse s2 i = Ret s' \<and> fs_step d X s ((view s)(b := x)) (insert b (logged s)) s'"
    using fs_update [OF assms(1,2) disjI2 [OF assms(3)] assms(4,5)] by blast
  from u obtain s2 s' where "log_write (set_bdata s1 i (zero_block (view s b))) i = Ret s2" "brelse s2 i = Ret s'"
      "fs_step d X s ((view s)(b := zero_block (view s b))) (insert b (logged s)) s'" by blast
  then show ?thesis using r by (auto simp: bzero_def zero_block_def)
qed

text \<open>The blocks after block \<open>n\<close> has been allocated.\<close>

definition alloc_view :: "superblock \<Rightarrow> (u32 \<Rightarrow> block) \<Rightarrow> nat \<Rightarrow> u32 \<Rightarrow> block" where
  "alloc_view S V n = V(BBLOCK (of_nat n) S := bit_set (V (BBLOCK (of_nat n) S)) (n mod BPB), of_nat n := zero_block (V (of_nat n)))"

lemma balloc_loop_run:
  fixes s :: "'z kfs_scheme"
  assumes "log_inv d s X" "bitmap_ok s X" "BPB dvd b" "sz = unat (sb_size (sb s))"
    "card (logged s \<union> X) + 1 < NBUF" "card (logged s) + 2 \<le> log_cap s" "\<forall>n<b. n < sz \<longrightarrow> block_used (view s) (sb s) n"
  shows "(\<exists>s'. balloc_loop s d b sz = Ret (0, s') \<and> fs_step d X s (view s) (logged s) s' \<and> (\<forall>n < sz. block_used (view s) (sb s) n)) \<or>
    (\<exists>n s'. balloc_loop s d b sz = Ret (of_nat n, s') \<and> n < sz \<and> \<not> block_used (view s) (sb s) n \<and>
       (\<forall>m<n. block_used (view s) (sb s) m) \<and>
       fs_step d X s (alloc_view (sb s) (view s) n) (insert (of_nat n) (insert (BBLOCK (of_nat n) (sb s)) (logged s))) s')"
  using assms
proof (induction s d b sz rule: balloc_loop.induct)
  case (1 s d b sz)
  note prems = 1(2-)
  show ?case
  proof (cases "b < sz")
    case False
    then have "balloc_loop s d b sz = Ret (0, s)" by (simp add: balloc_loop.simps [of s d b sz])
    then show ?thesis using False prems(7) fs_step_refl [OF prems(1)] by auto
  next
    case True
    let ?B = "BBLOCK (of_nat b) (sb s)" and ?V = "view s"
    have B: "?B \<notin> X" "?B \<notin> log_area s" using prems(2,4) True by (auto simp: bitmap_ok_def)
    have room: "?B \<in> logged s \<or> card (logged s \<union> X) < NBUF" "card (logged s) < log_cap s" using prems(5,6) by auto
    have sz: "sz < 2 ^ 32" using unsigned_less [of "sb_size (sb s)", where ?'a = nat] prems(4) by simp
    obtain i s1 where r: "bread s d ?B = Ret (i, s1)" "bdata s1 i = ?V ?B" and u: "\<forall>x. \<exists>s2 s'. log_write (set_bdata s1 i x) i = Ret s2 \<and>
        brelse s2 i = Ret s' \<and> fs_step d X s (?V(?B := x)) (insert ?B (logged s)) s'"
      using fs_update [OF prems(1) B(1) room(1) B(2) room(2)] by blast
    have used: "block_used ?V (sb s) (b + k) \<longleftrightarrow> ?V ?B (k div 8) AND bit_mask k \<noteq> 0" if "k < BPB" "b + k < sz" for k
      using bitmap_block(1) [OF prems(3) that(1), of "sb s"] bitmap_block(2) [OF prems(3) that(1)] that(2) sz by (simp add: block_used_def)
    show ?thesis
    proof (cases "balloc_bits (?V ?B) b sz 0")
      case (Some k)
      note k = balloc_bits_Some [OF Some]
      have "\<exists>s'. balloc_loop s d b sz = Ret (of_nat (b + k), s') \<and>
        fs_step d X s (alloc_view (sb s) ?V (b + k)) (insert (of_nat (b + k)) (insert ?B (logged s))) s'"
      proof -
        obtain s2 s3 where s3: "log_write (set_bdata s1 i (bit_set (?V ?B) k)) i = Ret s2" "brelse s2 i = Ret s3"
            "fs_step d X s (?V(?B := bit_set (?V ?B) k)) (insert ?B (logged s)) s3"
          using u by blast
        note e = fs_stepD [OF s3(3)]
        have free: "of_nat (b + k) \<notin> X" "of_nat (b + k) \<notin> log_area s3" "of_nat (b + k) \<noteq> ?B"
          using prems(2,4) used k True by (auto simp: bitmap_ok_def e simp del: of_nat_add)
        have cards: "card (insert ?B (logged s) \<union> X) < NBUF" "card (logged s3) < log_cap s3"
          using prems(5,6) card_insert_le_m1 [of "Suc (card (logged s \<union> X))" "logged s \<union> X" ?B] by (auto simp: e card_insert_if)
        obtain s4 where s4: "bzero s3 d (of_nat (b + k)) = Ret s4"
            "fs_step d X s3 ((view s3)(of_nat (b + k) := zero_block (view s3 (of_nat (b + k))))) (insert (of_nat (b + k)) (logged s3)) s4"
          using bzero_run [OF e(1) free(1) _ free(2) cards(2)] cards(1) by (auto simp: e)
        have "balloc_loop s d b sz = Ret (of_nat (b + k), s4)"
          using True r Some s3(1,2) s4(1) by (simp add: balloc_loop.simps [of s d b sz] bit_set_def Let_def)
        moreover have "(view s3)(of_nat (b + k) := zero_block (view s3 (of_nat (b + k)))) = alloc_view (sb s) ?V (b + k)"
          using free(3) bitmap_block(1) [OF prems(3), of k "sb s"] bitmap_block(2) [OF prems(3), of k] k sz by (simp add: e alloc_view_def del: of_nat_add)
        ultimately show ?thesis using fs_step_trans [OF s3(3) s4(2)] by (auto simp: e)
      qed
      moreover have "\<not> block_used ?V (sb s) (b + k)" using used k by simp
      moreover have "block_used ?V (sb s) m" if "m < b + k" for m
        using that used [of "m - b"] k prems(7) by (cases "m < b") auto
      moreover have "BBLOCK (of_nat (b + k)) (sb s) = ?B" using bitmap_block(1) [OF prems(3)] k sz by simp
      ultimately show ?thesis using k by (intro disjI2 exI [of _ "b + k"]) (auto simp del: of_nat_add)
    next
      case None
      obtain s2 where s2: "brelse s1 i = Ret s2" "fs_step d X s ?V (logged s) s2"
        using fs_look [OF prems(1) B(1) room(1)] r(1) by auto
      note e = fs_stepD [OF s2(2)]
      have None': "balloc_bits (bdata s1 i) b sz 0 = None" using None by (simp add: r(2))
      have "block_used ?V (sb s) n" if "n < b + BPB" "n < sz" for n
        using that used [of "n - b"] balloc_bits_None [OF None, of "n - b"] prems(7) by (cases "n < b") auto
      then have IH: "(\<exists>s'. balloc_loop s2 d (b + BPB) sz = Ret (0, s') \<and> fs_step d X s2 (view s2) (logged s2) s' \<and> (\<forall>n < sz. block_used (view s2) (sb s2) n)) \<or>
        (\<exists>n s'. balloc_loop s2 d (b + BPB) sz = Ret (of_nat n, s') \<and> n < sz \<and> \<not> block_used (view s2) (sb s2) n \<and>
         (\<forall>m<n. block_used (view s2) (sb s2) m) \<and>
         fs_step d X s2 (alloc_view (sb s2) (view s2) n) (insert (of_nat n) (insert (BBLOCK (of_nat n) (sb s2)) (logged s2))) s')"
        using prems by (intro "1.IH" [OF True r(1) refl None' s2(1)]) (auto simp: e bitmap_ok_def)
      have eq: "balloc_loop s d b sz = balloc_loop s2 d (b + BPB) sz"
        using True r None s2(1) by (simp add: balloc_loop.simps [of s d b sz])
      show ?thesis using IH unfolding e eq by (blast intro: fs_step_trans [OF s2(2)])
    qed
  qed
qed


lemma balloc_run:
  fixes s :: "'z kfs_scheme"
  assumes "log_inv d s X" "bitmap_ok s X" "card (logged s \<union> X) + 1 < NBUF" "card (logged s) + 2 \<le> log_cap s"
  shows "(\<exists>s'. balloc s d = Ret (0, s') \<and> fs_step d X s (view s) (logged s) s' \<and> (\<forall>n<unat (sb_size (sb s)). block_used (view s) (sb s) n)) \<or>
    (\<exists>n s'. balloc s d = Ret (of_nat n, s') \<and> n < unat (sb_size (sb s)) \<and> \<not> block_used (view s) (sb s) n \<and>
       (\<forall>m<n. block_used (view s) (sb s) m) \<and>
       fs_step d X s (alloc_view (sb s) (view s) n) (insert (of_nat n) (insert (BBLOCK (of_nat n) (sb s)) (logged s))) s')"
  unfolding balloc_def using assms by (intro balloc_loop_run) auto

text \<open>Allocating a block marks that block and no other.\<close>

lemma bitmap_block_mod:
  assumes "BBLOCK (of_nat m) S = BBLOCK (of_nat n) S" "m mod BPB = n mod BPB" "m < 2 ^ 32" "n < 2 ^ 32"
  shows "m = n"
proof -
  have "(of_nat m :: u32) div of_nat BPB = of_nat n div of_nat BPB" using assms(1) by (simp add: BBLOCK_def)
  then have "m div BPB = n div BPB"
    using assms(3,4) by (simp add: word_unat_eq_iff unat_div unat_of_nat BPB_def BSIZE_def)
  then show ?thesis using assms(2) by (metis div_mult_mod_eq)
qed

lemma block_used_set:
  assumes "m < 2 ^ 32" "n < 2 ^ 32"
  shows "block_used (V(BBLOCK (of_nat n) S := bit_set (V (BBLOCK (of_nat n) S)) (n mod BPB))) S m \<longleftrightarrow> block_used V S m \<or> m = n"
  using bitmap_block_mod [OF _ _ assms, of S] by (auto simp: block_used_def bit_set_read)

lemma block_used_clear:
  assumes "m < 2 ^ 32" "n < 2 ^ 32"
  shows "block_used (V(BBLOCK (of_nat n) S := bit_clear (V (BBLOCK (of_nat n) S)) (n mod BPB))) S m \<longleftrightarrow> block_used V S m \<and> m \<noteq> n"
  using bitmap_block_mod [OF _ _ assms, of S] by (auto simp: block_used_def bit_clear_read)

lemma block_used_other: "b \<noteq> BBLOCK (of_nat m) S \<Longrightarrow> block_used (V(b := x)) S m = block_used V S m"
  by (simp add: block_used_def)

lemma block_used_alloc:
  assumes "m < 2 ^ 32" "n < 2 ^ 32" "of_nat n \<noteq> BBLOCK (of_nat m) S"
  shows "block_used (alloc_view S V n) S m \<longleftrightarrow> block_used V S m \<or> m = n"
  using block_used_set [OF assms(1,2)] assms(3) by (simp add: alloc_view_def block_used_other)

lemma bfree_run:
  assumes "log_inv d s X" "n < unat (sb_size (sb s))" "bitmap_ok s X" "card (logged s \<union> X) < NBUF" "card (logged s) < log_cap s"
  shows "if block_used (view s) (sb s) n
    then \<exists>s'. bfree s d (of_nat n) = Ret s' \<and> fs_step d X s
      ((view s)(BBLOCK (of_nat n) (sb s) := bit_clear (view s (BBLOCK (of_nat n) (sb s))) (n mod BPB)))
      (insert (BBLOCK (of_nat n) (sb s)) (logged s)) s'
    else bfree s d (of_nat n) = Panic ''freeing free block''"
proof -
  let ?B = "BBLOCK (of_nat n) (sb s)" and ?V = "view s"
  have B: "?B \<notin> X" "?B \<notin> log_area s" using assms(2,3) by (auto simp: bitmap_ok_def)
  have n: "unat (of_nat n :: u32) = n"
    using assms(2) unsigned_less [of "sb_size (sb s)", where ?'a = nat] by (simp add: unat_of_nat)
  obtain i s1 where r: "bread s d ?B = Ret (i, s1)" "bdata s1 i = ?V ?B" and u: "\<forall>x. \<exists>s2 s'. log_write (set_bdata s1 i x) i = Ret s2 \<and>
      brelse s2 i = Ret s' \<and> fs_step d X s (?V(?B := x)) (insert ?B (logged s)) s'"
    using fs_update [OF assms(1) B(1) disjI2 [OF assms(4)] B(2) assms(5)] by blast
  from u obtain s2 s' where "log_write (set_bdata s1 i (bit_clear (?V ?B) (n mod BPB))) i = Ret s2" "brelse s2 i = Ret s'"
      "fs_step d X s (?V(?B := bit_clear (?V ?B) (n mod BPB))) (insert ?B (logged s)) s'" by blast
  then show ?thesis using r by (auto simp: bfree_def n Let_def block_used_def bit_clear_def)
qed

end
