(* ===== verification/FileSpec.thy ===== *)
theory FileSpec
  imports FsSpec
begin

text \<open>
  The contents of a file: the blocks that \<open>bmap\<close> finds or allocates for an inode, and what \<open>readi\<close> and
  \<open>writei\<close> do to the bytes of the file.
\<close>

section \<open>The addresses of a file\<close>

text \<open>
  Address \<open>k\<close> of a file is the one of its block \<open>k\<close>; number \<open>MAXFILE\<close> stands for the indirect block.
\<close>

definition fblk :: "(u32 \<Rightarrow> block) \<Rightarrow> inode \<Rightarrow> nat \<Rightarrow> u32" where
  "fblk V I k =
     (if k < NDIRECT then i_addrs I k
      else if k = MAXFILE then i_addrs I NDIRECT
      else if i_addrs I NDIRECT = 0 then 0
      else ld32 (V (i_addrs I NDIRECT)) (4 * (k - NDIRECT)))"

definition addrs_ok :: "(nat \<Rightarrow> u32) \<Rightarrow> (nat \<Rightarrow> bool) \<Rightarrow> u32 set \<Rightarrow> nat \<Rightarrow> bool" where
  "addrs_ok F used forb sz \<longleftrightarrow>
     (\<forall>k\<le>MAXFILE. F k \<noteq> 0 \<longrightarrow> unat (F k) < sz \<and> used (unat (F k)) \<and> F k \<notin> forb) \<and>
     (\<forall>k\<le>MAXFILE. \<forall>j\<le>MAXFILE. F k = F j \<and> F k \<noteq> 0 \<longrightarrow> k = j)"

lemma addrs_ok_add:
  assumes "addrs_ok F used forb sz" "F k = 0" "n < sz" "\<not> used n" "sz \<le> 2 ^ 32" "of_nat n \<notin> forb"
    "\<And>m. m < sz \<Longrightarrow> used' m \<longleftrightarrow> used m \<or> m = n"
  shows "addrs_ok (F(k := of_nat n)) used' forb sz"
proof -
  have n: "unat (of_nat n :: u32) = n" using assms(3,5) by (simp add: unat_of_nat)
  have "F j \<noteq> of_nat n" if "j \<le> MAXFILE" "F j \<noteq> 0" for j using assms(1,4) that n by (auto simp: addrs_ok_def)
  then show ?thesis using assms n by (auto simp: addrs_ok_def)
qed

lemma addrs_ok_cong: "addrs_ok F used forb sz \<Longrightarrow> (\<And>j. j \<le> MAXFILE \<Longrightarrow> F' j = F j) \<Longrightarrow> addrs_ok F' used forb sz"
  by (simp add: addrs_ok_def) blast

definition bm_blocks :: "superblock \<Rightarrow> u32 set" where
  "bm_blocks S = (\<lambda>n. BBLOCK (of_nat n) S) ` {..<unat (sb_size S)}"

definition forb :: "'z kfs_scheme \<Rightarrow> inode \<Rightarrow> u32 set" where
  "forb s I = log_area s \<union> bm_blocks (sb s) \<union> {IBLOCK (i_inum I) (sb s)}"

abbreviation used :: "'z kfs_scheme \<Rightarrow> nat \<Rightarrow> bool" where
  "used s \<equiv> block_used (view s) (sb s)"

abbreviation fs_size :: "'z kfs_scheme \<Rightarrow> nat" where
  "fs_size s \<equiv> unat (sb_size (sb s))"

definition file_inv :: "u32 \<Rightarrow> 'z kfs_scheme \<Rightarrow> nat \<Rightarrow> bool" where
  "file_inv d s ip \<longleftrightarrow> log_inv d s {} \<and> bitmap_ok s {} \<and> i_dev (inodes s ip) = d \<and>
     addrs_ok (fblk (view s) (inodes s ip)) (used s) (forb s (inodes s ip)) (fs_size s) \<and>
     IBLOCK (i_inum (inodes s ip)) (sb s) \<notin> log_area s \<and> IBLOCK (i_inum (inodes s ip)) (sb s) \<notin> bm_blocks (sb s) \<and>
     (\<forall>n<fs_size s. \<not> used s n \<longrightarrow> of_nat n \<noteq> IBLOCK (i_inum (inodes s ip)) (sb s))"

text \<open>What operations on one inode leave alone.\<close>

definition frest :: "'z kfs_scheme \<Rightarrow> _" where
  "frest s = (disk s, lrest (s\<lparr>inodes := (\<lambda>_. undefined)\<rparr>))"

lemma frest_lrest:
  fixes s s' :: "'z kfs_scheme"
  assumes "lrest s' = lrest s" "disk s' = disk s"
  shows "frest s' = frest s"
  using assms by (cases s; cases s') (simp add: frest_def lrest_def brest_def)

lemma frest_inodes [simp]: "frest (s\<lparr>inodes := I\<rparr>) = frest s"
  by (simp add: frest_def)

lemma frestD:
  fixes s s' :: "'z kfs_scheme"
  assumes "frest s' = frest s"
  shows "disk s' = disk s" "log_start s' = log_start s" "log_dev s' = log_dev s" "log_size s' = log_size s" "log_outstanding s' = log_outstanding s"
    "written s' = written s" "curp s' = curp s" "pmem s' = pmem s" "sb s' = sb s" "log_cap s' = log_cap s" "log_area s' = log_area s"
proof -
  let ?u = "\<lambda>s. s\<lparr>inodes := (\<lambda>_. undefined)\<rparr>"
  have e: "lrest (?u s') = lrest (?u s)" "disk s' = disk s" using assms by (simp_all add: frest_def)
  note l = lrest_log [OF e(1)] and k = lrest_kfs [OF e(1)]
  show "disk s' = disk s" "log_start s' = log_start s" "log_dev s' = log_dev s" "log_size s' = log_size s"
    "log_outstanding s' = log_outstanding s" "written s' = written s" "curp s' = curp s" "pmem s' = pmem s" "sb s' = sb s"
    using e l k by simp_all
  then show "log_cap s' = log_cap s" "log_area s' = log_area s"
    by (simp_all add: log_cap_def log_area_def log_slot_def cong: image_cong_simp)
qed

lemma file_inv_step:
  fixes s s' :: "'z kfs_scheme"
  assumes "file_inv d s ip" "log_inv d s' {}" "frest s' = frest s" "i_dev (inodes s' ip) = d" "i_inum (inodes s' ip) = i_inum (inodes s ip)"
    "\<And>m. m < fs_size s \<Longrightarrow> used s m \<Longrightarrow> used s' m"
    "addrs_ok (fblk (view s') (inodes s' ip)) (used s') (forb s (inodes s ip)) (fs_size s)"
  shows "file_inv d s' ip"
proof -
  note e = frestD [OF assms(3)]
  have u: "\<not> used s m" if "m < fs_size s" "\<not> used s' m" for m using assms(6) that by blast
  have "bitmap_ok s' {}" using assms(1) u by (auto simp: bitmap_ok_def file_inv_def e)
  moreover have "forb s' (inodes s' ip) = forb s (inodes s ip)" by (simp add: forb_def e assms(5))
  moreover have "log_dev s' = log_dev s" by (rule e)
  ultimately show ?thesis using assms(1,2,4,5,7) u by (auto simp: file_inv_def e)
qed


section \<open>Allocating a block for a file\<close>

lemma alloc_used:
  assumes "bitmap_ok s X" "n < fs_size s" "\<not> used s n" "m < fs_size s"
  shows "block_used (alloc_view (sb s) (view s) n) (sb s) m \<longleftrightarrow> used s m \<or> m = n"
  using assms unsigned_less [of "sb_size (sb s)", where ?'a = nat] by (intro block_used_alloc) (auto simp: bitmap_ok_def)

lemma alloc_view_other: "b \<noteq> of_nat n \<Longrightarrow> b \<notin> bm_blocks S \<Longrightarrow> n < unat (sb_size S) \<Longrightarrow> alloc_view S V n b = V b"
  by (auto simp: alloc_view_def bm_blocks_def)

lemma alloc_view_new: "x < BSIZE \<Longrightarrow> alloc_view S V n (of_nat n) x = 0"
  by (simp add: alloc_view_def zero_block_def blk_fill_def)

lemma ld32_zero: "(\<And>x. x < BSIZE \<Longrightarrow> b x = 0) \<Longrightarrow> i + 4 \<le> BSIZE \<Longrightarrow> ld32 b i = 0"
  by (simp add: ld32_def)

lemma NDIRECT_MAXFILE: "NDIRECT < MAXFILE" "k < MAXFILE \<Longrightarrow> \<not> k < NDIRECT \<Longrightarrow> 4 * (k - NDIRECT) + 4 \<le> BSIZE"
  by (auto simp: NDIRECT_def MAXFILE_def NINDIRECT_def BSIZE_def)

text \<open>Number \<open>k\<close> of the array \<open>addrs\<close> as an address number.\<close>

definition slot_no :: "nat \<Rightarrow> nat" where "slot_no k = (if k = NDIRECT then MAXFILE else k)"

lemma fblk_slot: "k \<le> NDIRECT \<Longrightarrow> fblk V I (slot_no k) = i_addrs I k"
  using NDIRECT_MAXFILE(1) by (auto simp: fblk_def slot_no_def)

lemma fblk_cong: "V' (i_addrs I NDIRECT) = V (i_addrs I NDIRECT) \<Longrightarrow> fblk V' I = fblk V I"
  by (rule ext) (simp add: fblk_def)

lemma fblk_add_slot:
  assumes "k \<le> NDIRECT" "i_addrs I k = 0" "i_addrs I NDIRECT \<noteq> 0 \<Longrightarrow> V' (i_addrs I NDIRECT) = V (i_addrs I NDIRECT)"
    "\<And>x. x < BSIZE \<Longrightarrow> V' a x = 0" "j \<le> MAXFILE"
  shows "fblk V' (I\<lparr>i_addrs := (i_addrs I)(k := a)\<rparr>) j = ((fblk V I)(slot_no k := a)) j"
proof (cases "k = NDIRECT \<and> NDIRECT \<le> j \<and> j < MAXFILE \<and> a \<noteq> 0")
  case True
  then have "ld32 (V' a) (4 * (j - NDIRECT)) = 0" using assms(4) NDIRECT_MAXFILE(2) [of j] by (intro ld32_zero) auto
  then show ?thesis using True assms(2) by (auto simp: fblk_def slot_no_def)
next
  case False
  then show ?thesis using assms(1,2,3,5) NDIRECT_MAXFILE(1) by (auto simp: fblk_def slot_no_def)
qed

text \<open>The addresses of the file whose inode is in slot \<open>ip\<close>.\<close>

abbreviation faddr :: "'z kfs_scheme \<Rightarrow> nat \<Rightarrow> nat \<Rightarrow> u32" where
  "faddr s ip \<equiv> fblk (view s) (inodes s ip)"

definition fresh :: "'z kfs_scheme \<Rightarrow> u32 \<Rightarrow> bool" where
  "fresh s b \<longleftrightarrow> (\<exists>n<fs_size s. b = of_nat n \<and> \<not> used s n)"

definition fs_full :: "'z kfs_scheme \<Rightarrow> bool" where
  "fs_full s \<longleftrightarrow> (\<forall>n<fs_size s. used s n)"

text \<open>
  What the operations on one file leave alone: they log at most \<open>c\<close> more blocks, allocate only free
  blocks and change no block but the bitmap, free blocks and the blocks of the file.
\<close>

definition file_frame :: "'z kfs_scheme \<Rightarrow> nat \<Rightarrow> nat \<Rightarrow> 'z kfs_scheme \<Rightarrow> bool" where
  "file_frame s ip c s' \<longleftrightarrow> frest s' = frest s \<and> (\<exists>A. inodes s' = (inodes s)(ip := (inodes s ip)\<lparr>i_addrs := A\<rparr>)) \<and>
     card (logged s') \<le> card (logged s) + c \<and> (\<forall>m<fs_size s. used s m \<longrightarrow> used s' m) \<and>
     (\<forall>j\<le>MAXFILE. faddr s' ip j = faddr s ip j \<or> fresh s (faddr s' ip j)) \<and>
     (\<forall>b. b \<notin> bm_blocks (sb s) \<and> \<not> fresh s b \<and> b \<notin> faddr s ip ` {..MAXFILE} \<longrightarrow> view s' b = view s b)"

definition bmap_post :: "'z kfs_scheme \<Rightarrow> nat \<Rightarrow> nat \<Rightarrow> u32 \<Rightarrow> nat \<Rightarrow> 'z kfs_scheme \<Rightarrow> bool" where
  "bmap_post s ip k a c s' \<longleftrightarrow> file_frame s ip c s' \<and>
     (\<forall>j<MAXFILE. faddr s' ip j = ((faddr s ip)(k := a)) j) \<and> (k = MAXFILE \<longrightarrow> faddr s' ip MAXFILE = a) \<and>
     (\<forall>j<MAXFILE. faddr s ip j \<noteq> 0 \<longrightarrow> view s' (faddr s ip j) = view s (faddr s ip j)) \<and>
     (faddr s ip k \<noteq> 0 \<longrightarrow> a = faddr s ip k) \<and>
     (faddr s ip k = 0 \<and> a \<noteq> 0 \<longrightarrow> fresh s a \<and> (\<forall>x<BSIZE. view s' a x = 0)) \<and> (a = 0 \<longrightarrow> fs_full s')"

lemma file_invD:
  assumes "file_inv d s ip"
  shows "log_inv d s {}" "bitmap_ok s {}" "i_dev (inodes s ip) = d" "log_dev s = d" "card (logged s) < NBUF"
    "addrs_ok (faddr s ip) (used s) (forb s (inodes s ip)) (fs_size s)"
  using assms card_logged [of d s "{}"] by (auto simp: file_inv_def log_inv_def NBUF_def)

lemma addr_ok:
  assumes "file_inv d s ip" "j \<le> MAXFILE" "faddr s ip j \<noteq> 0"
  shows "faddr s ip j \<notin> forb s (inodes s ip)" "faddr s ip j \<notin> bm_blocks (sb s)" "faddr s ip j \<notin> log_area s" "\<not> fresh s (faddr s ip j)"
    "\<And>i. i \<le> MAXFILE \<Longrightarrow> faddr s ip i = faddr s ip j \<Longrightarrow> i = j"
proof -
  have ok: "addrs_ok (faddr s ip) (used s) (forb s (inodes s ip)) (fs_size s)" by (rule file_invD [OF assms(1)])
  then show f: "faddr s ip j \<notin> forb s (inodes s ip)" using assms(2,3) by (auto simp: addrs_ok_def)
  then show "faddr s ip j \<notin> bm_blocks (sb s)" "faddr s ip j \<notin> log_area s" by (auto simp: forb_def)
  show "\<And>i. i \<le> MAXFILE \<Longrightarrow> faddr s ip i = faddr s ip j \<Longrightarrow> i = j" using ok assms(2,3) by (auto simp: addrs_ok_def)
  have "used s (unat (faddr s ip j))" using ok assms(2,3) by (auto simp: addrs_ok_def)
  moreover have "unat (of_nat n :: u32) = n" if "n < fs_size s" for n
    using that unsigned_less [of "sb_size (sb s)", where ?'a = nat] by (simp add: unat_of_nat)
  ultimately show "\<not> fresh s (faddr s ip j)" by (auto simp: fresh_def)
qed

text \<open>A run of \<open>bmap\<close> that allocates nothing.\<close>

lemma bmap_keep:
  fixes s s' :: "'z kfs_scheme"
  assumes inv: "file_inv d s ip" and st: "fs_step d {} s (view s) (logged s) s'"
    and a: "a = faddr s ip k" "a = 0 \<Longrightarrow> fs_full s"
  shows "file_inv d s' ip \<and> bmap_post s ip k a c s'"
proof -
  note e = fs_stepD [OF st] and i = file_invD [OF inv]
  have r: "frest s' = frest s" using e by (intro frest_lrest)
  have v: "view s' = view s" by (simp add: e)
  have "file_inv d s' ip" by (rule file_inv_step [OF inv e(1) r]) (use i in \<open>auto simp: e v\<close>)
  moreover have "\<exists>A. inodes s' = (inodes s)(ip := (inodes s ip)\<lparr>i_addrs := A\<rparr>)"
    by (rule exI [of _ "i_addrs (inodes s ip)"]) (simp add: e)
  then have "file_frame s ip c s'" unfolding file_frame_def v e(8) using r e(3) by (simp add: e(9))
  ultimately show ?thesis using a by (auto simp: bmap_post_def fs_full_def v e)
qed

text \<open>A run of \<open>bmap\<close> that gives the file the block \<open>n\<close> as address number \<open>k\<close>.\<close>

lemma bmap_take:
  fixes s s' :: "'z kfs_scheme"
  assumes inv: "file_inv d s ip" and s': "log_inv d s' {}" "frest s' = frest s" "inodes s' = (inodes s)(ip := (inodes s ip)\<lparr>i_addrs := A\<rparr>)"
    and n: "n < fs_size s" "\<not> used s n" and u: "\<And>m. m < fs_size s \<Longrightarrow> used s' m \<longleftrightarrow> used s m \<or> m = n"
    and k: "k \<le> MAXFILE" "faddr s ip k = 0" and F: "\<And>j. j \<le> MAXFILE \<Longrightarrow> faddr s' ip j = ((faddr s ip)(k := of_nat n)) j"
    and V: "\<And>b. b \<notin> bm_blocks (sb s) \<Longrightarrow> b \<noteq> of_nat n \<Longrightarrow> b \<noteq> faddr s ip MAXFILE \<or> faddr s ip MAXFILE = 0 \<Longrightarrow> view s' b = view s b"
    and z: "\<And>x. x < BSIZE \<Longrightarrow> view s' (of_nat n) x = 0" and c: "card (logged s') \<le> card (logged s) + c"
  shows "file_inv d s' ip \<and> bmap_post s ip k (of_nat n) c s' \<and> (of_nat n :: u32) \<noteq> 0"
proof -
  note i = file_invD [OF inv]
  have sz: "fs_size s \<le> 2 ^ 32" using unsigned_less [of "sb_size (sb s)", where ?'a = nat] by simp
  have fr: "fresh s (of_nat n)" using n by (auto simp: fresh_def)
  have nf: "of_nat n \<notin> forb s (inodes s ip)" "of_nat n \<noteq> (0 :: u32)"
    using inv n i(2) sz by (auto simp: file_inv_def forb_def bm_blocks_def bitmap_ok_def word_unat_eq_iff unat_of_nat)
  have "addrs_ok ((faddr s ip)(k := of_nat n)) (used s') (forb s (inodes s ip)) (fs_size s)"
    by (rule addrs_ok_add [where used = "used s"]) (use i(6) k n sz nf u in auto)
  then have "addrs_ok (faddr s' ip) (used s') (forb s (inodes s ip)) (fs_size s)" by (rule addrs_ok_cong) (rule F)
  then have "file_inv d s' ip" by (intro file_inv_step [OF inv s'(1,2)]) (use u i(3) s'(3) in auto)
  moreover have "view s' b = view s b" if "b \<notin> bm_blocks (sb s)" "\<not> fresh s b" "b \<notin> faddr s ip ` {..MAXFILE}" for b
    using that fr by (intro V) auto
  then have "file_frame s ip c s'" unfolding file_frame_def using s'(2,3) c u F fr by (auto simp del: fun_upd_apply) (auto split: if_splits)
  moreover have "view s' (faddr s ip j) = view s (faddr s ip j)" if "j < MAXFILE" "faddr s ip j \<noteq> 0" for j
  proof (rule V)
    show "faddr s ip j \<noteq> faddr s ip MAXFILE \<or> faddr s ip MAXFILE = 0"
      using addr_ok(5) [OF inv _ that(2), of MAXFILE] that(1) by auto
  qed (use addr_ok [OF inv _ that(2)] that(1) fr in auto)
  ultimately show ?thesis using F k z nf(2) fr by (auto simp: bmap_post_def)
qed

lemma bmap_slot_run:
  fixes s :: "'z kfs_scheme"
  assumes inv: "file_inv d s ip" and k: "k \<le> NDIRECT" and room: "card (logged s) + 2 \<le> log_cap s"
  shows "\<exists>a s'. bmap_slot s ip k = Ret (a, s') \<and> file_inv d s' ip \<and> bmap_post s ip (slot_no k) a 2 s'"
proof -
  let ?I = "inodes s ip" and ?V = "view s"
  note d = file_invD [OF inv] and F = fblk_slot [OF k, of ?V ?I]
  show ?thesis
  proof (cases "i_addrs ?I k = 0")
    case False
    then show ?thesis using bmap_keep [OF inv fs_step_refl [OF d(1)] F [symmetric]] by (auto simp: bmap_slot_def)
  next
    case True
    have cards: "card (logged s \<union> {}) + 1 < NBUF" using room by (auto simp: log_cap_def NBUF_def split: if_splits)
    consider (full) s1 where "balloc s d = Ret (0, s1)" "fs_step d {} s ?V (logged s) s1" "fs_full s"
      | (got) n s1 where "balloc s d = Ret (of_nat n, s1)" "n < fs_size s" "\<not> used s n"
          "fs_step d {} s (alloc_view (sb s) ?V n) (insert (of_nat n) (insert (BBLOCK (of_nat n) (sb s)) (logged s))) s1"
      using balloc_run [OF d(1,2) cards room] by (auto simp: fs_full_def)
    then show ?thesis
    proof cases
      case full
      then show ?thesis using bmap_keep [OF inv full(2), of 0 "slot_no k" 2] F True by (auto simp: bmap_slot_def d(3))
    next
      case got
      note e = fs_stepD [OF got(4)]
      let ?V' = "alloc_view (sb s) ?V n" and ?I' = "?I\<lparr>i_addrs := (i_addrs ?I)(k := of_nat n)\<rparr>"
      define s' where "s' = set_addr s1 ip k (of_nat n)"
      have s': "frest s' = frest s" "inodes s' = (inodes s)(ip := ?I')" "view s' = ?V'" "log_inv d s' {}" "logged s' = logged s1" "sb s' = sb s"
        using e frest_lrest [OF e(7,4)] by (simp_all add: s'_def set_addr_def upd_inode_def)
      have "?V' (i_addrs ?I NDIRECT) = ?V (i_addrs ?I NDIRECT)" if "i_addrs ?I NDIRECT \<noteq> 0"
        using addr_ok [OF inv le_refl] fblk_slot [OF le_refl, of ?V ?I] that got(2,3)
        by (intro alloc_view_other) (auto simp: slot_no_def fresh_def)
      then have F': "fblk ?V' ?I' j = ((fblk ?V ?I)(slot_no k := of_nat n)) j" if "j \<le> MAXFILE" for j
        by (intro fblk_add_slot) (use k True that in \<open>auto simp: alloc_view_new\<close>)
      have "file_inv d s' ip \<and> bmap_post s ip (slot_no k) (of_nat n) 2 s' \<and> (of_nat n :: u32) \<noteq> 0"
        by (rule bmap_take [OF inv s'(4,1,2) got(2,3)])
          (use True F F' alloc_used [OF d(2) got(2,3)] k NDIRECT_MAXFILE(1) got(2) in
            \<open>auto simp: s' e card_insert_if alloc_view_new slot_no_def intro: alloc_view_other\<close>)
      then show ?thesis using got(1) by (auto simp: bmap_slot_def True d(3) s'_def)
    qed
  qed
qed

section \<open>Holding the indirect block\<close>

lemma fs_hold:
  assumes "log_inv d s {}" "b \<in> logged s \<or> card (logged s) < NBUF"
  shows "\<exists>i s1. bread s d b = Ret (i, s1) \<and> bholds d s1 i b \<and> bdata s1 i = view s b \<and> fs_step d {b} s (view s) (logged s) s1"
proof -
  have d: "log_dev s = d" using assms(1) by (simp add: log_inv_def)
  obtain i s1 where r: "bread s d b = Ret (i, s1)" "log_inv d s1 {b}" "bholds d s1 i b" "av (babs d s1) = av (babs d s)" "disk s1 = disk s"
      "logged s1 = logged s" "log_cap s1 = log_cap s" "log_area s1 = log_area s" "lrest s1 = lrest s" "\<And>j c. bholds d s j c \<Longrightarrow> bholds d s1 j c"
    using lstore.rd_law [OF assms(1), of b] assms(2) by auto
  then show ?thesis using lstore.hl_law [OF r(2,3)] by (auto simp: fs_step_def lstore.kept_def d)
qed

text \<open>A block that was held is released: it must be in the transaction or be as on the disk.\<close>

lemma fs_drop:
  assumes s: "log_inv d s {}" and t: "fs_step d {b} s V L t" and h: "bholds d t i b" and c: "b \<in> L \<or> V b = disk s b"
  shows "\<exists>t'. brelse t i = Ret t' \<and> fs_step d {} s V L t'"
proof -
  note e = fs_stepD [OF t]
  have c': "b \<in> logged t \<or> av (babs d t) b = disk t b" using c by (simp add: e)
  obtain t' where r: "brelse t i = Ret t'" "log_inv d t' ({b} - {b})" "av (babs d t') = V" "disk t' = disk s" "logged t' = L"
      "log_cap t' = log_cap s" "log_area t' = log_area s" "lrest t' = lrest s"
    using lstore.rl_law [OF e(1) h c'] by (auto simp: e)
  have "\<not> bholds d s j c" for j c using lstore.hl_law [OF s, of j c] by auto
  then show ?thesis using r by (auto simp: fs_step_def lstore.kept_def)
qed

lemma fs_log:
  assumes t: "fs_step d {b} s V L t" and h: "bholds d t i b" and "b \<notin> log_area s" "card L < log_cap s"
  shows "\<exists>t'. log_write (set_bdata t i x) i = Ret t' \<and> fs_step d {b} s (V(b := x)) (insert b L) t' \<and> bholds d t' i b"
proof -
  note e = fs_stepD [OF t]
  let ?t = "set_bdata t i x"
  have t1: "log_inv d ?t {b}" "av (babs d ?t) = V(b := x)" "disk ?t = disk s" "logged ?t = L" "log_cap ?t = log_cap s" "log_area ?t = log_area s"
      "lrest ?t = lrest s" "\<And>j c. bholds d t j c \<Longrightarrow> bholds d ?t j c"
    using lstore.st_law [OF e(1) h, of x] by (simp_all add: e)
  obtain t' where r: "log_write ?t i = Ret t'" "log_inv d t' {b}" "av (babs d t') = V(b := x)" "disk t' = disk s" "logged t' = insert b L"
      "log_cap t' = log_cap s" "log_area t' = log_area s" "lrest t' = lrest s" "\<And>j c. bholds d ?t j c \<Longrightarrow> bholds d t' j c"
    using lstore.lw_law [OF t1(1) t1(8) [OF h]] assms(3,4) by (auto simp: t1)
  have "bholds d s j c \<Longrightarrow> bholds d t' j c" for j c using t r(9) t1(8) by (auto simp: fs_step_def lstore.kept_def)
  then show ?thesis using r t1(8) [OF h] by (auto simp: fs_step_def lstore.kept_def)
qed

text \<open>The entry of the indirect block: \<open>bmap\<close> once the indirect block is there.\<close>

definition bmap_ind :: "'z kfs_scheme \<Rightarrow> nat \<Rightarrow> nat \<Rightarrow> u32 \<Rightarrow> (u32 \<times> 'z kfs_scheme) res" where
  "bmap_ind s1 ip bn addr =
     bindr (bread s1 (i_dev (inodes s1 ip)) addr) (\<lambda>(bp, s2).
     let addr = ld32 (bdata s2 bp) (4 * bn) in
     if addr = 0 then
       bindr (balloc s2 (i_dev (inodes s2 ip))) (\<lambda>(addr, s3).
       bindr (if addr \<noteq> 0 then log_write (set_bdata s3 bp (st32 (bdata s3 bp) (4 * bn) addr)) bp else Ret s3) (\<lambda>s4.
       bindr (brelse s4 bp) (\<lambda>s5. Ret (addr, s5))))
     else bindr (brelse s2 bp) (\<lambda>s3. Ret (addr, s3)))"

lemma bmap_ind_eq:
  "\<not> unat bn < NDIRECT \<Longrightarrow> unat bn < MAXFILE \<Longrightarrow> bmap s ip bn =
     bindr (bmap_slot s ip NDIRECT) (\<lambda>(addr, s1). if addr = 0 then Ret (0, s1) else bmap_ind s1 ip (unat bn - NDIRECT) addr)"
proof -
  assume "\<not> unat bn < NDIRECT" "unat bn < MAXFILE"
  then have "\<not> unat bn < NDIRECT" "unat bn - NDIRECT < NINDIRECT" by (auto simp: MAXFILE_def)
  then show ?thesis by (simp add: bmap_def bmap_ind_def Let_def cong: if_cong)
qed

lemma ind_entry_other:
  "\<not> k < NDIRECT \<Longrightarrow> \<not> j < NDIRECT \<Longrightarrow> j \<noteq> k \<Longrightarrow> ld32 (st32 b (4 * (k - NDIRECT)) v) (4 * (j - NDIRECT)) = ld32 b (4 * (j - NDIRECT))"
  by (rule ld32_st32_other) arith

lemma bmap_ind_take:
  fixes s :: "'z kfs_scheme"
  assumes inv: "file_inv d s ip" and a: "faddr s ip MAXFILE = a" "a \<noteq> 0" and k: "\<not> k < NDIRECT" "k < MAXFILE" "faddr s ip k = 0"
    and n: "n < fs_size s" "\<not> used s n"
    and st: "fs_step d {a} s (alloc_view (sb s) (view s) n) (insert (of_nat n) (insert (BBLOCK (of_nat n) (sb s)) (logged s))) s3"
    and h: "bholds d s3 i a" and room: "card (logged s) + 3 \<le> log_cap s"
  shows "\<exists>s4 s5. log_write (set_bdata s3 i (st32 (bdata s3 i) (4 * (k - NDIRECT)) (of_nat n))) i = Ret s4 \<and> brelse s4 i = Ret s5 \<and>
    file_inv d s5 ip \<and> bmap_post s ip k (of_nat n) 3 s5 \<and> (of_nat n :: u32) \<noteq> 0"
proof -
  let ?I = "inodes s ip" and ?V = "view s" and ?Va = "alloc_view (sb s) (view s) n"
  let ?x = "st32 (?V a) (4 * (k - NDIRECT)) (of_nat n)" and ?L = "insert (of_nat n) (insert (BBLOCK (of_nat n) (sb s)) (logged s))"
  note d = file_invD [OF inv]
  have ia: "a \<notin> bm_blocks (sb s)" "a \<notin> log_area s" "\<not> fresh s a" using addr_ok [OF inv le_refl] a by auto
  then have na: "of_nat n \<noteq> a" using n by (auto simp: fresh_def)
  have Va: "?Va a = ?V a" using na ia(1) n(1) by (intro alloc_view_other) auto
  have b3: "bdata s3 i = ?V a" using lstore.hl_law [OF fs_stepD(1) [OF st] h] by (simp add: fs_stepD [OF st] Va)
  have "card ?L < log_cap s" using room by (simp add: card_insert_if)
  then obtain s4 where s4: "log_write (set_bdata s3 i ?x) i = Ret s4" "fs_step d {a} s (?Va(a := ?x)) (insert a ?L) s4" "bholds d s4 i a"
    using fs_log [OF st h ia(2), of ?x] by auto
  obtain s5 where s5: "brelse s4 i = Ret s5" "fs_step d {} s (?Va(a := ?x)) (insert a ?L) s5"
    using fs_drop [OF d(1) s4(2,3)] by auto
  note e = fs_stepD [OF s5(2)]
  have r: "frest s5 = frest s" using e by (intro frest_lrest)
  have u: "used s5 m \<longleftrightarrow> used s m \<or> m = n" if "m < fs_size s" for m
  proof -
    have "a \<noteq> BBLOCK (of_nat m) (sb s)" using ia(1) that by (auto simp: bm_blocks_def)
    then show ?thesis using alloc_used [OF d(2) n that] by (simp add: e block_used_other)
  qed
  have A: "i_addrs ?I NDIRECT = a" using a NDIRECT_MAXFILE(1) by (simp add: fblk_def)
  then have F5: "fblk (?Va(a := ?x)) ?I j = ((faddr s ip)(k := of_nat n)) j" if "j \<le> MAXFILE" for j
    using that k a by (cases "j = k") (auto simp: fblk_def ind_entry_other)
  have I5: "inodes s5 = (inodes s)(ip := ?I\<lparr>i_addrs := i_addrs ?I\<rparr>)" by (simp add: e)
  have "file_inv d s5 ip \<and> bmap_post s ip k (of_nat n) 3 s5 \<and> (of_nat n :: u32) \<noteq> 0"
    by (rule bmap_take [OF inv e(1) r I5 n u]) (use k F5 na a n(1) in \<open>auto simp: e card_insert_if alloc_view_new intro: alloc_view_other\<close>)
  then show ?thesis using s4(1) s5(1) by (simp add: b3)
qed

lemma bmap_ind_run:
  fixes s :: "'z kfs_scheme"
  assumes inv: "file_inv d s ip" and a: "i_addrs (inodes s ip) NDIRECT = a" "a \<noteq> 0" and k: "\<not> k < NDIRECT" "k < MAXFILE"
    and room: "card (logged s) + 3 \<le> log_cap s \<or> faddr s ip k \<noteq> 0"
  shows "\<exists>r s'. bmap_ind s ip (k - NDIRECT) a = Ret (r, s') \<and> file_inv d s' ip \<and> bmap_post s ip k r 3 s' \<and>
    (faddr s ip k \<noteq> 0 \<longrightarrow> fs_step d {} s (view s) (logged s) s')"
proof -
  let ?I = "inodes s ip" and ?V = "view s" and ?F = "faddr s ip"
  note d = file_invD [OF inv]
  have Fa: "?F MAXFILE = a" using a NDIRECT_MAXFILE(1) by (simp add: fblk_def)
  have ia: "a \<notin> bm_blocks (sb s)" "a \<notin> log_area s" "\<not> fresh s a" using addr_ok [OF inv le_refl] Fa a by auto
  have F: "?F k = ld32 (?V a) (4 * (k - NDIRECT))" using k a by (simp add: fblk_def)
  obtain i s1 where h: "bread s d a = Ret (i, s1)" "bholds d s1 i a" "bdata s1 i = ?V a" "fs_step d {a} s ?V (logged s) s1"
    using fs_hold [OF d(1), of a] d(5) by auto
  note e1 = fs_stepD [OF h(4)]
  have clean: "a \<in> logged s \<or> ?V a = disk s a" using lstore.clean_law [OF d(1), of a] d(4) by auto
  show ?thesis
  proof (cases "?F k = 0")
    case False
    obtain s2 where s2: "brelse s1 i = Ret s2" "fs_step d {} s ?V (logged s) s2" using fs_drop [OF d(1) h(4,2) clean] by blast
    then have "bmap_ind s ip (k - NDIRECT) a = Ret (?F k, s2)" using False h(1,3) by (simp add: bmap_ind_def d(3) F Let_def)
    then show ?thesis using bmap_keep [OF inv s2(2) refl, of k 3] s2(2) False by auto
  next
    case True
    have nb: "card (logged s) + 3 \<le> 29" "card (logged s) + 3 \<le> log_cap s" using room True by (auto simp: log_cap_def split: if_splits)
    have bm: "bitmap_ok s1 {a}" using d(2,4) ia by (auto simp: bitmap_ok_def e1 bm_blocks_def fresh_def)
    have cards: "card (logged s1 \<union> {a}) + 1 < NBUF" "card (logged s1) + 2 \<le> log_cap s1"
      using nb by (auto simp: e1 card_insert_if NBUF_def)
    have V1: "view s1 = ?V" by (simp add: e1)
    have run: "bmap_ind s ip (k - NDIRECT) a = bindr (balloc s1 d) (\<lambda>(addr, s3).
       bindr (if addr \<noteq> 0 then log_write (set_bdata s3 i (st32 (bdata s3 i) (4 * (k - NDIRECT)) addr)) i else Ret s3) (\<lambda>s4.
       bindr (brelse s4 i) (\<lambda>s5. Ret (addr, s5))))"
      using True h(1,3) by (simp add: bmap_ind_def d(3) F Let_def e1)
    consider (full) s3 where "balloc s1 d = Ret (0, s3)" "fs_step d {a} s1 ?V (logged s) s3" "fs_full s"
      | (got) n s3 where "balloc s1 d = Ret (of_nat n, s3)" "n < fs_size s" "\<not> used s n"
          "fs_step d {a} s1 (alloc_view (sb s) ?V n) (insert (of_nat n) (insert (BBLOCK (of_nat n) (sb s)) (logged s))) s3"
      using balloc_run [OF e1(1) bm cards] unfolding V1 e1(3,8) fs_full_def by blast
    then show ?thesis
    proof cases
      case full
      have st: "fs_step d {a} s ?V (logged s) s3" by (rule fs_step_trans [OF h(4) full(2)])
      obtain s4 where s4: "brelse s3 i = Ret s4" "fs_step d {} s ?V (logged s) s4"
        using fs_drop [OF d(1) st fs_stepD(13) [OF full(2) h(2)] clean] by blast
      then show ?thesis using bmap_keep [OF inv s4(2), of 0 k 3] True full by (simp add: run)
    next
      case got
      have st: "fs_step d {a} s (alloc_view (sb s) ?V n) (insert (of_nat n) (insert (BBLOCK (of_nat n) (sb s)) (logged s))) s3"
        by (rule fs_step_trans [OF h(4) got(4)])
      show ?thesis using bmap_ind_take [OF inv Fa a(2) k True got(2,3) st fs_stepD(13) [OF got(4) h(2)] nb(2)] True
        by (auto simp: run got(1))
    qed
  qed
qed


lemma file_frame_weaken: "file_frame s ip c s' \<Longrightarrow> c \<le> c' \<Longrightarrow> file_frame s ip c' s'"
  by (auto simp: file_frame_def)

lemma bmap_post_weaken: "bmap_post s ip k a c s' \<Longrightarrow> c \<le> c' \<Longrightarrow> bmap_post s ip k a c' s'"
  unfolding bmap_post_def using file_frame_weaken by blast

lemma file_frame_fresh:
  fixes s s1 :: "'z kfs_scheme"
  assumes "file_frame s ip c s1" "fresh s1 b"
  shows "fresh s b"
proof -
  have "sb s1 = sb s" using assms(1) by (intro frestD) (simp add: file_frame_def)
  then show ?thesis using assms by (auto simp: file_frame_def fresh_def)
qed

lemma file_frame_trans:
  fixes s s1 s2 :: "'z kfs_scheme"
  assumes 1: "file_frame s ip c s1" and 2: "file_frame s1 ip c' s2"
  shows "file_frame s ip (c + c') s2"
proof -
  have r: "frest s1 = frest s" "frest s2 = frest s" using 1 2 by (auto simp: file_frame_def)
  note e = frestD [OF r(1)]
  obtain A A' where "inodes s1 = (inodes s)(ip := (inodes s ip)\<lparr>i_addrs := A\<rparr>)" "inodes s2 = (inodes s1)(ip := (inodes s1 ip)\<lparr>i_addrs := A'\<rparr>)"
    using 1 2 by (auto simp: file_frame_def)
  then have I: "inodes s2 = (inodes s)(ip := (inodes s ip)\<lparr>i_addrs := A'\<rparr>)" by simp
  note fr = file_frame_fresh [OF 1]
  have F1: "faddr s1 ip j = faddr s ip j \<or> fresh s (faddr s1 ip j)" if "j \<le> MAXFILE" for j using 1 that by (simp add: file_frame_def)
  have F2: "faddr s2 ip j = faddr s1 ip j \<or> fresh s1 (faddr s2 ip j)" if "j \<le> MAXFILE" for j using 2 that by (simp add: file_frame_def)
  have "view s2 b = view s b" if b: "b \<notin> bm_blocks (sb s)" "\<not> fresh s b" "b \<notin> faddr s ip ` {..MAXFILE}" for b
  proof -
    have "b \<notin> faddr s1 ip ` {..MAXFILE}" using F1 b(2,3) by force
    moreover have "\<not> fresh s1 b" using fr b(2) by blast
    ultimately have "view s2 b = view s1 b" using 2 b(1) by (simp add: file_frame_def e)
    also have "\<dots> = view s b" using 1 b by (simp add: file_frame_def)
    finally show ?thesis .
  qed
  moreover have "faddr s2 ip j = faddr s ip j \<or> fresh s (faddr s2 ip j)" if "j \<le> MAXFILE" for j
    using F1 [OF that] F2 [OF that] fr by metis
  moreover have "card (logged s2) \<le> card (logged s) + (c + c')" "\<forall>m<fs_size s. used s m \<longrightarrow> used s2 m"
    using 1 2 by (simp_all add: file_frame_def e)
  ultimately show ?thesis unfolding file_frame_def using r(2) I by blast
qed


text \<open>
  \<open>bmap\<close> returns the address of block \<open>k\<close> of the file, allocating a zeroed block, and the indirect block, if
  there is none yet; 0 means that the disk is full.
\<close>

lemma bmap_run:
  fixes s :: "'z kfs_scheme"
  assumes inv: "file_inv d s ip" and k: "k < MAXFILE" and room: "card (logged s) + 5 \<le> log_cap s"
  shows "\<exists>a s'. bmap s ip (of_nat k) = Ret (a, s') \<and> file_inv d s' ip \<and> bmap_post s ip k a 5 s'"
proof -
  have uk: "unat (of_nat k :: u32) = k" using k by (simp add: unat_of_nat MAXFILE_def NDIRECT_def NINDIRECT_def BSIZE_def)
  have room2: "card (logged s) + 2 \<le> log_cap s" using room by simp
  show ?thesis
  proof (cases "k < NDIRECT")
    case True
    then have "bmap s ip (of_nat k) = bmap_slot s ip k" "slot_no k = k" "k \<le> NDIRECT" by (auto simp: bmap_def uk slot_no_def)
    then show ?thesis using bmap_slot_run [OF inv _ room2, of k] bmap_post_weaken [of s ip k _ 2 _ 5] by fastforce
  next
    case False
    obtain a1 s1 where s1: "bmap_slot s ip NDIRECT = Ret (a1, s1)" "file_inv d s1 ip" "bmap_post s ip MAXFILE a1 2 s1"
      using bmap_slot_run [OF inv le_refl room2] by (auto simp: slot_no_def)
    have F1: "faddr s1 ip j = faddr s ip j" if "j < MAXFILE" for j using s1(3) that by (auto simp: bmap_post_def)
    have a1: "i_addrs (inodes s1 ip) NDIRECT = a1"
      using s1(3) NDIRECT_MAXFILE(1) by (simp add: bmap_post_def fblk_def)
    have run: "bmap s ip (of_nat k) = (if a1 = 0 then Ret (0, s1) else bmap_ind s1 ip (k - NDIRECT) a1)"
      using bmap_ind_eq [of "of_nat k" s ip] False k by (simp add: uk s1(1))
    show ?thesis
    proof (cases "a1 = 0")
      case True
      have "faddr s ip k = 0" using True s1(3) False k NDIRECT_MAXFILE(1) by (auto simp: bmap_post_def fblk_def)
      then have "bmap_post s ip k 0 5 s1"
        using s1(3) True F1 file_frame_weaken [of s ip 2 s1 5] k by (auto simp: bmap_post_def)
      then show ?thesis using True run s1(2) by auto
    next
      case a1_nz: False
      have "card (logged s1) + 3 \<le> log_cap s1"
        using room s1(3) by (auto simp: bmap_post_def file_frame_def dest: frestD(10))
      then obtain r s2 where s2: "bmap_ind s1 ip (k - NDIRECT) a1 = Ret (r, s2)" "file_inv d s2 ip" "bmap_post s1 ip k r 3 s2"
        using bmap_ind_run [OF s1(2) a1 a1_nz False k] by blast
      have fr: "fresh s1 b \<Longrightarrow> fresh s b" for b using s1(3) file_frame_fresh unfolding bmap_post_def by blast
      have "file_frame s ip (2 + 3) s2" using file_frame_trans s1(3) s2(3) unfolding bmap_post_def by blast
      moreover have "view s2 (faddr s ip j) = view s (faddr s ip j)" if "j < MAXFILE" "faddr s ip j \<noteq> 0" for j
        using s1(3) s2(3) that F1 [OF that(1)] unfolding bmap_post_def by metis
      ultimately have "bmap_post s ip k r 5 s2"
        using s2(3) F1 fr k by (auto simp: bmap_post_def)
      then show ?thesis using run s2 a1_nz by auto
    qed
  qed
qed

text \<open>A block that is there is found without a change to any block.\<close>

lemma bmap_mapped:
  fixes s :: "'z kfs_scheme"
  assumes inv: "file_inv d s ip" and k: "k < MAXFILE" "faddr s ip k \<noteq> 0"
  shows "\<exists>s'. bmap s ip (of_nat k) = Ret (faddr s ip k, s') \<and> fs_step d {} s (view s) (logged s) s' \<and> file_inv d s' ip"
proof -
  note d = file_invD [OF inv]
  have uk: "unat (of_nat k :: u32) = k" using k(1) by (simp add: unat_of_nat MAXFILE_def NDIRECT_def NINDIRECT_def BSIZE_def)
  show ?thesis
  proof (cases "k < NDIRECT")
    case True
    then show ?thesis using k fs_step_refl [OF d(1)] inv by (auto simp: bmap_def bmap_slot_def uk fblk_def)
  next
    case False
    then have a: "i_addrs (inodes s ip) NDIRECT \<noteq> 0" using k by (auto simp: fblk_def)
    then have "bmap s ip (of_nat k) = bmap_ind s ip (k - NDIRECT) (i_addrs (inodes s ip) NDIRECT)"
      using bmap_ind_eq [of "of_nat k" s ip] False k by (simp add: uk bmap_slot_def)
    then show ?thesis using bmap_ind_run [OF inv refl a False k(1) disjI2 [OF k(2)]] k(2) by (auto simp: bmap_post_def)
  qed
qed

end
