(* ===== verification/FileIO.thy ===== *)
theory FileIO
  imports FileSpec
begin

text \<open>
  \<open>readi\<close> and \<open>writei\<close> as operations on the bytes of a file.
\<close>

section \<open>The bytes of a file\<close>

definition fbyte :: "'z kfs_scheme \<Rightarrow> nat \<Rightarrow> nat \<Rightarrow> u8" where
  "fbyte s ip x = (let a = faddr s ip (x div BSIZE) in if a = 0 then 0 else view s a (x mod BSIZE))"

lemma io_chunk_unat:
  assumes "tot \<le> n"
  shows "unat (io_chunk n tot off) = min (unat n - unat tot) (BSIZE - unat off mod BSIZE)"
proof -
  have "unat (off mod 1024) < 1024" by (simp add: unat_mod)
  then have "unat (1024 - off mod 1024) = 1024 - unat off mod 1024"
    by (subst unat_sub_if') (simp_all add: word_le_nat_alt unat_mod)
  moreover have "unat (n - tot) = unat n - unat tot" using assms by (simp add: unat_sub word_le_nat_alt)
  ultimately show ?thesis by (auto simp: io_chunk_def BSIZE_def min_def word_le_nat_alt)
qed

lemma io_chunk_step:
  assumes "tot < n" "unat off + (unat n - unat tot) \<le> MAXFILE * BSIZE"
  defines "m \<equiv> io_chunk n tot off"
  shows "0 < unat m" "unat m \<le> unat n - unat tot" "unat m \<le> BSIZE - unat off mod BSIZE"
    "unat (tot + m) = unat tot + unat m" "unat (off + m) = unat off + unat m" "tot + m \<le> n"
    "unat m = unat n - unat tot \<or> unat m = BSIZE - unat off mod BSIZE"
proof -
  have m: "unat m = min (unat n - unat tot) (BSIZE - unat off mod BSIZE)"
    unfolding m_def using assms(1) by (intro io_chunk_unat) simp
  have lt: "unat tot < unat n" using assms(1) by (simp add: word_less_nat_alt)
  have b: "unat off mod BSIZE < BSIZE" by (simp add: BSIZE_def)
  show m2: "0 < unat m" "unat m \<le> unat n - unat tot" "unat m \<le> BSIZE - unat off mod BSIZE"
    "unat m = unat n - unat tot \<or> unat m = BSIZE - unat off mod BSIZE"
    using m lt b by (auto simp: min_def)
  show t: "unat (tot + m) = unat tot + unat m"
    using m2(2) lt unsigned_less [of n, where ?'a = nat] by (simp add: unat_word_ariths)
  show "unat (off + m) = unat off + unat m"
    using m2(2) assms(2) by (simp add: unat_word_ariths MAXFILE_def NDIRECT_def NINDIRECT_def BSIZE_def)
  show "tot + m \<le> n" using m2(2) lt by (simp add: word_le_nat_alt t)
qed

lemma off_block: "off div of_nat BSIZE = (of_nat (unat off div BSIZE) :: u32)" "unat (off mod of_nat BSIZE :: u32) = unat off mod BSIZE"
proof -
  have "unat off div 1024 < 2 ^ 32" using unsigned_less [of off, where ?'a = nat] by simp
  then show "off div of_nat BSIZE = (of_nat (unat off div BSIZE) :: u32)"
    by (simp add: word_unat_eq_iff unat_div BSIZE_def unat_of_nat)
qed (simp add: unat_mod BSIZE_def)

lemma chunk_in_block:
  assumes "m \<le> BSIZE - x mod BSIZE" "x \<le> y" "y < x + m"
  shows "y div BSIZE = x div BSIZE" "y mod BSIZE = x mod BSIZE + (y - x)"
proof -
  have "0 < BSIZE" by (simp add: BSIZE_def)
  moreover have "x div BSIZE * BSIZE + x mod BSIZE = x" "x mod BSIZE < BSIZE" by (simp_all add: BSIZE_def)
  ultimately show q: "y div BSIZE = x div BSIZE" using assms by (subst nat_div_eq_iff) linarith+
  have "y div BSIZE * BSIZE + y mod BSIZE = y" "x div BSIZE * BSIZE + x mod BSIZE = x" by simp_all
  then show "y mod BSIZE = x mod BSIZE + (y - x)" using assms(2) unfolding q by linarith
qed

lemma blk_get_fbyte:
  assumes "m \<le> BSIZE - x mod BSIZE" "faddr s ip (x div BSIZE) = a" "a \<noteq> 0"
  shows "blk_get (view s a) (x mod BSIZE) m = map (fbyte s ip) [x..<x + m]"
proof (rule nth_equalityI)
  fix i assume "i < length (blk_get (view s a) (x mod BSIZE) m)"
  then have i: "i < m" by (simp add: blk_get_def)
  then have "(x + i) div BSIZE = x div BSIZE" "(x + i) mod BSIZE = x mod BSIZE + i"
    using chunk_in_block [OF assms(1), of "x + i"] by auto
  then show "blk_get (view s a) (x mod BSIZE) m ! i = map (fbyte s ip) [x..<x + m] ! i"
    using i assms(2,3) by (simp add: blk_get_def fbyte_def Let_def)
qed (simp add: blk_get_def)

lemma fbyte_cong: "view s' = view s \<Longrightarrow> inodes s' = inodes s \<Longrightarrow> fbyte s' ip = fbyte s ip"
  by (rule ext) (simp add: fbyte_def Let_def)

section \<open>Reading\<close>

text \<open>The cache and the log do not depend on the rest of the memory.\<close>

lemma brest_user: "brest s' = brest s \<Longrightarrow> same_user s s'"
  by (auto simp: brest_def same_user_def dest!: fun_cong [where x = "curp s"] arg_cong [where f = p_pagetable])

lemma lrest_user:
  fixes s s' :: "'z klog_scheme"
  shows "lrest s' = lrest s \<Longrightarrow> same_user s s'"
  using brest_user [of "s'\<lparr>lh_n := 0, lh_block := (\<lambda>_. 0)\<rparr>" "s\<lparr>lh_n := 0, lh_block := (\<lambda>_. 0)\<rparr>"] by (simp add: lrest_def same_user_def)

lemma frest_user:
  fixes s s' :: "'z kfs_scheme"
  shows "frest s' = frest s \<Longrightarrow> same_user s s'"
  using lrest_user [of "s'\<lparr>inodes := (\<lambda>_. undefined)\<rparr>" "s\<lparr>inodes := (\<lambda>_. undefined)\<rparr>"] by (simp add: frest_def same_user_def)

lemma slot_pmem [simp]: "slot_of (s\<lparr>pmem := m\<rparr>) d b = slot_of s d b"
  by (simp add: slot_of_def)

lemma cache_pmem [simp]:
  "babs d (s\<lparr>pmem := m\<rparr>) = babs d s" "bok d (s\<lparr>pmem := m\<rparr>) = bok d s" "bholds d (s\<lparr>pmem := m\<rparr>) i b = bholds d s i b"
  by (auto simp: babs_def bok_def bholds_def holdingsleep_def fun_eq_iff split: option.split)

lemma log_pmem [simp]:
  fixes s :: "'z klog_scheme"
  shows "logged (s\<lparr>pmem := m\<rparr>) = logged s" "log_area (s\<lparr>pmem := m\<rparr>) = log_area s" "log_inv d (s\<lparr>pmem := m\<rparr>) X = log_inv d s X"
    "log_cap (s\<lparr>pmem := m\<rparr>) = log_cap s"
  by (simp_all add: logged_def log_area_def log_slot_def log_inv_def log_cap_def)

lemma file_inv_pmem [simp]:
  fixes s :: "'z kfs_scheme"
  shows "file_inv d (s\<lparr>pmem := m\<rparr>) ip = file_inv d s ip" "fbyte (s\<lparr>pmem := m\<rparr>) = fbyte s"
  by (simp_all add: file_inv_def bitmap_ok_def forb_def fbyte_def Let_def fun_eq_iff)

lemma lrest_pmem:
  fixes s s' :: "'z klog_scheme"
  shows "lrest s' = lrest s \<Longrightarrow> lrest (s'\<lparr>pmem := m\<rparr>) = lrest (s\<lparr>pmem := m\<rparr>)"
  by (cases s; cases s') (simp add: lrest_def brest_def)

lemma fs_step_pmem:
  fixes s :: "'z kfs_scheme"
  assumes "fs_step d X s V L s'"
  shows "fs_step d X (s\<lparr>pmem := m\<rparr>) V L (s'\<lparr>pmem := m\<rparr>)"
  using assms lrest_pmem [of s' s m] by (auto simp: fs_step_def lstore.kept_def)

lemma wakeup_pmem: "wakeup (s\<lparr>pmem := m\<rparr>) c = (wakeup s c)\<lparr>pmem := m\<rparr>"
proof -
  have "waken (s\<lparr>pmem := m\<rparr>) c NPROC = waken s c NPROC" by (auto simp: waken_def)
  then show ?thesis by (cases s) (simp add: wakeup_eq)
qed

lemma brelse_pmem:
  fixes s :: "'z kbio_scheme"
  assumes "brelse s i = Ret s'"
  shows "brelse (s\<lparr>pmem := m\<rparr>) i = Ret (s'\<lparr>pmem := m\<rparr>)"
  using assms by (auto simp: brelse_def releasesleep_def holdingsleep_def wakeup_pmem upd_buf_def Let_def split: if_splits)

lemma upt_split: "i \<le> j \<Longrightarrow> j \<le> k \<Longrightarrow> [i..<k] = [i..<j] @ [j..<k]"
  using upt_add_eq_append [of i j "k - j"] by simp

lemma chunk_rest:
  assumes "tot < n" "unat off + (unat n - unat tot) \<le> MAXFILE * BSIZE"
  defines "m \<equiv> io_chunk n tot off"
  shows "unat n - unat (tot + m) < unat n - unat tot" "unat (off + m) + (unat n - unat (tot + m)) = unat off + (unat n - unat tot)"
    "[unat off..<unat off + (unat n - unat tot)] = [unat off..<unat off + unat m] @ [unat (off + m)..<unat (off + m) + (unat n - unat (tot + m))]"
proof -
  note m = io_chunk_step [OF assms(1,2), folded m_def]
  show "unat n - unat (tot + m) < unat n - unat tot" and r: "unat (off + m) + (unat n - unat (tot + m)) = unat off + (unat n - unat tot)"
    using m(1,2,4,5) by linarith+
  show "[unat off..<unat off + (unat n - unat tot)] = [unat off..<unat off + unat m] @ [unat (off + m)..<unat (off + m) + (unat n - unat (tot + m))]"
    unfolding r unfolding m(5) using m(2) by (intro upt_split) auto
qed

text \<open>The part of the file that a read covers is mapped.\<close>

definition in_file :: "'z kfs_scheme \<Rightarrow> nat \<Rightarrow> nat \<Rightarrow> nat \<Rightarrow> bool" where
  "in_file s ip x y \<longleftrightarrow> y \<le> MAXFILE * BSIZE \<and> (\<forall>z. x \<le> z \<and> z < y \<longrightarrow> faddr s ip (z div BSIZE) \<noteq> 0)"

lemma in_file_pmem [simp]: "in_file (s\<lparr>pmem := m\<rparr>) ip x y = in_file s ip x y"
  by (simp add: in_file_def)

text \<open>
  One round of the loop of \<open>readi\<close>, for any destination: the copy starts from a state \<open>s2\<close> with the user's memory as it
  was, and gets the bytes of the file; \<open>s3\<close> is the state after the round, apart from the memory the copy has changed.
\<close>

definition readi_round :: "u32 \<Rightarrow> nat \<Rightarrow> u32 \<Rightarrow> u32 \<Rightarrow> u32 \<Rightarrow> u32 \<Rightarrow> 'z kfs_scheme \<Rightarrow> 'z kfs_scheme \<Rightarrow> 'z kfs_scheme \<Rightarrow> bool" where
  "readi_round d ip off n tot m s s2 s3 \<longleftrightarrow> same_user s s2 \<and> fs_step d {} s (view s) (logged s) s3 \<and> file_inv d s3 ip \<and>
     in_file s3 ip (unat (off + m)) (unat (off + m) + (unat n - unat (tot + m))) \<and>
     (\<forall>D obj r obj' \<mu>. either_copyout s2 D obj (map (fbyte s ip) [unat off..<unat off + unat m]) = (r, obj', s2\<lparr>pmem := \<mu>\<rparr>) \<longrightarrow>
       readi_loop s ip D off n tot obj = (if r = -1 then Ret (-1, obj', s3\<lparr>pmem := \<mu>\<rparr>)
         else readi_loop (s3\<lparr>pmem := \<mu>\<rparr>) ip (dst_add D m) (off + m) n (tot + m) obj'))"

lemma readi_roundD:
  assumes "readi_round d ip off n tot m s s2 s3"
  shows "same_user s s2" "fs_step d {} s (view s) (logged s) s3" "file_inv d s3 ip"
    "in_file s3 ip (unat (off + m)) (unat (off + m) + (unat n - unat (tot + m)))" "fbyte s3 ip = fbyte s ip"
    "either_copyout s2 D obj (map (fbyte s ip) [unat off..<unat off + unat m]) = (r, obj', s2\<lparr>pmem := \<mu>\<rparr>) \<Longrightarrow>
      readi_loop s ip D off n tot obj = (if r = -1 then Ret (-1, obj', s3\<lparr>pmem := \<mu>\<rparr>)
        else readi_loop (s3\<lparr>pmem := \<mu>\<rparr>) ip (dst_add D m) (off + m) n (tot + m) obj')"
  using assms by (auto simp: readi_round_def dest: fs_stepD intro!: fbyte_cong)

lemma readi_step:
  fixes s :: "'z kfs_scheme"
  assumes inv: "file_inv d s ip" and t: "tot < n" and fit: "in_file s ip (unat off) (unat off + (unat n - unat tot))"
  shows "\<exists>s2 s3. readi_round d ip off n tot (io_chunk n tot off) s s2 s3"
proof -
  define m where "m = io_chunk n tot off"
  let ?x = "unat off" and ?k = "unat off div BSIZE"
  have fit': "?x + (unat n - unat tot) \<le> MAXFILE * BSIZE" using fit by (simp add: in_file_def)
  note d = file_invD [OF inv] and m = io_chunk_step [OF t fit']
  have k: "?k < MAXFILE" using fit' m(1,2) by (auto simp: BSIZE_def)
  have mapped: "faddr s ip ?k \<noteq> 0" using fit m(1,2) by (simp add: in_file_def)
  obtain s1 where s1: "bmap s ip (of_nat ?k) = Ret (faddr s ip ?k, s1)" "fs_step d {} s (view s) (logged s) s1" "file_inv d s1 ip"
    using bmap_mapped [OF inv k mapped] by blast
  note e1 = fs_stepD [OF s1(2)]
  let ?a = "faddr s ip ?k"
  have log1: "?a \<notin> {}" "?a \<in> logged s1 \<or> card (logged s1 \<union> {}) < NBUF" using d(5) by (auto simp: e1)
  obtain i s2 s3 where s3: "bread s1 d ?a = Ret (i, s2)" "bdata s2 i = view s1 ?a" "brelse s2 i = Ret s3"
      "fs_step d {} s1 (view s1) (logged s1) s3"
    using fs_look [OF e1(1) log1] by blast
  have st: "fs_step d {} s (view s) (logged s) s3" using fs_step_trans [OF s1(2) s3(4)] by (simp add: e1)
  note e = fs_stepD [OF st]
  have inv3: "file_inv d s3 ip" using bmap_keep [OF inv st refl, of ?k] mapped by auto
  have "brest s2 = brest s1" using bread_logged [OF e1(1) log1] s3(1) by auto
  then have u: "same_user s s2" using same_user_trans [OF lrest_user [OF e1(7)] brest_user] by blast
  have bytes: "blk_get (bdata s2 i) (unat (off mod of_nat BSIZE)) (unat m) = map (fbyte s ip) [?x..<?x + unat m]"
    using blk_get_fbyte [of "unat m" ?x s ip ?a] mapped m(3) by (simp add: s3(2) e1 off_block(2) m_def)
  have step: "readi_loop s ip D off n tot obj = (if r = -1 then Ret (-1, obj', s3\<lparr>pmem := \<mu>\<rparr>)
        else readi_loop (s3\<lparr>pmem := \<mu>\<rparr>) ip (dst_add D m) (off + m) n (tot + m) obj')"
    if "either_copyout s2 D obj (map (fbyte s ip) [?x..<?x + unat m]) = (r, obj', s2\<lparr>pmem := \<mu>\<rparr>)" for D obj r obj' \<mu>
    using t mapped s1(1) s3(1) d(3) bytes that brelse_pmem [OF s3(3), of \<mu>]
    by (simp add: readi_loop.simps [of s] off_block(1) e1 Let_def flip: m_def)
  have "in_file s3 ip (unat (off + m)) (unat (off + m) + (unat n - unat (tot + m)))"
    using fit m(5) chunk_rest(2) [OF t fit'] by (simp add: in_file_def e m_def)
  then show ?thesis unfolding readi_round_def m_def [symmetric] using u st inv3 step by blast
qed

text \<open>The loop with an object of the kernel as the destination, with an address of the kernel, and with one of the user.\<close>

lemma readi_loop_obj:
  fixes s :: "'z kfs_scheme"
  assumes "file_inv d s ip" "tot \<le> n" "in_file s ip (unat off) (unat off + (unat n - unat tot))"
  shows "\<exists>s'. readi_loop s ip (ObjDst (length obj)) off n tot obj =
      Ret (n, obj @ map (fbyte s ip) [unat off..<unat off + (unat n - unat tot)], s') \<and>
    file_inv d s' ip \<and> fs_step d {} s (view s) (logged s) s'"
  using assms
proof (induction "unat n - unat tot" arbitrary: s off tot obj rule: less_induct)
  case less
  note inv = less.prems(1)
  show ?case
  proof (cases "tot < n")
    case False
    then have "tot = n" using less.prems(2) by simp
    then show ?thesis using inv fs_step_refl [OF file_invD(1) [OF inv]] by (auto simp: readi_loop.simps [of s])
  next
    case True
    let ?m = "io_chunk n tot off"
    let ?c = "map (fbyte s ip) [unat off..<unat off + unat ?m]"
    have fit: "unat off + (unat n - unat tot) \<le> MAXFILE * BSIZE" using less.prems(3) by (simp add: in_file_def)
    note rest = chunk_rest [OF True fit]
    obtain s2 s3 where "readi_round d ip off n tot ?m s s2 s3" using readi_step [OF inv True less.prems(3)] by blast
    note r = readi_roundD [OF this] and e = fs_stepD [OF readi_roundD(2) [OF this]]
    have "s2\<lparr>pmem := pmem s2\<rparr> = s2" "s3\<lparr>pmem := pmem s2\<rparr> = s3" using r(1) e by (simp_all add: same_user_def)
    then have step: "readi_loop s ip (ObjDst (length obj)) off n tot obj = readi_loop s3 ip (ObjDst (length (obj @ ?c))) (off + ?m) n (tot + ?m) (obj @ ?c)"
      using r(6) [of "ObjDst (length obj)" obj 0 "obj @ ?c" "pmem s2"] by (simp add: either_copyout_def dst_add_def obj_put_def)
    obtain s' where "readi_loop s3 ip (ObjDst (length (obj @ ?c))) (off + ?m) n (tot + ?m) (obj @ ?c) =
        Ret (n, (obj @ ?c) @ map (fbyte s3 ip) [unat (off + ?m)..<unat (off + ?m) + (unat n - unat (tot + ?m))], s')"
        "file_inv d s' ip" "fs_step d {} s3 (view s3) (logged s3) s'"
      using less.hyps [OF rest(1) r(3) io_chunk_step(6) [OF True fit] r(4), of "obj @ ?c"] by blast
    then show ?thesis using fs_step_trans [OF r(2)] by (auto simp: step rest(3) e r(5))
  qed
qed

lemma store_bytes_append:
  assumes "length xs + length ys \<le> 2 ^ 64"
  shows "store_bytes (store_bytes m a xs) (a + of_nat (length xs)) ys = store_bytes m a (xs @ ys)"
proof (rule ext)
  fix x
  have lx: "unat (of_nat (length xs) :: u64) = length xs mod 2 ^ 64" by (simp add: unat_of_nat)
  show "store_bytes (store_bytes m a xs) (a + of_nat (length xs)) ys x = store_bytes m a (xs @ ys) x"
  proof (cases "length xs = 2 ^ 64")
    case True
    then show ?thesis using assms unsigned_less [of "x - a", where ?'a = nat] by (simp add: store_bytes_def)
  next
    case False
    then have l: "unat (of_nat (length xs) :: u64) = length xs" using lx assms by simp
    have s: "x - (a + of_nat (length xs)) = (x - a) - of_nat (length xs)" by (simp add: diff_diff_eq)
    have "unat (x - (a + of_nat (length xs))) = (if length xs \<le> unat (x - a) then unat (x - a) - length xs else unat (x - a) + 2 ^ 64 - length xs)"
      unfolding s by (simp add: unat_sub_if' l)
    then show ?thesis using assms by (auto simp: store_bytes_def nth_append)
  qed
qed

lemma dst_add_nat: "dst_add (UserDst a) m = UserDst (a + of_nat (unat m))" "dst_add (KernDst a) m = KernDst (a + of_nat (unat m))"
  by (simp_all add: dst_add_def)

lemma readi_loop_kern:
  fixes s :: "'z kfs_scheme"
  assumes "file_inv d s ip" "tot \<le> n" "in_file s ip (unat off) (unat off + (unat n - unat tot))"
  shows "\<exists>s'. readi_loop s ip (KernDst pa) off n tot obj = Ret (n, obj, s') \<and>
    file_inv d s' ip \<and> fs_step d {} (s\<lparr>pmem := pmem s'\<rparr>) (view s) (logged s) s' \<and>
    pmem s' = store_bytes (pmem s) pa (map (fbyte s ip) [unat off..<unat off + (unat n - unat tot)])"
  using assms
proof (induction "unat n - unat tot" arbitrary: s off tot pa rule: less_induct)
  case less
  note inv = less.prems(1)
  show ?case
  proof (cases "tot < n")
    case False
    then have "tot = n" using less.prems(2) by simp
    then show ?thesis using inv fs_step_refl [OF file_invD(1) [OF inv]] by (auto simp: readi_loop.simps [of s] store_bytes_def)
  next
    case True
    let ?m = "io_chunk n tot off"
    let ?c = "map (fbyte s ip) [unat off..<unat off + unat ?m]" and ?k = "unat n - unat (tot + ?m)"
    let ?r = "map (fbyte s ip) [unat (off + ?m)..<unat (off + ?m) + ?k]"
    have fit: "unat off + (unat n - unat tot) \<le> MAXFILE * BSIZE" using less.prems(3) by (simp add: in_file_def)
    note rest = chunk_rest [OF True fit] and m = io_chunk_step [OF True fit]
    obtain s2 s3 where "readi_round d ip off n tot ?m s s2 s3" using readi_step [OF inv True less.prems(3)] by blast
    note r = readi_roundD [OF this] and e = fs_stepD [OF readi_roundD(2) [OF this]]
    let ?\<mu> = "store_bytes (pmem s) pa ?c"
    let ?s4 = "s3\<lparr>pmem := ?\<mu>\<rparr>"
    have "pmem s2 = pmem s" using r(1) by (simp add: same_user_def)
    then have step: "readi_loop s ip (KernDst pa) off n tot obj = readi_loop ?s4 ip (KernDst (pa + of_nat (unat ?m))) (off + ?m) n (tot + ?m) obj"
      using r(6) [of "KernDst pa" obj 0 obj ?\<mu>] by (simp add: either_copyout_def dst_add_nat)
    have ok4: "file_inv d ?s4 ip" "in_file ?s4 ip (unat (off + ?m)) (unat (off + ?m) + ?k)" using r(3,4) by simp_all
    obtain s' where s': "readi_loop ?s4 ip (KernDst (pa + of_nat (unat ?m))) (off + ?m) n (tot + ?m) obj = Ret (n, obj, s')"
        "file_inv d s' ip" "fs_step d {} (?s4\<lparr>pmem := pmem s'\<rparr>) (view ?s4) (logged ?s4) s'"
        "pmem s' = store_bytes (pmem ?s4) (pa + of_nat (unat ?m)) (map (fbyte ?s4 ip) [unat (off + ?m)..<unat (off + ?m) + ?k])"
      using less.hyps [OF rest(1) ok4(1) m(6) ok4(2), of "pa + of_nat (unat ?m)"] by blast
    have "length ?c + length ?r = unat n - unat tot" using m(1,2,4) by simp
    also have "\<dots> \<le> 2 ^ 64" using unsigned_less [of n, where ?'a = nat] by simp
    finally have "pmem s' = store_bytes (pmem s) pa (?c @ ?r)"
      using store_bytes_append [of ?c ?r "pmem s" pa] s'(4) by (simp add: r(5))
    moreover have "fs_step d {} (s\<lparr>pmem := pmem s'\<rparr>) (view s) (logged s) s'"
      using fs_step_trans [OF fs_step_pmem [OF r(2), of "pmem s'"]] s'(3) by (simp add: e)
    ultimately show ?thesis unfolding rest(3) using s'(1,2) by (auto simp: step)
  qed
qed

lemma wrote_mem:
  assumes "wrote s2 pt a bs s2'" "pmem s2 = pmem s"
  shows "wrote s pt a bs (s\<lparr>pmem := pmem s2'\<rparr>)"
  using assms by (simp add: wrote_def uva_def uwritable_def ureadable_def)

lemma wrote_mem_iff: "wrote (s\<lparr>pmem := \<mu>\<rparr>) pt a bs (s\<lparr>pmem := \<nu>\<rparr>) \<longleftrightarrow> wrote (s'\<lparr>pmem := \<mu>\<rparr>) pt a bs (s'\<lparr>pmem := \<nu>\<rparr>)"
  by (simp add: wrote_def uva_def uwritable_def ureadable_def)

text \<open>One round with a user's address: \<open>k\<close> bytes of the chunk are copied, all of them or up to one that cannot be written.\<close>

lemma readi_user_round:
  fixes s :: "'z kfs_scheme"
  assumes inv: "file_inv d s ip" and t: "tot < n" and fit: "in_file s ip (unat off) (unat off + (unat n - unat tot))"
    and pt: "pt = p_pagetable (myproc s)" and u: "uspace s pt q X ps"
  defines "m \<equiv> io_chunk n tot off" and "c \<equiv> map (fbyte s ip) [unat off..<unat off + unat (io_chunk n tot off)]"
  shows "\<exists>k s3 \<mu>. k \<le> length c \<and> fs_step d {} s (view s) (logged s) s3 \<and> file_inv d s3 ip \<and>
    in_file s3 ip (unat (off + m)) (unat (off + m) + (unat n - unat (tot + m))) \<and>
    wrote s pt a (take k c) (s\<lparr>pmem := \<mu>\<rparr>) \<and> uspace (s3\<lparr>pmem := \<mu>\<rparr>) pt q X ps \<and> (\<forall>v. pte_of (s\<lparr>pmem := \<mu>\<rparr>) pt v = pte_of s pt v) \<and>
    (if k < length c then \<not> uwritable s pt (a + of_nat k) \<and> readi_loop s ip (UserDst a) off n tot obj = Ret (-1, obj, s3\<lparr>pmem := \<mu>\<rparr>)
     else readi_loop s ip (UserDst a) off n tot obj = readi_loop (s3\<lparr>pmem := \<mu>\<rparr>) ip (UserDst (a + of_nat (unat m))) (off + m) n (tot + m) obj)"
proof -
  obtain s2 s3 where "readi_round d ip off n tot m s s2 s3" using readi_step [OF inv t fit] by (auto simp: m_def)
  note r = readi_roundD [OF this] and e = fs_stepD [OF readi_roundD(2) [OF this]]
  note u2 = same_userD [OF r(1)]
  have mem2: "pmem s2 = pmem s" "p_pagetable (myproc s2) = pt" using r(1) u2(4) pt by (simp_all add: same_user_def)
  have lc: "length c < 2 ^ 64" using unsigned_less [of "io_chunk n tot off", where ?'a = nat] by (simp add: c_def)
  obtain cr s2' where c: "copyout s2 pt a c = (cr, s2')" by fastforce
  obtain k where k: "k \<le> length c" "wrote s2 pt a (take k c) s2'" "uspace s2' pt q X ps" "\<And>v. pte_of s2' pt v = pte_of s2 pt v"
      "cr = 0 \<and> k = length c \<or> cr = -1 \<and> k < length c \<and> \<not> uwritable s2 pt (a + of_nat k)"
    using copyout_spec [OF _ lc c, of q X ps] u u2(1) by auto
  have s2': "s2' = s2\<lparr>pmem := pmem s2'\<rparr>" using k(2) by (simp add: wrote_def)
  have "either_copyout s2 (UserDst a) obj c = (cr, obj, s2\<lparr>pmem := pmem s2'\<rparr>)" using c s2' by (simp add: either_copyout_def mem2(2))
  then have step: "readi_loop s ip (UserDst a) off n tot obj = (if cr = -1 then Ret (-1, obj, s3\<lparr>pmem := pmem s2'\<rparr>)
      else readi_loop (s3\<lparr>pmem := pmem s2'\<rparr>) ip (UserDst (a + of_nat (unat m))) (off + m) n (tot + m) obj)"
    using r(6) [of "UserDst a" obj cr obj "pmem s2'"] by (simp add: dst_add_nat c_def m_def)
  have "wrote s pt a (take k c) (s\<lparr>pmem := pmem s2'\<rparr>)" by (rule wrote_mem [OF k(2) mem2(1)])
  moreover have "pte_of (s\<lparr>pmem := pmem s2'\<rparr>) pt v = pte_of s pt v" for v using k(4) [of v] mem2(1) by simp
  moreover have "freelist s2' = freelist s" "sym_end s2' = sym_end s"
    using r(1) arg_cong [OF s2', of freelist] arg_cong [OF s2', of sym_end] by (simp_all add: same_user_def)
  then have "uspace (s3\<lparr>pmem := pmem s2'\<rparr>) pt q X ps"
    using k(3) uspace_cong [of "s3\<lparr>pmem := pmem s2'\<rparr>" s2' pt q X ps] lrest_log [OF e(7)] by simp
  moreover have "uwritable s2 pt = uwritable s pt" by (rule ext) (simp add: uwritable_def ureadable_def mem2(1))
  ultimately show ?thesis using k(1,5) r(2-4) step by (intro exI [of _ k] exI [of _ s3] exI [of _ "pmem s2'"]) auto
qed

lemma readi_loop_user:
  fixes s :: "'z kfs_scheme"
  assumes "file_inv d s ip" "tot \<le> n" "in_file s ip (unat off) (unat off + (unat n - unat tot))"
    "pt = p_pagetable (myproc s)" "uspace s pt q X ps"
  shows "\<exists>k s'. let data = map (fbyte s ip) [unat off..<unat off + (unat n - unat tot)] in
    k \<le> length data \<and> readi_loop s ip (UserDst a) off n tot obj = Ret (if k = length data then n else -1, obj, s') \<and>
    file_inv d s' ip \<and> fs_step d {} (s\<lparr>pmem := pmem s'\<rparr>) (view s) (logged s) s' \<and> uspace s' pt q X ps \<and>
    (\<forall>v. pte_of s' pt v = pte_of s pt v) \<and> (k < length data \<longrightarrow> \<not> uwritable s pt (a + of_nat k)) \<and>
    wrote s pt a (take k data) (s\<lparr>pmem := pmem s'\<rparr>)"
  using assms
proof (induction "unat n - unat tot" arbitrary: s off tot a rule: less_induct)
  case less
  note inv = less.prems(1) and u = less.prems(5)
  show ?case
  proof (cases "tot < n")
    case False
    then have "tot = n" using less.prems(2) by simp
    then show ?thesis using inv u fs_step_refl [OF file_invD(1) [OF inv]]
      by (intro exI [of _ 0] exI [of _ s]) (simp add: readi_loop.simps [of s] wrote_def)
  next
    case True
    let ?m = "io_chunk n tot off"
    let ?c = "map (fbyte s ip) [unat off..<unat off + unat ?m]" and ?k = "unat n - unat (tot + ?m)"
    let ?r = "map (fbyte s ip) [unat (off + ?m)..<unat (off + ?m) + ?k]"
    have fit: "unat off + (unat n - unat tot) \<le> MAXFILE * BSIZE" using less.prems(3) by (simp add: in_file_def)
    note rest = chunk_rest [OF True fit] and m = io_chunk_step [OF True fit]
    have len: "length (?c @ ?r) = unat n - unat tot" "unat n < 2 ^ 64" "length ?c = unat ?m"
      using m(1,2,4) unsigned_less [of n, where ?'a = nat] by auto
    obtain k s3 \<mu> where r: "k \<le> length ?c" "fs_step d {} s (view s) (logged s) s3" "file_inv d s3 ip" "in_file s3 ip (unat (off + ?m)) (unat (off + ?m) + ?k)"
        and w1: "wrote s pt a (take k ?c) (s\<lparr>pmem := \<mu>\<rparr>)" and u4: "uspace (s3\<lparr>pmem := \<mu>\<rparr>) pt q X ps" and pte: "\<And>v. pte_of (s\<lparr>pmem := \<mu>\<rparr>) pt v = pte_of s pt v"
        and step: "if k < length ?c then \<not> uwritable s pt (a + of_nat k) \<and> readi_loop s ip (UserDst a) off n tot obj = Ret (-1, obj, s3\<lparr>pmem := \<mu>\<rparr>)
          else readi_loop s ip (UserDst a) off n tot obj = readi_loop (s3\<lparr>pmem := \<mu>\<rparr>) ip (UserDst (a + of_nat (unat ?m))) (off + ?m) n (tot + ?m) obj"
      using readi_user_round [OF inv True less.prems(3,4) u, of a obj] by blast
    let ?s4 = "s3\<lparr>pmem := \<mu>\<rparr>"
    note e = fs_stepD [OF r(2)]
    have fs4: "fs_step d {} (s\<lparr>pmem := \<nu>\<rparr>) (view s) (logged s) (s3\<lparr>pmem := \<nu>\<rparr>)" for \<nu> by (rule fs_step_pmem [OF r(2)])
    have ok4: "file_inv d ?s4 ip" "in_file ?s4 ip (unat (off + ?m)) (unat (off + ?m) + ?k)" using r(3,4) by simp_all
    have pte4: "pte_of ?s4 pt v = pte_of s pt v" for v using pte [of v] by simp
    show ?thesis
    proof (cases "k < length ?c")
      case True
      then have "fs_step d {} (s\<lparr>pmem := pmem ?s4\<rparr>) (view s) (logged s) ?s4" "wrote s pt a (take k (?c @ ?r)) (s\<lparr>pmem := pmem ?s4\<rparr>)"
        using fs4 w1 by simp_all
      then show ?thesis unfolding rest(3) map_append Let_def using ok4(1) u4 pte4 step True
        by (intro exI [of _ k] exI [of _ ?s4] conjI) (simp_all del: map_append)
    next
      case False
      then have kc: "k = length ?c" using r(1) by simp
      have "pt = p_pagetable (myproc ?s4)" using lrest_user [OF e(7)] less.prems(4) by (simp add: same_user_def)
      moreover have "fbyte ?s4 ip = fbyte s ip" using fbyte_cong [of s3 s ip] by (simp add: e)
      ultimately obtain j s' where s': "j \<le> length ?r" "readi_loop ?s4 ip (UserDst (a + of_nat (unat ?m))) (off + ?m) n (tot + ?m) obj = Ret (if j = length ?r then n else -1, obj, s')"
          "file_inv d s' ip" "fs_step d {} (?s4\<lparr>pmem := pmem s'\<rparr>) (view ?s4) (logged ?s4) s'" "uspace s' pt q X ps"
          "\<And>v. pte_of s' pt v = pte_of ?s4 pt v" "j < length ?r \<Longrightarrow> \<not> uwritable ?s4 pt (a + of_nat (unat ?m) + of_nat j)"
          "wrote ?s4 pt (a + of_nat (unat ?m)) (take j ?r) (?s4\<lparr>pmem := pmem s'\<rparr>)"
        using less.hyps [OF rest(1) ok4(1) m(6) ok4(2) _ u4, of "a + of_nat (unat ?m)"] unfolding Let_def by metis
      let ?K = "length ?c + j"
      have w2: "wrote (s\<lparr>pmem := \<mu>\<rparr>) pt (a + of_nat (unat ?m)) (take j ?r) (s\<lparr>pmem := pmem s'\<rparr>)"
        using s'(8) wrote_mem_iff [of \<mu> s3 pt "a + of_nat (unat ?m)" "take j ?r" "pmem s'" s] by simp
      have w: "wrote s pt a (take ?K (?c @ ?r)) (s\<lparr>pmem := pmem s'\<rparr>)"
        using wrote_append [OF u w1 w2 pte] kc len s'(1) by simp
      have "uwritable ?s4 pt = uwritable s pt" using pte4 by (simp add: uwritable_def ureadable_def fun_eq_iff)
      then have "\<not> uwritable s pt (a + of_nat ?K)" if "?K < length (?c @ ?r)"
        using s'(7) that len(3) by (simp add: add.assoc)
      moreover have "readi_loop s ip (UserDst a) off n tot obj = Ret (if ?K = length (?c @ ?r) then n else -1, obj, s')"
        using step False s'(2) by simp
      moreover have "fs_step d {} (s\<lparr>pmem := pmem s'\<rparr>) (view s) (logged s) s'"
        using fs_step_trans [OF fs4 [of "pmem s'"]] s'(4) by (simp add: e)
      moreover have "pte_of s' pt v = pte_of s pt v" for v using s'(6) pte4 by simp
      ultimately show ?thesis unfolding rest(3) map_append Let_def using w s'(1,3,5)
        by (intro exI [of _ ?K] exI [of _ s'] conjI) simp_all
    qed
  qed
qed

section \<open>Writing\<close>

text \<open>
  A source that yields the bytes \<open>bs\<close>: bytes of the kernel, or a user's address from which the process may read as
  many bytes, and these are \<open>bs\<close>.
\<close>

definition feeds :: "'z kproc_scheme \<Rightarrow> src \<Rightarrow> u8 list \<Rightarrow> bool" where
  "feeds s D bs \<longleftrightarrow> (case D of ObjSrc xs \<Rightarrow> xs = bs
     | UserSrc a \<Rightarrow> (\<exists>q X ps. uspace s (p_pagetable (myproc s)) q X ps) \<and>
         (\<forall>i<length bs. ureadable s (p_pagetable (myproc s)) (a + of_nat i)) \<and> bs = ubytes s (p_pagetable (myproc s)) a (length bs))"

lemma feeds_obj [simp]: "feeds s (ObjSrc bs) bs"
  by (simp add: feeds_def)

lemma feeds_user:
  assumes "same_user s s'"
  shows "feeds s' D bs = feeds s D bs"
  unfolding feeds_def same_userD [OF assms] ..

lemma length_ubytes [simp]: "length (ubytes s pt a k) = k"
  by (simp add: ubytes_def)

lemma ubytes_split:
  assumes "bs = ubytes s pt a (length bs)" "k \<le> length bs"
  shows "take k bs = ubytes s pt a k" "drop k bs = ubytes s pt (a + of_nat k) (length bs - k)"
proof -
  have "bs = ubytes s pt a k @ ubytes s pt (a + of_nat k) (length bs - k)"
    using assms ubytes_append [of s pt a k "length bs - k"] by simp
  then show "take k bs = ubytes s pt a k" "drop k bs = ubytes s pt (a + of_nat k) (length bs - k)"
    by (metis append_eq_conv_conj length_ubytes)+
qed

lemma feeds_copyin:
  assumes "feeds s D bs" "k \<le> length bs"
  shows "either_copyin s D k = (0, take k bs)"
proof (cases D)
  case (UserSrc a)
  let ?pt = "p_pagetable (myproc s)"
  obtain q X ps where u: "uspace s ?pt q X ps" and rd: "\<forall>i<length bs. ureadable s ?pt (a + of_nat i)" and bs: "bs = ubytes s ?pt a (length bs)"
    using assms(1) UserSrc by (auto simp: feeds_def)
  obtain r xs where c: "copyin s ?pt a k = (r, xs)" by fastforce
  then obtain j where "j \<le> k" "xs = ubytes s ?pt a j" "r = 0 \<and> j = k \<or> r = -1 \<and> j < k \<and> \<not> ureadable s ?pt (a + of_nat j)"
    using copyin_spec [OF u c] by blast
  moreover have "take k bs = ubytes s ?pt a k" by (rule ubytes_split(1) [OF bs assms(2)])
  ultimately show ?thesis using c rd assms(2) UserSrc by (auto simp: either_copyin_def)
qed (use assms in \<open>simp add: feeds_def either_copyin_def\<close>)

lemma feeds_add:
  assumes "feeds s D bs" "unat m \<le> length bs"
  shows "feeds s (src_add D m) (drop (unat m) bs)"
proof (cases D)
  case (UserSrc a)
  let ?pt = "p_pagetable (myproc s)" and ?k = "length bs - unat m"
  have bs: "bs = ubytes s ?pt a (length bs)" using assms(1) UserSrc by (simp add: feeds_def)
  have "drop (unat m) bs = ubytes s ?pt (a + of_nat (unat m)) ?k"
    by (rule ubytes_split(2) [OF bs assms(2)])
  moreover have "ureadable s ?pt (a + of_nat (unat m) + of_nat i)" if "i < ?k" for i
  proof -
    have "ureadable s ?pt (a + of_nat (unat m + i))" using assms(1) UserSrc that by (simp add: feeds_def del: of_nat_add)
    then show ?thesis by (simp add: add.assoc)
  qed
  ultimately show ?thesis using assms UserSrc by (simp add: feeds_def src_add_def)
qed (use assms in \<open>simp add: feeds_def src_add_def\<close>)

text \<open>Writing one block of a file that has been mapped.\<close>

lemma write_mapped:
  fixes s :: "'z kfs_scheme"
  assumes inv: "file_inv d s ip" and k: "k < MAXFILE" "faddr s ip k = a" "a \<noteq> 0" and room: "card (logged s) < log_cap s"
  shows "\<exists>i s1. bread s d a = Ret (i, s1) \<and> bdata s1 i = view s a \<and> inodes s1 = inodes s \<and> (\<forall>x. \<exists>s2 s3. log_write (set_bdata s1 i x) i = Ret s2 \<and>
    brelse s2 i = Ret s3 \<and> file_inv d s3 ip \<and> file_frame s ip 1 s3 \<and> inodes s3 = inodes s \<and> faddr s3 ip = faddr s ip \<and> view s3 = (view s)(a := x))"
proof -
  note d = file_invD [OF inv]
  have a: "a \<notin> log_area s" "a \<notin> bm_blocks (sb s)" "a \<noteq> faddr s ip MAXFILE"
    using addr_ok(2,3) [OF inv, of k] addr_ok(5) [OF inv, of k MAXFILE] k by auto
  obtain i s1 where r: "bread s d a = Ret (i, s1)" "bdata s1 i = view s a" "inodes s1 = inodes s" and u: "\<forall>x. \<exists>s2 s'. log_write (set_bdata s1 i x) i = Ret s2 \<and>
      brelse s2 i = Ret s' \<and> fs_step d {} s ((view s)(a := x)) (insert a (logged s)) s'"
    using fs_update [OF d(1), of a] d(5) a(1) room by auto
  have "file_inv d s3 ip \<and> file_frame s ip 1 s3 \<and> inodes s3 = inodes s \<and> faddr s3 ip = faddr s ip \<and> view s3 = (view s)(a := x)"
    if st: "fs_step d {} s ((view s)(a := x)) (insert a (logged s)) s3" for x s3
  proof -
    note e = fs_stepD [OF st]
    have r: "frest s3 = frest s" using e by (intro frest_lrest)
    have v: "view s3 = (view s)(a := x)" by (simp add: e)
    have F: "faddr s3 ip = faddr s ip" unfolding v e(9) by (rule fblk_cong) (use a(3) NDIRECT_MAXFILE(1) in \<open>auto simp: fblk_def\<close>)
    have "a \<noteq> BBLOCK (of_nat m) (sb s)" if "m < fs_size s" for m using a(2) that by (auto simp: bm_blocks_def)
    then have us: "used s3 m = used s m" if "m < fs_size s" for m unfolding v e(8) using that by (intro block_used_other)
    have "addrs_ok (faddr s3 ip) (used s3) (forb s (inodes s ip)) (fs_size s)" using d(6) us by (auto simp: F addrs_ok_def)
    then have "file_inv d s3 ip" by (intro file_inv_step [OF inv e(1) r]) (use d us in \<open>auto simp: e\<close>)
    moreover have "\<exists>A. inodes s3 = (inodes s)(ip := (inodes s ip)\<lparr>i_addrs := A\<rparr>)"
      by (rule exI [of _ "i_addrs (inodes s ip)"]) (simp add: e)
    then have "file_frame s ip 1 s3" unfolding file_frame_def F using r us e(3) v k by (auto simp: card_insert_if)
    ultimately show ?thesis using F v e(9) by blast
  qed
  then show ?thesis using r u by blast
qed

text \<open>The number of blocks that \<open>n\<close> bytes from offset \<open>x\<close> touch.\<close>

definition nblk :: "nat \<Rightarrow> nat \<Rightarrow> nat" where
  "nblk x n = (if n = 0 then 0 else (x mod BSIZE + n + BSIZE - 1) div BSIZE)"

lemma nblk_step:
  assumes "0 < n" "m \<le> n" "0 < m" "m = n \<or> m = BSIZE - x mod BSIZE" "m \<le> BSIZE - x mod BSIZE"
  shows "nblk (x + m) (n - m) + 1 \<le> nblk x n"
proof -
  have b: "x mod BSIZE < BSIZE" "0 < BSIZE" by (simp_all add: BSIZE_def)
  have "BSIZE div BSIZE \<le> (x mod BSIZE + n + BSIZE - 1) div BSIZE" using assms(1) by (intro div_le_mono) simp
  then have pos: "1 \<le> nblk x n" using assms(1) b(2) by (simp add: nblk_def)
  show ?thesis
  proof (cases "m = n")
    case True
    then show ?thesis using pos by (simp add: nblk_def)
  next
    case False
    then have m: "m = BSIZE - x mod BSIZE" using assms(4) by simp
    have "x div BSIZE * BSIZE + x mod BSIZE = x" by simp
    then have "x + m = x div BSIZE * BSIZE + BSIZE" using m b(1) by linarith
    then have "(x + m) mod BSIZE = 0" by simp
    then have "nblk (x + m) (n - m) \<le> (n - m + BSIZE - 1) div BSIZE" by (simp add: nblk_def)
    moreover have "x mod BSIZE + n + BSIZE - 1 = (n - m + BSIZE - 1) + BSIZE" using m assms(2) b by linarith
    then have "nblk x n = (n - m + BSIZE - 1) div BSIZE + 1" 
      using assms(1) b(2) div_add_self2 [of BSIZE "n - m + BSIZE - 1"] by (simp add: nblk_def)
    ultimately show ?thesis by simp
  qed
qed

text \<open>Writing the bytes \<open>bs\<close> at \<open>x\<close> in block \<open>x div BSIZE\<close>, which \<open>bmap\<close> has found or allocated.\<close>

definition put_bytes :: "(nat \<Rightarrow> u8) \<Rightarrow> nat \<Rightarrow> u8 list \<Rightarrow> nat \<Rightarrow> u8" where
  "put_bytes c x bs y = (if x \<le> y \<and> y < x + length bs then bs ! (y - x) else c y)"

lemma put_bytes_cong: "c y = c' y \<Longrightarrow> put_bytes c x bs y = put_bytes c' x bs y"
  by (simp add: put_bytes_def)

lemma put_bytes_append: "put_bytes (put_bytes c x as) (x + length as) bs = put_bytes c x (as @ bs)"
  by (rule ext) (auto simp: put_bytes_def nth_append)

lemma write_block_run:
  fixes s :: "'z kfs_scheme"
  assumes inv: "file_inv d s ip" and k: "x div BSIZE < MAXFILE" and room: "card (logged s) + 6 \<le> log_cap s"
    and bs: "length bs \<le> BSIZE - x mod BSIZE" "bs \<noteq> []"
  shows "\<exists>a s1. bmap s ip (of_nat (x div BSIZE)) = Ret (a, s1) \<and> i_dev (inodes s1 ip) = d \<and>
    (if a = 0 then file_inv d s1 ip \<and> file_frame s ip 6 s1 \<and> fs_full s1 \<and> (\<forall>y<MAXFILE * BSIZE. fbyte s1 ip y = fbyte s ip y) \<and>
        (\<forall>j<MAXFILE. faddr s ip j \<noteq> 0 \<longrightarrow> faddr s1 ip j = faddr s ip j)
     else \<exists>i s2 s3 s4. bread s1 d a = Ret (i, s2) \<and> same_user s s2 \<and> inodes s2 = inodes s1 \<and>
        log_write (set_bdata s2 i (blk_put (bdata s2 i) (x mod BSIZE) bs)) i = Ret s3 \<and>
        brelse s3 i = Ret s4 \<and> file_inv d s4 ip \<and> file_frame s ip 6 s4 \<and>
        (\<forall>y<MAXFILE * BSIZE. fbyte s4 ip y = put_bytes (fbyte s ip) x bs y) \<and>
        (\<forall>j<MAXFILE. faddr s ip j \<noteq> 0 \<longrightarrow> faddr s4 ip j = faddr s ip j) \<and> faddr s4 ip (x div BSIZE) \<noteq> 0)"
proof -
  let ?k = "x div BSIZE"
  obtain a s1 where s1: "bmap s ip (of_nat ?k) = Ret (a, s1)" "file_inv d s1 ip" "bmap_post s ip ?k a 5 s1"
    using bmap_run [OF inv k] room by auto
  have F: "\<And>j. j < MAXFILE \<Longrightarrow> faddr s1 ip j = ((faddr s ip)(?k := a)) j" "faddr s ip ?k \<noteq> 0 \<Longrightarrow> a = faddr s ip ?k"
      "\<And>j. j < MAXFILE \<Longrightarrow> faddr s ip j \<noteq> 0 \<Longrightarrow> view s1 (faddr s ip j) = view s (faddr s ip j)"
      "faddr s ip ?k = 0 \<Longrightarrow> a \<noteq> 0 \<Longrightarrow> \<forall>y<BSIZE. view s1 a y = 0" "a = 0 \<Longrightarrow> fs_full s1" "file_frame s ip 5 s1"
    using s1(3) by (auto simp: bmap_post_def)
  have kept: "faddr s1 ip j = faddr s ip j" if "j < MAXFILE" "faddr s ip j \<noteq> 0" for j using F(1,2) that by auto
  have blk: "y div BSIZE < MAXFILE" "y mod BSIZE < BSIZE" if "y < MAXFILE * BSIZE" for y using that by (auto simp: BSIZE_def less_mult_imp_div_less)
  have bytes: "fbyte s1 ip y = fbyte s ip y" if "y < MAXFILE * BSIZE" for y
    using F blk [OF that] by (cases "y div BSIZE = ?k") (auto simp: fbyte_def Let_def)
  show ?thesis
  proof (cases "a = 0")
    case True
    then show ?thesis using s1(1,2) F(5) kept bytes file_frame_weaken [OF F(6), of 6] file_invD(3) [OF s1(2)] by auto
  next
    case False
    have a: "faddr s1 ip ?k = a" using F(1) k by simp
    have "card (logged s1) < log_cap s1"
      using room F(6) by (auto simp: file_frame_def dest: frestD(10))
    then obtain i s2 where r: "bread s1 d a = Ret (i, s2)" "bdata s2 i = view s1 a" "inodes s2 = inodes s1" and "\<forall>x. \<exists>s3 s4. log_write (set_bdata s2 i x) i = Ret s3 \<and>
        brelse s3 i = Ret s4 \<and> file_inv d s4 ip \<and> file_frame s1 ip 1 s4 \<and> inodes s4 = inodes s1 \<and> faddr s4 ip = faddr s1 ip \<and> view s4 = (view s1)(a := x)"
      using write_mapped [OF s1(2) k a False] by blast
    then obtain s3 s4 where s4: "log_write (set_bdata s2 i (blk_put (view s1 a) (x mod BSIZE) bs)) i = Ret s3" "brelse s3 i = Ret s4" "file_inv d s4 ip"
        "file_frame s1 ip 1 s4" "faddr s4 ip = faddr s1 ip" "view s4 = (view s1)(a := blk_put (view s1 a) (x mod BSIZE) bs)" by blast
    have "fbyte s4 ip y = put_bytes (fbyte s ip) x bs y" if y: "y < MAXFILE * BSIZE" for y
    proof (cases "y div BSIZE = ?k")
      case True
      have "y mod BSIZE + x = x mod BSIZE + y" using True by (metis add.commute add.left_commute div_mult_mod_eq)
      then have eq: "y mod BSIZE - x mod BSIZE = y - x" "x mod BSIZE \<le> y mod BSIZE \<longleftrightarrow> x \<le> y" "y mod BSIZE < x mod BSIZE + length bs \<longleftrightarrow> y < x + length bs" by linarith+
      show ?thesis using bytes [OF y] a False unfolding put_bytes_def fbyte_def s4(5) unfolding s4(6) Let_def True a
        by (simp add: blk_put_def eq)
    next
      case other: False
      have "\<not> (x \<le> y \<and> y < x + length bs)" using chunk_in_block(1) [OF bs(1)] other by blast
      moreover have "faddr s1 ip (y div BSIZE) \<noteq> a"
        using addr_ok(5) [OF s1(2), of ?k "y div BSIZE"] other a False k blk [OF y] by auto
      ultimately show ?thesis using bytes [OF y] unfolding put_bytes_def fbyte_def s4(5) unfolding s4(6) Let_def
        by (auto split: if_splits)
    qed
    moreover have "file_frame s ip 6 s4" using file_frame_trans [OF F(6) s4(4)] by simp
    moreover have "\<forall>j<MAXFILE. faddr s ip j \<noteq> 0 \<longrightarrow> faddr s4 ip j = faddr s ip j" "faddr s4 ip ?k \<noteq> 0"
      unfolding s4(5) using kept a False by auto
    moreover have "brest s2 = brest s1" using bread_logged [of d s1 "{}" a] file_invD(1,5) [OF s1(2)] r(1) by auto
    then have "same_user s s2"
      using same_user_trans [OF frest_user brest_user] F(6) by (auto simp: file_frame_def)
    ultimately show ?thesis using s1(1) r s4(1-3) False file_invD(3) [OF s1(2)] by auto
  qed
qed


lemma file_frame_refl: "file_frame s ip c s"
proof -
  have "\<exists>A. inodes s = (inodes s)(ip := (inodes s ip)\<lparr>i_addrs := A\<rparr>)" by (rule exI [of _ "i_addrs (inodes s ip)"]) simp
  then show ?thesis unfolding file_frame_def by (intro conjI) simp_all
qed

lemma writei_loop_run:
  fixes s :: "'z kfs_scheme"
  assumes "file_inv d s ip" "tot \<le> n" "unat off + (unat n - unat tot) \<le> MAXFILE * BSIZE" "length bs = unat n - unat tot"
    "card (logged s) + 6 * nblk (unat off) (length bs) \<le> log_cap s" "feeds s D bs"
  shows "\<exists>w s'. w \<le> length bs \<and> writei_loop s ip D off n tot = Ret (tot + of_nat w, off + of_nat w, s') \<and>
    file_inv d s' ip \<and> file_frame s ip (6 * nblk (unat off) (length bs)) s' \<and> (w < length bs \<longrightarrow> fs_full s') \<and>
    (\<forall>y<MAXFILE * BSIZE. fbyte s' ip y = put_bytes (fbyte s ip) (unat off) (take w bs) y) \<and>
    (\<forall>j<MAXFILE. faddr s ip j \<noteq> 0 \<longrightarrow> faddr s' ip j = faddr s ip j) \<and>
    (\<forall>y. unat off \<le> y \<and> y < unat off + w \<longrightarrow> faddr s' ip (y div BSIZE) \<noteq> 0)"
  using assms
proof (induction "unat n - unat tot" arbitrary: s off tot bs D rule: less_induct)
  case less
  note inv = less.prems(1) and d = file_invD [OF less.prems(1)]
  let ?c = "6 * nblk (unat off) (length bs)"
  show ?case
  proof (cases "tot < n")
    case False
    then have "tot = n" "bs = []" using less.prems(2,4) by auto
    then show ?thesis using inv file_frame_refl by (intro exI [of _ 0] exI [of _ s]) (auto simp: writei_loop.simps [of s] put_bytes_def)
  next
    case True
    let ?x = "unat off" and ?m = "io_chunk n tot off"
    note m = io_chunk_step [OF True less.prems(3)]
    let ?bs = "take (unat ?m) bs" and ?rs = "drop (unat ?m) bs"
    have lm: "length ?bs = unat ?m" using m(2) less.prems(4) by simp
    have k: "?x div BSIZE < MAXFILE" using less.prems(3) m(1,2) by (intro less_mult_imp_div_less) linarith
    have nb: "nblk (?x + unat ?m) (length ?rs) + 1 \<le> nblk ?x (length bs)"
      using nblk_step [of "length bs" "unat ?m" ?x] m(1-3,7) less.prems(4) by auto
    have bs: "length ?bs \<le> BSIZE - ?x mod BSIZE" "?bs \<noteq> []" using m(1,3) lm by auto
    obtain a s1 where s1: "bmap s ip (of_nat (?x div BSIZE)) = Ret (a, s1)" "i_dev (inodes s1 ip) = d" and
      out: "if a = 0 then file_inv d s1 ip \<and> file_frame s ip 6 s1 \<and> fs_full s1 \<and> (\<forall>y<MAXFILE * BSIZE. fbyte s1 ip y = fbyte s ip y) \<and>
        (\<forall>j<MAXFILE. faddr s ip j \<noteq> 0 \<longrightarrow> faddr s1 ip j = faddr s ip j)
       else \<exists>i s2 s3 s4. bread s1 d a = Ret (i, s2) \<and> same_user s s2 \<and> inodes s2 = inodes s1 \<and>
        log_write (set_bdata s2 i (blk_put (bdata s2 i) (?x mod BSIZE) ?bs)) i = Ret s3 \<and>
        brelse s3 i = Ret s4 \<and> file_inv d s4 ip \<and> file_frame s ip 6 s4 \<and>
        (\<forall>y<MAXFILE * BSIZE. fbyte s4 ip y = put_bytes (fbyte s ip) ?x ?bs y) \<and>
        (\<forall>j<MAXFILE. faddr s ip j \<noteq> 0 \<longrightarrow> faddr s4 ip j = faddr s ip j) \<and> faddr s4 ip (?x div BSIZE) \<noteq> 0"
      using write_block_run [OF inv k _ bs] less.prems(5) nb by fastforce
    show ?thesis
    proof (cases "a = 0")
      case a0: True
      then have "writei_loop s ip D off n tot = Ret (tot, off, s1)"
        using True s1(1) by (simp add: writei_loop.simps [of s] off_block(1))
      then show ?thesis using a0 out nb file_frame_weaken [of s ip 6 s1 ?c]
        by (intro exI [of _ 0] exI [of _ s1]) (auto simp: put_bytes_def)
    next
      case a1: False
      then obtain i s2 s3 s4 where s4: "bread s1 d a = Ret (i, s2)" "inodes s2 = inodes s1"
          "log_write (set_bdata s2 i (blk_put (bdata s2 i) (?x mod BSIZE) ?bs)) i = Ret s3" "brelse s3 i = Ret s4" "file_inv d s4 ip"
          "file_frame s ip 6 s4" "\<forall>y<MAXFILE * BSIZE. fbyte s4 ip y = put_bytes (fbyte s ip) ?x ?bs y"
          "\<forall>j<MAXFILE. faddr s ip j \<noteq> 0 \<longrightarrow> faddr s4 ip j = faddr s ip j" "faddr s4 ip (?x div BSIZE) \<noteq> 0"
          and u2: "same_user s s2"
        using out by auto
      have le: "unat ?m \<le> length bs" using m(2) less.prems(4) by simp
      have feed: "either_copyin s2 D (unat ?m) = (0, ?bs)"
        using feeds_copyin [OF _ le] less.prems(6) feeds_user [OF u2] by blast
      have feed4: "feeds s4 (src_add D ?m) ?rs"
        using feeds_add [OF less.prems(6) le] feeds_user [OF frest_user, of s4 s] s4(6) by (simp add: file_frame_def)
      have step: "writei_loop s ip D off n tot = writei_loop s4 ip (src_add D ?m) (off + ?m) n (tot + ?m)"
        using True a1 s1 s4(1,3,4) feed
        by (simp add: writei_loop.simps [of s] off_block Let_def)
      have rest: "unat n - unat (tot + ?m) < unat n - unat tot" "unat (off + ?m) + (unat n - unat (tot + ?m)) = ?x + (unat n - unat tot)"
        using m(1,2,4,5) by linarith+
      have len: "length ?rs = unat n - unat (tot + ?m)" using less.prems(4) m(4) by simp
      have "\<exists>w s'. w \<le> length ?rs \<and> writei_loop s4 ip (src_add D ?m) (off + ?m) n (tot + ?m) = Ret (tot + ?m + of_nat w, off + ?m + of_nat w, s') \<and>
        file_inv d s' ip \<and> file_frame s4 ip (6 * nblk (unat (off + ?m)) (length ?rs)) s' \<and> (w < length ?rs \<longrightarrow> fs_full s') \<and>
        (\<forall>y<MAXFILE * BSIZE. fbyte s' ip y = put_bytes (fbyte s4 ip) (unat (off + ?m)) (take w ?rs) y) \<and>
        (\<forall>j<MAXFILE. faddr s4 ip j \<noteq> 0 \<longrightarrow> faddr s' ip j = faddr s4 ip j) \<and>
        (\<forall>y. unat (off + ?m) \<le> y \<and> y < unat (off + ?m) + w \<longrightarrow> faddr s' ip (y div BSIZE) \<noteq> 0)"
      proof (rule less.hyps [OF rest(1) s4(5) m(6) _ len])
        show "unat (off + ?m) + (unat n - unat (tot + ?m)) \<le> MAXFILE * BSIZE" using less.prems(3) by (simp add: rest(2))
        have "log_cap s4 = log_cap s" using s4(6) by (intro frestD) (simp add: file_frame_def)
        then show "card (logged s4) + 6 * nblk (unat (off + ?m)) (length ?rs) \<le> log_cap s4"
          using s4(6) less.prems(5) nb m(5) by (simp add: file_frame_def)
      qed (rule feed4)
      then obtain w s' where w: "w \<le> length ?rs" "writei_loop s4 ip (src_add D ?m) (off + ?m) n (tot + ?m) = Ret (tot + ?m + of_nat w, off + ?m + of_nat w, s')"
          "file_inv d s' ip" "file_frame s4 ip (6 * nblk (unat (off + ?m)) (length ?rs)) s'" "w < length ?rs \<Longrightarrow> fs_full s'"
          "\<And>y. y < MAXFILE * BSIZE \<Longrightarrow> fbyte s' ip y = put_bytes (fbyte s4 ip) (unat (off + ?m)) (take w ?rs) y"
          "\<And>j. j < MAXFILE \<Longrightarrow> faddr s4 ip j \<noteq> 0 \<Longrightarrow> faddr s' ip j = faddr s4 ip j"
          "\<And>y. unat (off + ?m) \<le> y \<Longrightarrow> y < unat (off + ?m) + w \<Longrightarrow> faddr s' ip (y div BSIZE) \<noteq> 0" by blast
      let ?w = "unat ?m + w"
      have "file_frame s ip ?c s'"
        by (rule file_frame_weaken [OF file_frame_trans [OF s4(6) w(4)]]) (use nb m(5) in simp)
      moreover have "fbyte s' ip y = put_bytes (fbyte s ip) ?x (take ?w bs) y" if "y < MAXFILE * BSIZE" for y
      proof -
        have "fbyte s' ip y = put_bytes (fbyte s4 ip) (?x + length ?bs) (take w ?rs) y" unfolding lm m(5) [symmetric] by (rule w(6) [OF that])
        also have "\<dots> = put_bytes (put_bytes (fbyte s ip) ?x ?bs) (?x + length ?bs) (take w ?rs) y"
          by (rule put_bytes_cong) (use s4(7) that in blast)
        finally show ?thesis by (simp only: put_bytes_append take_add)
      qed
      moreover have "faddr s' ip (y div BSIZE) \<noteq> 0" if "?x \<le> y" "y < ?x + ?w" for y
      proof (cases "y < ?x + unat ?m")
        case True
        then show ?thesis using chunk_in_block(1) [OF m(3) that(1)] w(7) [OF k] s4(9) by simp
      next
        case False
        then show ?thesis using w(8) [of y] that(2) by (simp add: m(5))
      qed
      moreover have "faddr s' ip j = faddr s ip j" if "j < MAXFILE" "faddr s ip j \<noteq> 0" for j
        using s4(8) w(7) [OF that(1)] that by simp
      moreover have "?w \<le> length bs" "?w < length bs \<longrightarrow> fs_full s'" using w(1,5) m(2) less.prems(4) by auto
      moreover have "writei_loop s ip D off n tot = Ret (tot + of_nat ?w, off + of_nat ?w, s')"
        using w(2) by (simp add: step add.assoc)
      ultimately show ?thesis using w(3) by (intro exI [of _ ?w] exI [of _ s']) blast
    qed
  qed
qed


section \<open>The inode on the disk\<close>

abbreviation iblock :: "'z kfs_scheme \<Rightarrow> nat \<Rightarrow> u32" where
  "iblock s ip \<equiv> IBLOCK (i_inum (inodes s ip)) (sb s)"

lemma iupdate_run:
  fixes s :: "'z kfs_scheme"
  assumes inv: "file_inv d s ip" and room: "card (logged s) < log_cap s"
  shows "\<exists>s'. iupdate s ip = Ret s' \<and> file_inv d s' ip \<and> inodes s' = inodes s \<and> frest s' = frest s \<and> logged s' = insert (iblock s ip) (logged s) \<and>
    view s' = (view s)(iblock s ip := st_dinode (view s (iblock s ip)) (dinode_off (i_inum (inodes s ip))) (inodes s ip)) \<and>
    faddr s' ip = faddr s ip \<and> (\<forall>y<MAXFILE * BSIZE. fbyte s' ip y = fbyte s ip y) \<and> (\<forall>m<fs_size s. used s' m = used s m)"
proof -
  let ?B = "iblock s ip" and ?x = "st_dinode (view s (iblock s ip)) (dinode_off (i_inum (inodes s ip))) (inodes s ip)"
  note d = file_invD [OF inv]
  have B: "?B \<notin> log_area s" "?B \<notin> bm_blocks (sb s)" "?B \<in> forb s (inodes s ip)" using inv by (auto simp: file_inv_def forb_def)
  have FB: "faddr s ip j = 0 \<or> faddr s ip j \<noteq> ?B" if "j \<le> MAXFILE" for j using addr_ok(1) [OF inv that] B(3) by auto
  obtain i s1 where r: "bread s d ?B = Ret (i, s1)" "bdata s1 i = view s ?B" "inodes s1 = inodes s" and u: "\<forall>x. \<exists>s2 s'. log_write (set_bdata s1 i x) i = Ret s2 \<and>
      brelse s2 i = Ret s' \<and> fs_step d {} s ((view s)(?B := x)) (insert ?B (logged s)) s'"
    using fs_update [OF d(1), of ?B] d(5) B(1) room by auto
  from u obtain s2 s' where s': "log_write (set_bdata s1 i ?x) i = Ret s2" "brelse s2 i = Ret s'"
    "fs_step d {} s ((view s)(?B := ?x)) (insert ?B (logged s)) s'" by blast
  note e = fs_stepD [OF s'(3)]
  have fr: "frest s' = frest s" using e by (intro frest_lrest)
  have v: "view s' = (view s)(?B := ?x)" by (simp add: e)
  have F: "faddr s' ip = faddr s ip"
  proof (cases "i_addrs (inodes s ip) NDIRECT = 0")
    case True
    then show ?thesis by (auto simp: fblk_def e)
  next
    case False
    then have "i_addrs (inodes s ip) NDIRECT \<noteq> ?B" using FB [OF le_refl] NDIRECT_MAXFILE(1) by (simp add: fblk_def)
    then show ?thesis unfolding v e(9) by (intro fblk_cong) simp
  qed
  have "?B \<noteq> BBLOCK (of_nat m) (sb s)" if "m < fs_size s" for m using B(2) that by (auto simp: bm_blocks_def)
  then have us: "used s' m = used s m" if "m < fs_size s" for m unfolding v e(8) using that by (intro block_used_other)
  have "addrs_ok (faddr s' ip) (used s') (forb s (inodes s ip)) (fs_size s)" using d(6) us by (auto simp: F addrs_ok_def)
  then have "file_inv d s' ip" by (intro file_inv_step [OF inv e(1) fr]) (use d us in \<open>auto simp: e\<close>)
  moreover have "fbyte s' ip y = fbyte s ip y" if "y < MAXFILE * BSIZE" for y
  proof -
    have "y div BSIZE \<le> MAXFILE" using less_mult_imp_div_less [OF that] by simp
    then show ?thesis using FB [of "y div BSIZE"] unfolding fbyte_def F unfolding Let_def v by auto
  qed
  moreover have "iupdate s ip = Ret s'" using r s'(1,2) by (simp add: iupdate_def d(3) Let_def)
  ultimately show ?thesis using F v us fr e(3,9) by auto
qed


section \<open>A file as a list of bytes\<close>

definition fsize :: "'z kfs_scheme \<Rightarrow> nat \<Rightarrow> nat" where
  "fsize s ip = unat (i_size (inodes s ip))"

definition fdata :: "'z kfs_scheme \<Rightarrow> nat \<Rightarrow> u8 list" where
  "fdata s ip = map (fbyte s ip) [0..<fsize s ip]"

text \<open>A file without holes, on a consistent bitmap, inside a transaction.\<close>

definition file_ok :: "u32 \<Rightarrow> 'z kfs_scheme \<Rightarrow> nat \<Rightarrow> bool" where
  "file_ok d s ip \<longleftrightarrow> file_inv d s ip \<and> fsize s ip \<le> MAXFILE * BSIZE \<and> (\<forall>y<fsize s ip. faddr s ip (y div BSIZE) \<noteq> 0)"

definition overwrite :: "u8 list \<Rightarrow> nat \<Rightarrow> u8 list \<Rightarrow> u8 list" where
  "overwrite xs off bs = take off xs @ bs @ drop (off + length bs) xs"

lemma fdata_overwrite:
  assumes "off \<le> m" "\<And>y. y < max m (off + length bs) \<Longrightarrow> g y = put_bytes f off bs y"
  shows "map g [0..<max m (off + length bs)] = overwrite (map f [0..<m]) off bs"
proof (rule nth_equalityI)
  show "length (map g [0..<max m (off + length bs)]) = length (overwrite (map f [0..<m]) off bs)"
    using assms(1) by (simp add: overwrite_def)
  fix y assume "y < length (map g [0..<max m (off + length bs)])"
  then have y: "y < max m (off + length bs)" by simp
  then show "map g [0..<max m (off + length bs)] ! y = overwrite (map f [0..<m]) off bs ! y"
    using assms(1) assms(2) [OF y] by (auto simp: overwrite_def put_bytes_def nth_append)
qed

lemma file_inv_size: "file_inv d (upd_inode s ip (\<lambda>i. i\<lparr>i_size := z\<rparr>)) ip = file_inv d s ip"
proof -
  have F: "fblk V (I\<lparr>i_size := z\<rparr>) = fblk V I" for V I by (rule ext) (simp add: fblk_def)
  show ?thesis by (simp add: file_inv_def upd_inode_def F bitmap_ok_def forb_def)
qed

lemma file_data_size:
  "faddr (upd_inode s ip (\<lambda>i. i\<lparr>i_size := z\<rparr>)) ip = faddr s ip" "fbyte (upd_inode s ip (\<lambda>i. i\<lparr>i_size := z\<rparr>)) ip = fbyte s ip"
proof -
  have F: "fblk V (I\<lparr>i_size := z\<rparr>) = fblk V I" for V I by (rule ext) (simp add: fblk_def)
  show "faddr (upd_inode s ip (\<lambda>i. i\<lparr>i_size := z\<rparr>)) ip = faddr s ip" by (simp add: upd_inode_def F)
  then show "fbyte (upd_inode s ip (\<lambda>i. i\<lparr>i_size := z\<rparr>)) ip = fbyte s ip" by (intro ext) (simp add: fbyte_def Let_def upd_inode_def F)
qed

lemma writei_run:
  fixes s :: "'z kfs_scheme"
  assumes ok: "file_ok d s ip" and off: "off \<le> i_size (inodes s ip)" "unat off + unat n \<le> MAXFILE * BSIZE" and len: "length bs = unat n"
    and room: "card (logged s) + 6 * nblk (unat off) (unat n) + 1 \<le> log_cap s" and src: "feeds s D bs"
  shows "\<exists>w s'. w \<le> length bs \<and> writei s ip D off n = Ret (of_nat w, s') \<and> file_ok d s' ip \<and>
    fdata s' ip = overwrite (fdata s ip) (unat off) (take w bs) \<and> (w < length bs \<longrightarrow> fs_full s') \<and> frest s' = frest s \<and>
    (\<exists>A z. inodes s' = (inodes s)(ip := (inodes s ip)\<lparr>i_addrs := A, i_size := z\<rparr>)) \<and>
    (\<forall>b. b \<notin> bm_blocks (sb s) \<and> \<not> fresh s b \<and> b \<notin> faddr s ip ` {..MAXFILE} \<and> b \<noteq> iblock s ip \<longrightarrow> view s' b = view s b)"
proof -
  have inv: "file_inv d s ip" using ok by (simp add: file_ok_def)
  have small: "unat off + unat n < 2 ^ 32" using off(2) by (simp add: MAXFILE_def NDIRECT_def NINDIRECT_def BSIZE_def)
  then have on: "unat (off + n) = unat off + unat n" by (simp add: unat_word_ariths)
  have pre: "0 \<le> n" "unat off + (unat n - unat (0 :: u32)) \<le> MAXFILE * BSIZE" "length bs = unat n - unat (0 :: u32)"
    "card (logged s) + 6 * nblk (unat off) (length bs) \<le> log_cap s" using off(2) len room by simp_all
  obtain w s1 where w: "w \<le> length bs" "writei_loop s ip D off n 0 = Ret (of_nat w, off + of_nat w, s1)" "file_inv d s1 ip"
      "file_frame s ip (6 * nblk (unat off) (length bs)) s1" "w < length bs \<Longrightarrow> fs_full s1"
      "\<And>y. y < MAXFILE * BSIZE \<Longrightarrow> fbyte s1 ip y = put_bytes (fbyte s ip) (unat off) (take w bs) y"
      "\<And>j. j < MAXFILE \<Longrightarrow> faddr s ip j \<noteq> 0 \<Longrightarrow> faddr s1 ip j = faddr s ip j"
      "\<And>y. unat off \<le> y \<Longrightarrow> y < unat off + w \<Longrightarrow> faddr s1 ip (y div BSIZE) \<noteq> 0"
    using writei_loop_run [OF inv pre src, unfolded add_0] by blast
  obtain A where A: "inodes s1 = (inodes s)(ip := (inodes s ip)\<lparr>i_addrs := A\<rparr>)" and fr: "frest s1 = frest s" using w(4) by (auto simp: file_frame_def)
  note e1 = frestD [OF fr]
  have offw: "unat (off + of_nat w) = unat off + w" using w(1) len small by (simp add: unat_word_ariths unat_of_nat)
  define z where "z = (if off + of_nat w > i_size (inodes s ip) then off + of_nat w else i_size (inodes s ip))"
  have z: "unat z = max (fsize s ip) (unat off + w)" by (auto simp: z_def fsize_def offw word_less_nat_alt)
  let ?s2 = "upd_inode s1 ip (\<lambda>i. i\<lparr>i_size := z\<rparr>)"
  have s2: "(if off + of_nat w > i_size (inodes s1 ip) then upd_inode s1 ip (\<lambda>i. i\<lparr>i_size := off + of_nat w\<rparr>) else s1) = ?s2"
  proof -
    have "s1\<lparr>inodes := (inodes s1)(ip := (inodes s1 ip)\<lparr>i_size := i_size (inodes s1 ip)\<rparr>)\<rparr> = s1" by simp
    then show ?thesis by (simp add: z_def A upd_inode_def)
  qed
  have fr2: "frest ?s2 = frest s" "iblock ?s2 ip = iblock s ip" "logged ?s2 = logged s1" "view ?s2 = view s1" "sb ?s2 = sb s"
    by (simp_all add: upd_inode_def fr A e1)
  have inv2: "file_inv d ?s2 ip" using w(3) by (simp add: file_inv_size)
  have room2: "card (logged ?s2) < log_cap ?s2"
    using w(4) room len frestD(10) [OF fr2(1)] by (simp add: fr2 file_frame_def)
  obtain s' where s': "iupdate ?s2 ip = Ret s'" "file_inv d s' ip" "inodes s' = inodes ?s2" "frest s' = frest ?s2"
      "view s' = (view ?s2)(iblock ?s2 ip := st_dinode (view ?s2 (iblock ?s2 ip)) (dinode_off (i_inum (inodes ?s2 ip))) (inodes ?s2 ip))"
      "faddr s' ip = faddr ?s2 ip" "\<And>y. y < MAXFILE * BSIZE \<Longrightarrow> fbyte s' ip y = fbyte ?s2 ip y" "\<And>m. m < fs_size ?s2 \<Longrightarrow> used s' m = used ?s2 m"
    using iupdate_run [OF inv2 room2] by blast
  have c: "\<not> off > i_size (inodes s ip)" "\<not> off + n < off" "\<not> unat (off + n) > MAXFILE * BSIZE"
    using off on by (simp_all add: word_less_nat_alt word_le_nat_alt)
  have run: "writei s ip D off n = Ret (of_nat w, s')"
    unfolding writei_def using c s'(1) by (simp add: w(2) s2)
  have sz: "fsize s' ip = max (fsize s ip) (unat off + w)" using z by (simp add: fsize_def s'(3) upd_inode_def)
  have fit: "fsize s' ip \<le> MAXFILE * BSIZE" using ok off(2) w(1) len by (simp add: sz file_ok_def)
  have lw: "length (take w bs) = w" using w(1) by simp
  have "map (fbyte s' ip) [0..<max (fsize s ip) (unat off + length (take w bs))] = overwrite (map (fbyte s ip) [0..<fsize s ip]) (unat off) (take w bs)"
  proof (rule fdata_overwrite)
    show "unat off \<le> fsize s ip" using off(1) by (simp add: fsize_def word_le_nat_alt)
    show "fbyte s' ip y = put_bytes (fbyte s ip) (unat off) (take w bs) y" if "y < max (fsize s ip) (unat off + length (take w bs))" for y
    proof -
      have "y < MAXFILE * BSIZE" using that fit by (simp only: lw sz)
      then show ?thesis using s'(7) w(6) by (simp add: file_data_size)
    qed
  qed
  then have "fdata s' ip = overwrite (fdata s ip) (unat off) (take w bs)" unfolding fdata_def sz by (simp only: lw)
  moreover have "faddr s' ip (y div BSIZE) \<noteq> 0" if "y < fsize s' ip" for y
  proof (cases "unat off \<le> y \<and> y < unat off + w")
    case True
    then show ?thesis using w(8) unfolding s'(6) file_data_size by blast
  next
    case False
    then have "y < fsize s ip" using that [unfolded sz] off(1) [unfolded word_le_nat_alt, folded fsize_def] by auto
    moreover have "y div BSIZE < MAXFILE" using that fit by (intro less_mult_imp_div_less) simp
    ultimately show ?thesis using w(7) ok unfolding s'(6) file_data_size file_ok_def by simp
  qed
  then have "file_ok d s' ip" using s'(2) fit by (simp add: file_ok_def)
  moreover have "fs_full s'" if "w < length bs"
    using w(5) [OF that] s'(8) frestD(9) [OF s'(4)] unfolding fs_full_def by (simp add: fr2 e1)
  moreover have "view s' b = view s b" if "b \<notin> bm_blocks (sb s)" "\<not> fresh s b" "b \<notin> faddr s ip ` {..MAXFILE}" "b \<noteq> iblock s ip" for b
    using w(4) that unfolding s'(5) fr2(2,4) by (simp add: file_frame_def)
  moreover have "inodes s' = (inodes s)(ip := (inodes s ip)\<lparr>i_addrs := A, i_size := z\<rparr>)" by (simp add: s'(3) upd_inode_def A)
  ultimately show ?thesis using run w(1) s'(4) fr2(1) by (intro exI [of _ w] exI [of _ s']) auto
qed


section \<open>Reading a file\<close>

text \<open>The bytes that a read of \<open>n\<close> bytes at \<open>off\<close> delivers.\<close>

abbreviation fpart :: "'z kfs_scheme \<Rightarrow> nat \<Rightarrow> u32 \<Rightarrow> u32 \<Rightarrow> u8 list" where
  "fpart s ip off n \<equiv> take (unat n) (drop (unat off) (fdata s ip))"

lemma readi_enter:
  fixes s :: "'z kfs_scheme"
  assumes ok: "file_ok d s ip" and n: "\<not> off + n < off"
  shows "fpart s ip off n = [] \<and> (\<forall>D. readi s ip D off n = Ret (0, [], s)) \<or>
    (\<exists>n'. in_file s ip (unat off) (unat off + (unat n' - unat (0 :: u32))) \<and> n' = of_nat (length (fpart s ip off n)) \<and>
      map (fbyte s ip) [unat off..<unat off + (unat n' - unat (0 :: u32))] = fpart s ip off n \<and>
      (\<forall>D. readi s ip D off n = readi_loop s ip D off n' 0 []))"
proof -
  let ?z = "i_size (inodes s ip)"
  show ?thesis
  proof (cases "off > ?z")
    case True
    then show ?thesis by (simp add: fdata_def fsize_def word_less_nat_alt readi_def)
  next
    case False
    then have oz: "unat off \<le> unat ?z" by (simp add: word_less_nat_alt)
    have on: "unat (off + n) = unat off + unat n"
      using n unsigned_less [of off, where ?'a = nat] unsigned_less [of n, where ?'a = nat]
      by (auto simp: word_less_nat_alt unat_word_ariths mod_if split: if_splits)
    define n' where "n' = (if off + n > ?z then ?z - off else n)"
    have n': "unat n' = min (unat n) (unat ?z - unat off)"
      using oz by (auto simp: n'_def on word_less_nat_alt unat_sub word_le_nat_alt)
    then have "unat off + unat n' \<le> fsize s ip" using oz by (simp add: fsize_def)
    then have "in_file s ip (unat off) (unat off + unat n')" using ok by (auto simp: file_ok_def in_file_def)
    moreover have b: "map (fbyte s ip) [unat off..<unat off + unat n'] = fpart s ip off n"
      by (rule nth_equalityI) (auto simp: fdata_def fsize_def n')
    moreover have "n' = of_nat (length (fpart s ip off n))" unfolding b [symmetric] by simp
    moreover have "readi s ip D off n = readi_loop s ip D off n' 0 []" for D
      using False n by (simp add: readi_def Let_def flip: n'_def)
    ultimately show ?thesis by (intro disjI2 exI [of _ n']) simp
  qed
qed

lemma file_ok_step:
  fixes s :: "'z kfs_scheme"
  assumes "file_ok d s ip" "file_inv d s' ip" "fs_step d {} (s\<lparr>pmem := \<mu>\<rparr>) (view s) (logged s) s'"
  shows "file_ok d s' ip" "fdata s' ip = fdata s ip" "view s' = view s"
proof -
  note e = fs_stepD [OF assms(3)]
  have "view s' = view (s\<lparr>pmem := \<mu>\<rparr>)" "inodes s' = inodes (s\<lparr>pmem := \<mu>\<rparr>)" by (simp_all add: e)
  from fbyte_cong [OF this, of ip] have "fbyte s' ip = fbyte s ip" by simp
  then show "fdata s' ip = fdata s ip" "file_ok d s' ip" "view s' = view s"
    using assms(1,2) by (simp_all add: fdata_def fsize_def file_ok_def e)
qed

lemma readi_run:
  fixes s :: "'z kfs_scheme"
  assumes ok: "file_ok d s ip" and n: "\<not> off + n < off"
  shows "\<exists>s'. readi s ip (ObjDst 0) off n = Ret (of_nat (length (fpart s ip off n)), fpart s ip off n, s') \<and>
    file_ok d s' ip \<and> fdata s' ip = fdata s ip \<and> fs_step d {} s (view s) (logged s) s'"
  using readi_enter [OF assms]
proof (elim disjE exE conjE)
  fix n' assume a: "in_file s ip (unat off) (unat off + (unat n' - unat (0 :: u32)))" "n' = of_nat (length (fpart s ip off n))"
    "map (fbyte s ip) [unat off..<unat off + (unat n' - unat (0 :: u32))] = fpart s ip off n" "\<forall>D. readi s ip D off n = readi_loop s ip D off n' 0 []"
  have inv: "file_inv d s ip" using ok by (simp add: file_ok_def)
  obtain s' where r: "readi_loop s ip (ObjDst 0) off n' 0 [] = Ret (n', fpart s ip off n, s')" "file_inv d s' ip" "fs_step d {} s (view s) (logged s) s'"
    using readi_loop_obj [OF inv word_zero_le a(1), of "[]"] unfolding a(3) by auto
  then show ?thesis using file_ok_step [OF ok r(2), of "pmem s"] a(2,4) by auto
qed (use ok fs_step_refl in \<open>auto simp: file_ok_def file_inv_def\<close>)

lemma readi_kern:
  fixes s :: "'z kfs_scheme"
  assumes ok: "file_ok d s ip" and n: "\<not> off + n < off"
  shows "\<exists>s'. readi s ip (KernDst pa) off n = Ret (of_nat (length (fpart s ip off n)), [], s') \<and>
    file_ok d s' ip \<and> fdata s' ip = fdata s ip \<and> view s' = view s \<and> pmem s' = store_bytes (pmem s) pa (fpart s ip off n)"
  using readi_enter [OF assms]
proof (elim disjE exE conjE)
  fix n' assume a: "in_file s ip (unat off) (unat off + (unat n' - unat (0 :: u32)))" "n' = of_nat (length (fpart s ip off n))"
    "map (fbyte s ip) [unat off..<unat off + (unat n' - unat (0 :: u32))] = fpart s ip off n" "\<forall>D. readi s ip D off n = readi_loop s ip D off n' 0 []"
  have inv: "file_inv d s ip" using ok by (simp add: file_ok_def)
  obtain s' where r: "readi_loop s ip (KernDst pa) off n' 0 [] = Ret (n', [], s')" "file_inv d s' ip"
      "fs_step d {} (s\<lparr>pmem := pmem s'\<rparr>) (view s) (logged s) s'" "pmem s' = store_bytes (pmem s) pa (fpart s ip off n)"
    using readi_loop_kern [OF inv word_zero_le a(1), of pa "[]"] unfolding a(3) by blast
  then show ?thesis using file_ok_step [OF ok r(2,3)] a(2,4) by auto
qed (use ok in \<open>auto simp: store_bytes_def\<close>)

lemma readi_user:
  fixes s :: "'z kfs_scheme"
  assumes ok: "file_ok d s ip" and n: "\<not> off + n < off" and u: "pt = p_pagetable (myproc s)" "uspace s pt q X ps"
  shows "\<exists>k s'. k \<le> length (fpart s ip off n) \<and>
    readi s ip (UserDst a) off n = Ret (if k = length (fpart s ip off n) then of_nat (length (fpart s ip off n)) else -1, [], s') \<and>
    file_ok d s' ip \<and> fdata s' ip = fdata s ip \<and> view s' = view s \<and> uspace s' pt q X ps \<and> (\<forall>v. pte_of s' pt v = pte_of s pt v) \<and>
    (k < length (fpart s ip off n) \<longrightarrow> \<not> uwritable s pt (a + of_nat k)) \<and> wrote s pt a (take k (fpart s ip off n)) (s\<lparr>pmem := pmem s'\<rparr>)"
  using readi_enter [OF ok n]
proof (elim disjE exE conjE)
  fix n' assume a: "in_file s ip (unat off) (unat off + (unat n' - unat (0 :: u32)))" "n' = of_nat (length (fpart s ip off n))"
    "map (fbyte s ip) [unat off..<unat off + (unat n' - unat (0 :: u32))] = fpart s ip off n" "\<forall>D. readi s ip D off n = readi_loop s ip D off n' 0 []"
  have inv: "file_inv d s ip" using ok by (simp add: file_ok_def)
  obtain k s' where r: "k \<le> length (fpart s ip off n)" "readi_loop s ip (UserDst a) off n' 0 [] = Ret (if k = length (fpart s ip off n) then n' else -1, [], s')"
      "file_inv d s' ip" "fs_step d {} (s\<lparr>pmem := pmem s'\<rparr>) (view s) (logged s) s'" "uspace s' pt q X ps" "\<forall>v. pte_of s' pt v = pte_of s pt v"
      "k < length (fpart s ip off n) \<longrightarrow> \<not> uwritable s pt (a + of_nat k)" "wrote s pt a (take k (fpart s ip off n)) (s\<lparr>pmem := pmem s'\<rparr>)"
    using readi_loop_user [OF inv word_zero_le a(1) u, of a "[]"] unfolding a(3) Let_def by blast
  then show ?thesis using file_ok_step [OF ok r(3,4)] a(2,4) by (intro exI [of _ k] exI [of _ s']) auto
qed (use ok u in \<open>auto simp: wrote_def\<close>)

end
