(* ===== verification/InodeSpec.thy ===== *)
theory InodeSpec
  imports FileIO
begin

text \<open>
  Inodes on the disk: what \<open>iupdate\<close> stores is what \<open>ilock\<close> loads, and the records of different inodes do
  not overlap.
\<close>

section \<open>The record of an inode in its block\<close>

lemma dinode_fold_addr:
  "ld32 (fold (\<lambda>k d. st32 d (off + 12 + 4 * k) (A k)) [0..<m] x) (off + 12 + 4 * j) = (if j < m then A j else ld32 x (off + 12 + 4 * j))"
proof (induction m)
  case (Suc m)
  show ?case
  proof (cases "j = m")
    case False
    then have "off + 12 + 4 * m + 4 \<le> off + 12 + 4 * j \<or> off + 12 + 4 * j + 4 \<le> off + 12 + 4 * m" by linarith
    then show ?thesis using Suc False by (simp add: ld32_st32_other)
  qed simp
qed simp

lemma dinode_fold_head:
  "i + 2 \<le> off + 12 \<Longrightarrow> ld16 (fold (\<lambda>k d. st32 d (off + 12 + 4 * k) (A k)) [0..<m] x) i = ld16 x i"
  "i + 4 \<le> off + 12 \<Longrightarrow> ld32 (fold (\<lambda>k d. st32 d (off + 12 + 4 * k) (A k)) [0..<m] x) i = ld32 x i"
  by (induction m) (simp_all add: ld_st_other)

lemma dinode_fold_byte:
  "y < off + 12 \<or> off + 12 + 4 * m \<le> y \<Longrightarrow> fold (\<lambda>k d. st32 d (off + 12 + 4 * k) (A k)) [0..<m] x y = x y"
  by (induction m) (auto simp: st32_def)

lemma st_dinode_outside: "y < off \<or> off + 64 \<le> y \<Longrightarrow> st_dinode x off I y = x y"
proof -
  assume y: "y < off \<or> off + 64 \<le> y"
  then have "y < off + 12 \<or> off + 12 + 4 * (NDIRECT + 1) \<le> y" by (auto simp: NDIRECT_def)
  then show ?thesis using y unfolding st_dinode_def by (subst dinode_fold_byte) (auto simp: st16_def st32_def)
qed

text \<open>Loading what was stored gives the fields back.\<close>

lemma ld_st_dinode:
  "ld_dinode (st_dinode x off I) off J =
     J\<lparr>i_type := i_type I, i_major := i_major I, i_minor := i_minor I, i_nlink := i_nlink I, i_size := i_size I,
        i_addrs := (\<lambda>k. if k < NDIRECT + 1 then i_addrs I k else i_addrs J k)\<rparr>"
  unfolding ld_dinode_def st_dinode_def by (simp add: dinode_fold_head dinode_fold_addr ld_st_other cong: if_cong del: upt_Suc)

lemma ld_dinode_cong: "(\<And>y. off \<le> y \<Longrightarrow> y < off + 64 \<Longrightarrow> x y = x' y) \<Longrightarrow> ld_dinode x off J = ld_dinode x' off J"
proof -
  assume e: "\<And>y. off \<le> y \<Longrightarrow> y < off + 64 \<Longrightarrow> x y = x' y"
  have "ld16 x (off + k) = ld16 x' (off + k)" "ld32 x (off + k) = ld32 x' (off + k)" if "k \<le> 60" for k
    using that by (simp_all add: ld16_def ld32_def e)
  note this [of 0] this [of 2] this [of 4] this [of 6] this [of 8] this(2) [of "12 + 4 * k" for k]
  then show ?thesis unfolding ld_dinode_def by (simp add: NDIRECT_def add.assoc cong: if_cong)
qed

lemma ld_dinode_lock: "ld_dinode x off (J\<lparr>i_lock := l\<rparr>) = (ld_dinode x off J)\<lparr>i_lock := l\<rparr>"
  by (simp add: ld_dinode_def cong: if_cong)

text \<open>Different inodes have different records.\<close>

lemma dinode_place:
  assumes "IBLOCK i S = IBLOCK j S" "dinode_off i = dinode_off j"
  shows "i = j"
proof -
  have "i div of_nat IPB = j div of_nat IPB" using assms(1) by (simp add: IBLOCK_def)
  then have "unat i div IPB = unat j div IPB" by (simp add: word_unat_eq_iff unat_div IPB_def BSIZE_def)
  moreover have "unat i mod IPB = unat j mod IPB" using assms(2) by (simp add: dinode_off_def)
  ultimately have "unat i = unat j" by (metis div_mult_mod_eq)
  then show ?thesis by (simp add: word_unat_eq_iff)
qed

lemma st_dinode_apart:
  assumes "dinode_off i \<noteq> dinode_off j"
  shows "ld_dinode (st_dinode x (dinode_off i) I) (dinode_off j) J = ld_dinode x (dinode_off j) J"
proof (rule ld_dinode_cong)
  fix y assume "dinode_off j \<le> y" "y < dinode_off j + 64"
  moreover have "dinode_off i + 64 \<le> dinode_off j \<or> dinode_off j + 64 \<le> dinode_off i" using assms by (auto simp: dinode_off_def)
  ultimately show "st_dinode x (dinode_off i) I y = x y" by (intro st_dinode_outside) auto
qed

text \<open>The fields of an inode on the disk, as \<open>ilock\<close> would load them.\<close>

definition dinode :: "'z kfs_scheme \<Rightarrow> u32 \<Rightarrow> inode \<Rightarrow> inode" where
  "dinode s inum J = ld_dinode (view s (IBLOCK inum (sb s))) (dinode_off inum) J"

section \<open>ilock loads an inode\<close>

lemma ilock_run:
  fixes s :: "'z kfs_scheme"
  assumes inv: "log_inv d s {}" and J: "i_ref (inodes s ip) > 0" "\<not> sl_locked (i_lock (inodes s ip))" "\<not> i_valid (inodes s ip)" "i_dev (inodes s ip) = d"
    and ty: "i_type (dinode s (i_inum (inodes s ip)) (inodes s ip)) \<noteq> 0"
  shows "\<exists>s' l. ilock s ip = Ret s' \<and> log_inv d s' {} \<and> view s' = view s \<and> logged s' = logged s \<and> frest s' = frest s \<and>
    inodes s' = (inodes s)(ip := (dinode s (i_inum (inodes s ip)) (inodes s ip))\<lparr>i_lock := l, i_valid := True\<rparr>)"
proof -
  let ?J = "inodes s ip" and ?lk = "\<lparr>sl_locked = True, sl_pid = p_pid (myproc s)\<rparr>"
  let ?b = "IBLOCK (i_inum ?J) (sb s)"
  define s1 where "s1 = upd_inode s ip (\<lambda>i. i\<lparr>i_lock := ?lk\<rparr>)"
  have s1: "log_inv d s1 {}" "view s1 = view s" "logged s1 = logged s" "frest s1 = frest s" "sb s1 = sb s" "inodes s1 = (inodes s)(ip := ?J\<lparr>i_lock := ?lk\<rparr>)" "disk s1 = disk s"
    using inv by (simp_all add: s1_def upd_inode_def)
  have "card (logged s) < NBUF" using inv card_logged [OF inv] by (auto simp: log_inv_def NBUF_def)
  then obtain i s2 where r: "bread s1 d ?b = Ret (i, s2)" "bholds d s2 i ?b" "bdata s2 i = view s ?b" "fs_step d {?b} s1 (view s1) (logged s1) s2"
    using fs_hold [OF s1(1), of ?b] by (auto simp: s1)
  note e = fs_stepD [OF r(4)]
  define s3 where "s3 = upd_inode s2 ip (ld_dinode (bdata s2 i) (dinode_off (i_inum (inodes s2 ip))))"
  have s3: "log_inv d s3 {?b}" "bholds d s3 i ?b" "av (babs d s3) = view s" "logged s3 = logged s" "disk s3 = disk s" "frest s3 = frest s"
    using r e frest_lrest [OF e(7,4)] s1 by (simp_all add: s3_def upd_inode_def)
  have clean: "?b \<in> logged s3 \<or> av (babs d s3) ?b = disk s3 ?b"
    using lstore.clean_law [OF inv, of ?b] inv by (auto simp: s3 log_inv_def)
  obtain t where t: "brelse s3 i = Ret t" "log_inv d t ({?b} - {?b})" "av (babs d t) = view s" "logged t = logged s" "disk t = disk s3" "lrest t = lrest s3"
    using lstore.rl_law [OF s3(1,2) clean] s3 by auto
  let ?s' = "upd_inode t ip (\<lambda>i. i\<lparr>i_valid := True\<rparr>)"
  have it: "inodes t = (inodes s)(ip := (dinode s (i_inum ?J) ?J)\<lparr>i_lock := ?lk\<rparr>)"
    using lrest_kfs(2) [OF t(6)] by (simp add: s3_def upd_inode_def e s1 r(3) dinode_def ld_dinode_lock)
  have "log_dev t = log_dev s" using frestD(3) [of t s] frest_lrest [OF t(6,5)] s3(6) by simp
  moreover have "ilock s ip = Ret ?s'"
    using J ty it r(1) t(1) unfolding s1_def s3_def by (simp add: ilock_def acquiresleep_def Let_def upd_inode_def)
  ultimately show ?thesis using t frest_lrest [OF t(6,5)] s3(6) it inv
    by (intro exI [of _ ?s'] exI [of _ ?lk]) (auto simp: upd_inode_def log_inv_def)
qed

end
