(* ===== verification/Dir.thy ===== *)
theory Dir
  imports Fs
begin

text \<open>
  Directories and path names, the upper part of \<^verbatim>\<open>kernel/fs.c\<close>.  A path is the list of bytes before its
  NUL.  A name is an array of \<open>DIRSIZ\<close> bytes, NUL-padded or full.  A directory entry is the 16 bytes of
  \<open>struct dirent\<close>: the inode number and the name.
\<close>

section \<open>Directories\<close>

definition DESIZE :: u32 where "DESIZE = 16"

definition de_inum :: "u8 list \<Rightarrow> u16" where
  "de_inum de = ucast (de ! 0) OR push_bit 8 (ucast (de ! 1))"

definition de_name :: "u8 list \<Rightarrow> u8 list" where
  "de_name de = drop 2 de"

definition mk_dirent :: "u16 \<Rightarrow> u8 list \<Rightarrow> u8 list" where
  "mk_dirent inum nm = [ucast inum, ucast (drop_bit 8 inum)] @ nm"

definition namecmp :: "u8 list \<Rightarrow> u8 list \<Rightarrow> int" where
  "namecmp s t = strncmp_arr s t DIRSIZ"

lemma readi_wrap: "off + n < off \<Longrightarrow> readi s ip d off n = Ret (0, [], s)"
  by (simp add: readi_def)

lemma dirent_step_decreases:
  assumes "readi s dp d off DESIZE = Ret (r, de, s')" "r = DESIZE" "off < sz"
  shows "unat sz - unat (off + DESIZE) < unat sz - unat off"
proof -
  have "\<not> off + DESIZE < off"
    using assms readi_wrap [of off DESIZE s dp d] by (auto simp: DESIZE_def)
  moreover have "unat (off + DESIZE) = (unat off + 16) mod 2 ^ 32"
    by (simp add: unat_word_ariths DESIZE_def)
  moreover have "unat off < 2 ^ 32" using unsigned_less [of off, where ?'a = nat] by simp
  ultimately have "unat (off + DESIZE) = unat off + 16"
    by (auto simp: word_less_nat_alt mod_if split: if_splits)
  then show ?thesis using assms(3) by (simp add: word_less_nat_alt)
qed

text \<open>
  The loops over a directory.  They read \<open>dp->size\<close> in each iteration; the directory is locked and
  \<open>readi\<close> does not change its size, so the bound \<open>sz\<close> is its value when the loop starts.
\<close>

function dirlookup_loop ::
  "'z kfs_scheme \<Rightarrow> nat \<Rightarrow> u8 list \<Rightarrow> u32 \<Rightarrow> u32 \<Rightarrow> ((nat \<times> u32) option \<times> 'z kfs_scheme) res"
where
  "dirlookup_loop s dp nm off sz =
     (if off < sz then
        bindr (readi s dp (ObjDst 0) off DESIZE) (\<lambda>(r, de, s1).
        if r \<noteq> DESIZE then Panic ''dirlookup read''
        else if de_inum de = 0 then dirlookup_loop s1 dp nm (off + DESIZE) sz
        else if namecmp nm (de_name de) = 0 then
          bindr (iget s1 (i_dev (inodes s1 dp)) (ucast (de_inum de))) (\<lambda>(ip, s2). Ret (Some (ip, off), s2))
        else dirlookup_loop s1 dp nm (off + DESIZE) sz)
      else Ret (None, s))"
  by pat_completeness auto
termination
  by (relation "measure (\<lambda>(s, dp, nm, off, sz). unat sz - unat off)") (auto intro: dirent_step_decreases)

declare dirlookup_loop.simps [simp del]

definition dirlookup ::
  "'z kfs_scheme \<Rightarrow> nat \<Rightarrow> u8 list \<Rightarrow> ((nat \<times> u32) option \<times> 'z kfs_scheme) res"
where
  "dirlookup s dp nm =
     (if i_type (inodes s dp) \<noteq> T_DIR then Panic ''dirlookup not DIR''
      else dirlookup_loop s dp nm 0 (i_size (inodes s dp)))"

text \<open>The offset of the first empty entry, or the end of the directory.\<close>

function dirlink_loop :: "'z kfs_scheme \<Rightarrow> nat \<Rightarrow> u32 \<Rightarrow> u32 \<Rightarrow> (u32 \<times> 'z kfs_scheme) res" where
  "dirlink_loop s dp off sz =
     (if off < sz then
        bindr (readi s dp (ObjDst 0) off DESIZE) (\<lambda>(r, de, s1).
        if r \<noteq> DESIZE then Panic ''dirlink read''
        else if de_inum de = 0 then Ret (off, s1)
        else dirlink_loop s1 dp (off + DESIZE) sz)
      else Ret (off, s))"
  by pat_completeness auto
termination
  by (relation "measure (\<lambda>(s, dp, off, sz). unat sz - unat off)") (auto intro: dirent_step_decreases)

declare dirlink_loop.simps [simp del]

definition dirlink :: "'z kfs_scheme \<Rightarrow> nat \<Rightarrow> u8 list \<Rightarrow> u32 \<Rightarrow> (int \<times> 'z kfs_scheme) res" where
  "dirlink s dp nm inum =
     bindr (dirlookup s dp nm) (\<lambda>(found, s1).
     case found of
       Some (ip, _) \<Rightarrow> bindr (iput s1 ip) (\<lambda>s2. Ret (-1, s2))
     | None \<Rightarrow>
         bindr (dirlink_loop s1 dp 0 (i_size (inodes s1 dp))) (\<lambda>(off, s2).
         let de = mk_dirent (ucast inum) (strncpy_arr nm DIRSIZ) in
         bindr (writei s2 dp (ObjSrc de) off DESIZE) (\<lambda>(r, s3).
         Ret (if r \<noteq> DESIZE then -1 else 0, s3))))"

section \<open>Paths\<close>

definition SLASH :: u8 where "SLASH = 47"

definition skip_slashes :: "u8 list \<Rightarrow> u8 list" where
  "skip_slashes path = dropWhile (\<lambda>c. c = SLASH) path"

definition in_elem :: "u8 \<Rightarrow> bool" where "in_elem c \<longleftrightarrow> c \<noteq> SLASH \<and> c \<noteq> 0"

text \<open>\<open>skipelem(path, name)\<close>: the rest of the path and the new contents of the array \<open>name\<close>.\<close>

definition skipelem :: "u8 list \<Rightarrow> u8 list \<Rightarrow> (u8 list \<times> u8 list) option" where
  "skipelem path nm =
     (let path = skip_slashes path in
      if byte_at path = 0 then None
      else
        let elem = takeWhile in_elem path;
            rest = dropWhile in_elem path;
            nm' = (if length elem \<ge> DIRSIZ then take DIRSIZ elem @ drop DIRSIZ nm
                   else elem @ [0] @ drop (length elem + 1) nm) in
        Some (skip_slashes rest, nm'))"

lemma length_dropWhile_le': "length (dropWhile P xs) \<le> length xs"
  by (induction xs) auto

lemma skipelem_shorter: "skipelem path nm = Some (path', nm') \<Longrightarrow> length path' < length path"
proof -
  assume eq: "skipelem path nm = Some (path', nm')"
  define p1 where "p1 = skip_slashes path"
  have nz: "byte_at p1 \<noteq> 0" and p': "path' = skip_slashes (dropWhile in_elem p1)"
    using eq by (auto simp: skipelem_def Let_def p1_def split: if_splits)
  obtain c cs where p1: "p1 = c # cs" using nz by (cases p1) (auto simp: byte_at_def)
  have "c \<noteq> SLASH"
    using p1 hd_dropWhile [of "\<lambda>c. c = SLASH" path] by (auto simp: p1_def skip_slashes_def)
  then have "in_elem c" using nz p1 by (simp add: in_elem_def byte_at_def)
  then have "length path' \<le> length cs"
    using length_dropWhile_le' [of in_elem cs] length_dropWhile_le' [of "\<lambda>c. c = SLASH" "dropWhile in_elem cs"]
    by (simp add: p' p1 skip_slashes_def)
  also have "length cs < length path"
    using length_dropWhile_le' [of "\<lambda>c. c = SLASH" path] p1 by (simp add: p1_def skip_slashes_def)
  finally show ?thesis .
qed

function namex_loop ::
  "'z kfs_scheme \<Rightarrow> nat \<Rightarrow> u8 list \<Rightarrow> bool \<Rightarrow> u8 list \<Rightarrow> (nat option \<times> u8 list \<times> 'z kfs_scheme) res"
where
  "namex_loop s ip path nameiparent nm =
     (case skipelem path nm of
        None \<Rightarrow>
          if nameiparent then bindr (iput s ip) (\<lambda>s1. Ret (None, nm, s1)) else Ret (Some ip, nm, s)
      | Some (path, nm) \<Rightarrow>
          bindr (ilock s ip) (\<lambda>s1.
          if i_type (inodes s1 ip) \<noteq> T_DIR then bindr (iunlockput s1 ip) (\<lambda>s2. Ret (None, nm, s2))
          else if nameiparent \<and> byte_at path = 0 then bindr (iunlock s1 ip) (\<lambda>s2. Ret (Some ip, nm, s2))
          else
            bindr (dirlookup s1 ip nm) (\<lambda>(found, s2).
            case found of
              None \<Rightarrow> bindr (iunlockput s2 ip) (\<lambda>s3. Ret (None, nm, s3))
            | Some (nxt, _) \<Rightarrow>
                bindr (iunlockput s2 ip) (\<lambda>s3. namex_loop s3 nxt path nameiparent nm))))"
  by pat_completeness auto
termination
  by (relation "measure (\<lambda>(s, ip, path, np, nm). length path)") (auto dest: skipelem_shorter)

declare namex_loop.simps [simp del]

text \<open>A process without a current directory would make \<open>idup\<close> follow a null pointer: a kernel trap.\<close>

definition namex ::
  "'z kfs_scheme \<Rightarrow> u8 list \<Rightarrow> bool \<Rightarrow> u8 list \<Rightarrow> (nat option \<times> u8 list \<times> 'z kfs_scheme) res"
where
  "namex s path nameiparent nm =
     bindr (if byte_at path = SLASH then iget s ROOTDEV ROOTINO
            else case p_cwd (myproc s) of
                   None \<Rightarrow> Panic ''kerneltrap''
                 | Some cwd \<Rightarrow> Ret (cwd, idup s cwd)) (\<lambda>(ip, s1).
     namex_loop s1 ip path nameiparent nm)"

definition namei :: "'z kfs_scheme \<Rightarrow> u8 list \<Rightarrow> (nat option \<times> 'z kfs_scheme) res" where
  "namei s path =
     bindr (namex s path False (replicate DIRSIZ 0)) (\<lambda>(ip, _, s1). Ret (ip, s1))"

definition nameiparent ::
  "'z kfs_scheme \<Rightarrow> u8 list \<Rightarrow> u8 list \<Rightarrow> (nat option \<times> u8 list \<times> 'z kfs_scheme) res"
where
  "nameiparent s path nm = namex s path True nm"

end
