(* ===== verification/DirSpec.thy ===== *)
theory DirSpec
  imports FileIO Dir
begin

text \<open>
  Directories as finite maps from names to inode numbers, and path names as lists of elements.
\<close>

section \<open>Names\<close>

lemma strncmp_arr_eq_0: "strncmp_arr p q n = 0 \<longleftrightarrow> name_of (take n p) = name_of (take n q)"
proof (induction p q n rule: strncmp_arr.induct)
  case (2 p q n)
  then show ?case by (cases p; cases q) (auto simp: byte_at_def word_uint_eq_iff)
qed simp

lemma length_strncpy_arr [simp]: "length (strncpy_arr t n) = n"
  by (induction t n rule: strncpy_arr.induct) (simp_all add: Let_def)

lemma name_strncpy_arr: "name_of (strncpy_arr t n) = name_of (take n t)"
proof (induction t n rule: strncpy_arr.induct)
  case (2 t n)
  then show ?case by (cases t) (auto simp: byte_at_def Let_def)
qed simp

lemma de_inum_mk: "de_inum (mk_dirent i nm) = i"
  by (rule bit_word_eqI) (auto simp: de_inum_def mk_dirent_def bit_simps)

lemma de_name_mk: "de_name (mk_dirent i nm) = nm"
  by (simp add: de_name_def mk_dirent_def)

lemma namecmp_eq_0: "namecmp p q = 0 \<longleftrightarrow> name_of (take DIRSIZ p) = name_of (take DIRSIZ q)"
  by (simp add: namecmp_def strncmp_arr_eq_0)

section \<open>The entries of a directory\<close>

abbreviation dname :: "u8 list \<Rightarrow> u8 list" where "dname nm \<equiv> name_of (take DIRSIZ nm)"

definition dent_of :: "u8 list \<Rightarrow> u8 list \<times> u16" where
  "dent_of de = (dname (de_name de), de_inum de)"

definition dent_at :: "u8 list \<Rightarrow> nat \<Rightarrow> u8 list" where
  "dent_at xs k = take 16 (drop (16 * k) xs)"

definition dents_of :: "u8 list \<Rightarrow> (u8 list \<times> u16) list" where
  "dents_of xs = map (\<lambda>k. dent_of (dent_at xs k)) [0..<length xs div 16]"

definition entries :: "(u8 list \<times> u16) list \<Rightarrow> (u8 list \<times> u16) list" where
  "entries ds = filter (\<lambda>(n, i). i \<noteq> 0) ds"

text \<open>The directory as a map; an entry with inode number 0 is free.\<close>

definition dir_map :: "'z kfs_scheme \<Rightarrow> nat \<Rightarrow> u8 list \<rightharpoonup> u16" where
  "dir_map s dp = map_of (entries (dents_of (fdata s dp)))"

lemma map_of_entries:
  "map_of (entries (map g ks)) nm =
     (case find (\<lambda>k. snd (g k) \<noteq> 0 \<and> fst (g k) = nm) ks of None \<Rightarrow> None | Some k \<Rightarrow> Some (snd (g k)))"
  by (induction ks) (auto simp: entries_def split: prod.splits)

lemma map_of_entries_add:
  assumes "v \<noteq> 0" "map_of (entries ds) nm = None" "j < length ds \<Longrightarrow> snd (ds ! j) = 0" "j \<le> length ds"
  shows "map_of (entries (if j < length ds then ds[j := (nm, v)] else ds @ [(nm, v)])) = (map_of (entries ds))(nm \<mapsto> v)"
  using assms(2-4)
proof (induction ds arbitrary: j)
  case Nil
  then show ?case using assms(1) by (simp add: entries_def)
next
  case (Cons e ds)
  show ?case
  proof (cases j)
    case 0
    then show ?thesis using Cons.prems(2) assms(1) by (auto simp: entries_def split: prod.splits)
  next
    case (Suc k)
    obtain n i where e: "e = (n, i)" by (cases e)
    have "map_of (entries ds) nm = None" "i \<noteq> 0 \<Longrightarrow> n \<noteq> nm" using Cons.prems(1) by (auto simp: entries_def e split: if_splits)
    then show ?thesis using Cons.IH [of k] Cons.prems(2,3) Suc assms(1) by (auto simp: entries_def e fun_upd_twist split: if_splits)
  qed
qed

lemma length_overwrite: "off \<le> length xs \<Longrightarrow> length (overwrite xs off bs) = max (length xs) (off + length bs)"
  by (auto simp: overwrite_def)

lemma dent_at_overwrite:
  assumes "length de = 16" "16 * j \<le> length xs" "k \<noteq> j" "16 * k + 16 \<le> length xs"
  shows "dent_at (overwrite xs (16 * j) de) k = dent_at xs k"
proof (rule nth_equalityI)
  show "length (dent_at (overwrite xs (16 * j) de) k) = length (dent_at xs k)" using assms by (simp add: dent_at_def length_overwrite)
  fix i assume "i < length (dent_at (overwrite xs (16 * j) de) k)"
  then have i: "i < 16" by (simp add: dent_at_def)
  have "16 * k + i < 16 * j \<or> 16 * j + 16 \<le> 16 * k + i" using assms(3) i by linarith
  then show "dent_at (overwrite xs (16 * j) de) k ! i = dent_at xs k ! i"
    using assms i by (auto simp: dent_at_def overwrite_def nth_append)
qed

lemma dents_of_overwrite:
  assumes "length de = 16" "16 dvd length xs" "j \<le> length xs div 16"
  shows "dents_of (overwrite xs (16 * j) de) =
    (if j < length (dents_of xs) then (dents_of xs)[j := dent_of de] else dents_of xs @ [dent_of de])"
proof -
  obtain n where n: "length xs = 16 * n" using assms(2) by (auto elim: dvdE)
  then have j: "j \<le> n" using assms(3) by simp
  have l: "length (overwrite xs (16 * j) de) div 16 = (if j < n then n else Suc n)" using j assms(1) n by (auto simp: overwrite_def)
  have at_j: "dent_at (overwrite xs (16 * j) de) j = de" using j n assms(1) by (simp add: dent_at_def overwrite_def)
  have other: "dent_at (overwrite xs (16 * j) de) k = dent_at xs k" if "k < n" "k \<noteq> j" for k
    using dent_at_overwrite [OF assms(1) _ that(2)] that(1) j n by simp
  show ?thesis
    by (rule nth_equalityI) (use j at_j other n in \<open>auto simp: dents_of_def l nth_append nth_list_update le_less_Suc_eq simp del: upt_Suc\<close>)
qed

section \<open>Looking up and entering names\<close>

definition dir_ok :: "u32 \<Rightarrow> 'z kfs_scheme \<Rightarrow> nat \<Rightarrow> bool" where
  "dir_ok d s dp \<longleftrightarrow> file_ok d s dp \<and> i_type (inodes s dp) = T_DIR \<and> 16 dvd fsize s dp"

lemma dent_off:
  assumes "16 * n < 2 ^ 32" "k \<le> n"
  shows "unat (of_nat (16 * k) :: u32) = 16 * k" "of_nat (16 * k) < (of_nat (16 * n) :: u32) \<longleftrightarrow> k < n"
    "of_nat (16 * k) + DESIZE = (of_nat (16 * Suc k) :: u32)"
proof -
  have u: "unat (of_nat (16 * j) :: u32) = 16 * j" if "j \<le> n" for j
    using assms(1) that by (simp only: unat_of_nat len_of_finite_2_def) simp
  show "unat (of_nat (16 * k) :: u32) = 16 * k" using u [OF assms(2)] .
  show "of_nat (16 * k) < (of_nat (16 * n) :: u32) \<longleftrightarrow> k < n" using u [OF assms(2)] u [of n] by (simp only: word_less_nat_alt) simp
  show "of_nat (16 * k) + DESIZE = (of_nat (16 * Suc k) :: u32)" by (simp add: DESIZE_def)
qed

lemma dir_size:
  assumes "dir_ok d s dp"
  obtains n where "fsize s dp = 16 * n" "i_size (inodes s dp) = of_nat (16 * n)" "16 * n < 2 ^ 32" "length (dents_of (fdata s dp)) = n"
proof -
  obtain n where n: "fsize s dp = 16 * n" using assms by (auto simp: dir_ok_def elim: dvdE)
  moreover have "i_size (inodes s dp) = of_nat (16 * n)" using n by (simp add: fsize_def flip: n)
  moreover have "16 * n < 2 ^ 32" using n unsigned_less [of "i_size (inodes s dp)", where ?'a = nat] by (simp add: fsize_def)
  ultimately show ?thesis using that by (simp add: dents_of_def fdata_def)
qed

lemma dent_read:
  fixes s :: "'z kfs_scheme"
  assumes ok: "dir_ok d s dp" and k: "fsize s dp = 16 * n" "k < n"
  shows "\<exists>s'. readi s dp (ObjDst 0) (of_nat (16 * k)) DESIZE = Ret (DESIZE, dent_at (fdata s dp) k, s') \<and>
    dir_ok d s' dp \<and> fdata s' dp = fdata s dp \<and> fs_step d {} s (view s) (logged s) s'"
proof -
  have n: "16 * n < 2 ^ 32" using k(1) unsigned_less [of "i_size (inodes s dp)", where ?'a = nat] by (simp add: fsize_def)
  note o = dent_off [OF n]
  have w: "\<not> of_nat (16 * k) + DESIZE < (of_nat (16 * k) :: u32)" "unat DESIZE = 16"
    using o(1) [of k] o(1) [of "Suc k"] k(2) by (simp_all only: o(3) [of k] word_less_nat_alt) (simp_all add: DESIZE_def)
  have len: "length (dent_at (fdata s dp) k) = 16" using k by (simp add: dent_at_def fdata_def)
  obtain s' where r: "readi s dp (ObjDst 0) (of_nat (16 * k)) DESIZE = Ret (of_nat (length (dent_at (fdata s dp) k)), dent_at (fdata s dp) k, s')"
      "file_ok d s' dp" "fdata s' dp = fdata s dp" "fs_step d {} s (view s) (logged s) s'"
    using readi_run [OF _ w(1), of d s dp] ok k(2) unfolding dent_at_def dir_ok_def o(1) [OF less_imp_le [OF k(2)]] w(2) by blast
  moreover have "dir_ok d s' dp" using ok r(2) by (simp add: dir_ok_def fsize_def fs_stepD(9) [OF r(4)])
  ultimately show ?thesis by (auto simp: len DESIZE_def)
qed

lemma dirlookup_loop_run:
  fixes s :: "'z kfs_scheme"
  assumes "dir_ok d s dp" "fsize s dp = 16 * n" "k \<le> n"
  shows "\<exists>s'. dir_ok d s' dp \<and> fdata s' dp = fdata s dp \<and> fs_step d {} s (view s) (logged s) s' \<and>
    dirlookup_loop s dp nm (of_nat (16 * k)) (of_nat (16 * n)) =
      (case find (\<lambda>j. de_inum (dent_at (fdata s dp) j) \<noteq> 0 \<and> namecmp nm (de_name (dent_at (fdata s dp) j)) = 0) [k..<n] of
         None \<Rightarrow> Ret (None, s')
       | Some j \<Rightarrow> bindr (iget s' d (ucast (de_inum (dent_at (fdata s dp) j)))) (\<lambda>(ip, s2). Ret (Some (ip, of_nat (16 * j)), s2)))"
  using assms
proof (induction "n - k" arbitrary: s k)
  case 0
  have n: "16 * n < 2 ^ 32" using 0(3) unsigned_less [of "i_size (inodes s dp)", where ?'a = nat] by (simp add: fsize_def)
  have "log_inv d s {}" using 0(2) by (simp add: dir_ok_def file_ok_def file_inv_def)
  then show ?case using 0 dent_off(2) [OF n, of k] fs_step_refl [of d s "{}"] by (subst dirlookup_loop.simps) (simp add: exI [of _ s])
next
  case (Suc m)
  then have k: "k < n" by simp
  have n: "16 * n < 2 ^ 32" using Suc(4) unsigned_less [of "i_size (inodes s dp)", where ?'a = nat] by (simp add: fsize_def)
  obtain s1 where r: "readi s dp (ObjDst 0) (of_nat (16 * k)) DESIZE = Ret (DESIZE, dent_at (fdata s dp) k, s1)"
    "dir_ok d s1 dp" "fdata s1 dp = fdata s dp" "fs_step d {} s (view s) (logged s) s1" using dent_read [OF Suc(3,4) k] by blast
  note e = fs_stepD [OF r(4)]
  have dev: "i_dev (inodes s dp) = d" using Suc(3) by (simp add: dir_ok_def file_ok_def file_inv_def)
  have up: "[k..<n] = k # [Suc k..<n]" using k by (rule upt_conv_Cons)
  note step = dirlookup_loop.simps [of s dp nm "of_nat (16 * k)"] dent_off(2,3) [OF n, of k]
  show ?case
  proof (cases "de_inum (dent_at (fdata s dp) k) \<noteq> 0 \<and> namecmp nm (de_name (dent_at (fdata s dp) k)) = 0")
    case True
    then show ?thesis using r e(9) dev k by (intro exI [of _ s1]) (simp add: step up del: of_nat_mult)
  next
    case False
    have "dirlookup_loop s dp nm (of_nat (16 * k)) (of_nat (16 * n)) = dirlookup_loop s1 dp nm (of_nat (16 * Suc k)) (of_nat (16 * n))"
      using False r(1) k by (auto simp: step simp del: of_nat_mult mult_Suc_right)
    moreover have "fsize s1 dp = 16 * n" using Suc(4) by (simp add: fsize_def e(9))
    moreover have "m = n - Suc k" "Suc k \<le> n" using Suc(2) k by simp_all
    moreover have "find P [k..<n] = find P [Suc k..<n]" if "\<not> P k" for P using that by (simp add: up)
    ultimately show ?thesis using Suc(1) [of "Suc k" s1, OF _ r(2), unfolded r(3) fs_stepD(2,3) [OF r(4)] e(10)] False fs_step_trans [OF r(4)] by auto
  qed
qed

lemma find_dname: "dname nm = n \<Longrightarrow>
    (\<lambda>j. de_inum (dent_at xs j) \<noteq> 0 \<and> namecmp nm (de_name (dent_at xs j)) = 0) =
    (\<lambda>j. snd (dent_of (dent_at xs j)) \<noteq> 0 \<and> fst (dent_of (dent_at xs j)) = n)"
  by (auto simp: dent_of_def namecmp_eq_0)

text \<open>\<open>dirlookup\<close> is the map: it takes a reference to the inode that the map gives for the name.\<close>

lemma dirlookup_run:
  fixes s :: "'z kfs_scheme"
  assumes "dir_ok d s dp"
  shows "\<exists>s' off. dir_ok d s' dp \<and> fdata s' dp = fdata s dp \<and> fs_step d {} s (view s) (logged s) s' \<and>
    dirlookup s dp nm = (case dir_map s dp (dname nm) of
         None \<Rightarrow> Ret (None, s')
       | Some i \<Rightarrow> bindr (iget s' d (ucast i)) (\<lambda>(ip, s2). Ret (Some (ip, off), s2)))"
proof -
  obtain n where n: "fsize s dp = 16 * n" "i_size (inodes s dp) = of_nat (16 * n)" "length (dents_of (fdata s dp)) = n"
    using dir_size [OF assms] by blast
  let ?g = "\<lambda>j. dent_of (dent_at (fdata s dp) j)" and ?f = "find (\<lambda>j. snd (dent_of (dent_at (fdata s dp) j)) \<noteq> 0 \<and> fst (dent_of (dent_at (fdata s dp) j)) = dname nm) [0..<n]"
  have m: "dir_map s dp (dname nm) = (case ?f of None \<Rightarrow> None | Some j \<Rightarrow> Some (snd (?g j)))"
    using n(3) by (simp add: dir_map_def dents_of_def map_of_entries)
  show ?thesis using dirlookup_loop_run [OF assms n(1), of 0 nm] assms n(2)
    by (cases ?f) (auto simp: find_dname dirlookup_def dir_ok_def m dent_of_def)
qed

lemma dirlink_loop_run:
  fixes s :: "'z kfs_scheme"
  assumes "dir_ok d s dp" "fsize s dp = 16 * n" "k \<le> n"
  shows "\<exists>s' j. dir_ok d s' dp \<and> fdata s' dp = fdata s dp \<and> fs_step d {} s (view s) (logged s) s' \<and>
    j \<le> n \<and> (j < n \<longrightarrow> de_inum (dent_at (fdata s dp) j) = 0) \<and> dirlink_loop s dp (of_nat (16 * k)) (of_nat (16 * n)) = Ret (of_nat (16 * j), s')"
  using assms
proof (induction "n - k" arbitrary: s k)
  case 0
  have n: "16 * n < 2 ^ 32" using 0(3) unsigned_less [of "i_size (inodes s dp)", where ?'a = nat] by (simp add: fsize_def)
  have "log_inv d s {}" using 0(2) by (simp add: dir_ok_def file_ok_def file_inv_def)
  then show ?case using 0 dent_off(2) [OF n, of k] fs_step_refl [of d s "{}"] by (subst dirlink_loop.simps) (simp add: exI [of _ s] exI [of _ n])
next
  case (Suc m)
  then have k: "k < n" by simp
  have n: "16 * n < 2 ^ 32" using Suc(4) unsigned_less [of "i_size (inodes s dp)", where ?'a = nat] by (simp add: fsize_def)
  obtain s1 where r: "readi s dp (ObjDst 0) (of_nat (16 * k)) DESIZE = Ret (DESIZE, dent_at (fdata s dp) k, s1)"
    "dir_ok d s1 dp" "fdata s1 dp = fdata s dp" "fs_step d {} s (view s) (logged s) s1" using dent_read [OF Suc(3,4) k] by blast
  note e = fs_stepD [OF r(4)]
  note step = dirlink_loop.simps [of s dp "of_nat (16 * k)"] dent_off(2,3) [OF n, of k]
  show ?case
  proof (cases "de_inum (dent_at (fdata s dp) k) = 0")
    case True
    then show ?thesis using r k by (intro exI [of _ s1] exI [of _ k]) (simp add: step del: of_nat_mult)
  next
    case False
    have "dirlink_loop s dp (of_nat (16 * k)) (of_nat (16 * n)) = dirlink_loop s1 dp (of_nat (16 * Suc k)) (of_nat (16 * n))"
      using False r(1) k by (auto simp: step simp del: of_nat_mult mult_Suc_right)
    moreover have "fsize s1 dp = 16 * n" using Suc(4) by (simp add: fsize_def e(9))
    moreover have "m = n - Suc k" "Suc k \<le> n" using Suc(2) k by simp_all
    ultimately show ?thesis using Suc(1) [of "Suc k" s1, OF _ r(2), unfolded r(3) fs_stepD(2,3) [OF r(4)] e(10)] fs_step_trans [OF r(4)] by auto
  qed
qed

text \<open>\<open>dirlink\<close> adds a name that is not there: the map is updated and nothing else of it changes.\<close>

lemma dirlink_run:
  fixes s :: "'z kfs_scheme"
  assumes ok: "dir_ok d s dp" and new: "dir_map s dp (dname nm) = None" and i: "(ucast inum :: u16) \<noteq> 0"
    and fits: "fsize s dp + 16 \<le> MAXFILE * BSIZE" and room: "card (logged s) + 7 \<le> log_cap s"
  shows "\<exists>r s'. dirlink s dp nm inum = Ret (r, s') \<and> frest s' = frest s \<and>
    (if r = 0 then dir_ok d s' dp \<and> dir_map s' dp = (dir_map s dp)(dname nm \<mapsto> ucast inum) else r = - 1 \<and> fs_full s') \<and>
    (\<forall>b. b \<notin> bm_blocks (sb s) \<and> \<not> fresh s b \<and> b \<notin> faddr s dp ` {..MAXFILE} \<and> b \<noteq> iblock s dp \<longrightarrow> view s' b = view s b)"
proof -
  let ?de = "mk_dirent (ucast inum) (strncpy_arr nm DIRSIZ)"
  obtain s1 where l: "dirlookup s dp nm = Ret (None, s1)" "dir_ok d s1 dp" "fdata s1 dp = fdata s dp" "fs_step d {} s (view s) (logged s) s1"
    using dirlookup_run [OF ok, of nm] new by auto
  note e1 = fs_stepD [OF l(4)]
  obtain n where n: "fsize s1 dp = 16 * n" "i_size (inodes s1 dp) = of_nat (16 * n)" "16 * n < 2 ^ 32" "length (dents_of (fdata s dp)) = n"
    using dir_size [OF l(2)] l(3) by metis
  obtain s2 j where j: "dirlink_loop s1 dp 0 (of_nat (16 * n)) = Ret (of_nat (16 * j), s2)" "dir_ok d s2 dp" "fdata s2 dp = fdata s dp"
      "fs_step d {} s1 (view s1) (logged s1) s2" "j \<le> n" "j < n \<Longrightarrow> de_inum (dent_at (fdata s dp) j) = 0"
    using dirlink_loop_run [OF l(2) n(1), of 0] l(3) by auto
  note e2 = fs_stepD [OF fs_step_trans [OF l(4) j(4)]]
  have de: "length ?de = 16" "dent_of ?de = (dname nm, ucast inum)"
    by (simp add: mk_dirent_def DIRSIZ_def) (simp add: dent_of_def de_inum_mk de_name_mk name_strncpy_arr)
  have size: "16 * n = fsize s dp" "fsize s2 dp = fsize s dp" using n(1) by (simp_all add: fsize_def e1 e2)
  have off: "unat (of_nat (16 * j) :: u32) = 16 * j" "unat DESIZE = 16" using dent_off(1) [OF n(3) j(5)] by (simp_all add: DESIZE_def)
  have nb: "nblk (16 * j) 16 = 1"
  proof -
    have "16 * j mod 1024 = 16 * (j mod 64)" using mult_mod_right [of 16 j 64] by simp
    moreover have "j mod 64 < 64" by simp
    ultimately show ?thesis by (simp add: nblk_def BSIZE_def)
  qed
  have fo: "file_ok d s2 dp" using j(2) by (simp add: dir_ok_def)
  have pre: "of_nat (16 * j) \<le> i_size (inodes s2 dp)" "unat (of_nat (16 * j) :: u32) + unat DESIZE \<le> MAXFILE * BSIZE" "length ?de = unat DESIZE"
      "card (logged s2) + 6 * nblk (unat (of_nat (16 * j) :: u32)) (unat DESIZE) + 1 \<le> log_cap s2"
    using size fits j(5) room nb de(1) by (simp_all only: off word_le_nat_alt) (simp_all add: fsize_def e1 e2)
  obtain w s3 where w: "w \<le> 16" "writei s2 dp (ObjSrc ?de) (of_nat (16 * j)) DESIZE = Ret (of_nat w, s3)" "file_ok d s3 dp"
      "fdata s3 dp = overwrite (fdata s dp) (16 * j) (take w ?de)" "w < 16 \<longrightarrow> fs_full s3" "frest s3 = frest s2"
      "\<exists>A z. inodes s3 = (inodes s2)(dp := (inodes s2 dp)\<lparr>i_addrs := A, i_size := z\<rparr>)"
      "\<forall>b. b \<notin> bm_blocks (sb s2) \<and> \<not> fresh s2 b \<and> b \<notin> faddr s2 dp ` {..MAXFILE} \<and> b \<noteq> iblock s2 dp \<longrightarrow> view s3 b = view s2 b"
    using writei_run [OF fo pre feeds_obj] unfolding de(1) off j(3) by blast
  have sb2: "sb s2 = sb s" "view s2 = view s" "inodes s2 = inodes s" "fs_size s2 = fs_size s" by (simp_all add: e1 e2)
  have fr: "frest s3 = frest s" using w(6) frest_lrest [OF e2(7,4)] by simp
  have "dirlink s dp nm inum = Ret (if w = 16 then 0 else - 1, s3)"
  proof -
    have "of_nat w = DESIZE \<longleftrightarrow> w = 16" using w(1) by (auto simp: DESIZE_def word_unat_eq_iff unat_of_nat)
    then show ?thesis using l(1) j(1) w(2) n(2) by (simp add: dirlink_def Let_def)
  qed
  moreover have "dir_ok d s3 dp \<and> dir_map s3 dp = (dir_map s dp)(dname nm \<mapsto> ucast inum)" if "w = 16"
  proof -
    have "fdata s3 dp = overwrite (fdata s dp) (16 * j) ?de" using w(4) that de(1) by simp
    moreover have len: "length (fdata s dp) = 16 * n" by (simp add: fdata_def size)
    moreover have "dents_of (overwrite (fdata s dp) (16 * j) ?de) =
        (if j < length (dents_of (fdata s dp)) then (dents_of (fdata s dp))[j := (dname nm, ucast inum)] else dents_of (fdata s dp) @ [(dname nm, ucast inum)])"
      using dents_of_overwrite [OF de(1), of "fdata s dp" j] len j(5) by (simp add: de(2))
    moreover have "snd (dents_of (fdata s dp) ! j) = 0" if "j < length (dents_of (fdata s dp))"
      using j(6) that by (simp add: n(4)) (simp add: dents_of_def dent_of_def len)
    ultimately have "dir_map s3 dp = (dir_map s dp)(dname nm \<mapsto> ucast inum)"
      using map_of_entries_add [OF i, of "dents_of (fdata s dp)" "dname nm" j] new j(5) n(4) by (simp add: dir_map_def)
    moreover have "length (fdata s3 dp) = max (16 * n) (16 * j + 16)" using w(4) that de(1) len j(5) by (simp add: length_overwrite)
    then have "fsize s3 dp = 16 * max n (Suc j)" by (auto simp: fdata_def max_def)
    ultimately show ?thesis using w(3,7) j(2) by (auto simp: dir_ok_def)
  qed
  ultimately show ?thesis using w(1,5,8) fr unfolding sb2 fresh_def by auto
qed

section \<open>Paths\<close>

text \<open>The elements of a path: what is between slashes, without the empty ones, cut off at \<open>DIRSIZ\<close> bytes.\<close>

fun split_slash :: "u8 list \<Rightarrow> u8 list list" where
  "split_slash [] = [[]]"
| "split_slash (c # cs) =
     (if c = SLASH then [] # split_slash cs
      else case split_slash cs of [] \<Rightarrow> [[c]] | e # es \<Rightarrow> (c # e) # es)"

definition path_elems :: "u8 list \<Rightarrow> u8 list list" where
  "path_elems path = map (take DIRSIZ) (filter (\<lambda>e. e \<noteq> []) (split_slash (takeWhile (\<lambda>c. c \<noteq> 0) path)))"

lemma split_slash_cons: "\<exists>e es. split_slash p = e # es"
  by (induction p) (auto split: list.splits)

lemma split_slash_takeWhile:
  "split_slash p = takeWhile (\<lambda>c. c \<noteq> SLASH) p # (case dropWhile (\<lambda>c. c \<noteq> SLASH) p of [] \<Rightarrow> [] | _ # r \<Rightarrow> split_slash r)"
  by (induction p) (auto split: list.splits)

lemma path_elems_slash: "path_elems (SLASH # p) = path_elems p"
  by (simp add: path_elems_def SLASH_def)

lemma path_elems_skip [simp]: "path_elems (skip_slashes p) = path_elems p"
  by (induction p) (auto simp: skip_slashes_def path_elems_slash)

lemma elem_parts:
  "takeWhile in_elem p = takeWhile (\<lambda>c. c \<noteq> SLASH) (takeWhile (\<lambda>c. c \<noteq> 0) p)"
  "takeWhile (\<lambda>c. c \<noteq> 0) (dropWhile in_elem p) = dropWhile (\<lambda>c. c \<noteq> SLASH) (takeWhile (\<lambda>c. c \<noteq> 0) p)"
  by (induction p) (auto simp: in_elem_def SLASH_def)

lemma path_elems_first:
  assumes "takeWhile in_elem p \<noteq> []"
  shows "path_elems p = take DIRSIZ (takeWhile in_elem p) # path_elems (dropWhile in_elem p)"
proof -
  let ?q = "takeWhile (\<lambda>c. c \<noteq> 0) p"
  have "filter (\<lambda>e. e \<noteq> []) (case dropWhile (\<lambda>c. c \<noteq> SLASH) ?q of [] \<Rightarrow> [] | _ # r \<Rightarrow> split_slash r) =
      filter (\<lambda>e. e \<noteq> []) (split_slash (dropWhile (\<lambda>c. c \<noteq> SLASH) ?q))"
    using hd_dropWhile [of "\<lambda>c. c \<noteq> SLASH" ?q] by (cases "dropWhile (\<lambda>c. c \<noteq> SLASH) ?q") (auto simp del: dropWhile_eq_Nil_conv)
  then show ?thesis using assms unfolding path_elems_def elem_parts by (subst split_slash_takeWhile) simp
qed

lemma byte_at_elems: "q = [] \<or> hd q \<noteq> SLASH \<Longrightarrow> byte_at q = 0 \<longleftrightarrow> path_elems q = []"
  using path_elems_first [of q] by (cases q) (auto simp: byte_at_def in_elem_def path_elems_def)

lemma hd_skip: "skip_slashes p = c # cs \<Longrightarrow> c \<noteq> SLASH"
  using hd_dropWhile [of "\<lambda>c. c = SLASH" p] unfolding skip_slashes_def by (metis list.distinct(1) list.sel(1))

lemma byte_at_skip: "byte_at (skip_slashes p) = 0 \<longleftrightarrow> path_elems p = []"
  using byte_at_elems [of "skip_slashes p"] hd_skip [of p] path_elems_skip [of p] by (cases "skip_slashes p") auto

text \<open>\<open>skipelem\<close> takes the elements one by one; what is in the name array after the NUL does not matter.\<close>

lemma skipelem_elems:
  assumes "length nm = DIRSIZ"
  shows "case skipelem path nm of
      None \<Rightarrow> path_elems path = []
    | Some (path', nm') \<Rightarrow> length nm' = DIRSIZ \<and> path_elems path = dname nm' # path_elems path' \<and> (byte_at path' = 0 \<longleftrightarrow> path_elems path' = [])"
proof (cases "byte_at (skip_slashes path) = 0")
  case True
  then show ?thesis using byte_at_skip [of path] by (simp add: skipelem_def)
next
  case False
  let ?p = "skip_slashes path"
  let ?e = "takeWhile in_elem ?p"
  have "?e \<noteq> []" using False hd_skip [of path] by (cases ?p) (auto simp: in_elem_def byte_at_def)
  then have "path_elems path = take DIRSIZ ?e # path_elems (dropWhile in_elem ?p)" using path_elems_first [of ?p] by simp
  moreover have z: "0 \<notin> set ?e" by (auto dest: set_takeWhileD simp: in_elem_def)
  then have "0 \<notin> set (take DIRSIZ ?e)" by (meson in_set_takeD)
  then have "name_of (take DIRSIZ ?e) = take DIRSIZ ?e" by (auto simp: name_of_def takeWhile_eq_all_conv)
  moreover have "name_of (?e @ 0 # ys) = ?e" for ys using z by (simp add: name_of_def takeWhile_append)
  ultimately show ?thesis using assms False byte_at_skip [of "dropWhile in_elem ?p"]
    by (auto simp: skipelem_def Let_def min_def)
qed

text \<open>The name matters to \<open>dirlookup\<close> only as a string.\<close>

lemma dirlookup_loop_dname:
  "dname nm = dname nm' \<Longrightarrow> dirlookup_loop s dp nm off sz = dirlookup_loop s dp nm' off sz"
proof (induction s dp nm off sz rule: dirlookup_loop.induct)
  case (1 s dp nm off sz)
  show ?case
  proof (cases "readi s dp (ObjDst 0) off DESIZE")
    case (Ret x)
    obtain r de s1 where x: "x = (r, de, s1)" by (cases x)
    show ?thesis using 1(1,2) [OF _ Ret x [symmetric] refl] 1(3)
      by (simp add: dirlookup_loop.simps [of s dp nm] dirlookup_loop.simps [of s dp nm'] Ret x namecmp_eq_0)
  qed (simp_all add: dirlookup_loop.simps [of s dp nm] dirlookup_loop.simps [of s dp nm'])
qed

lemma dirlookup_dname: "dname nm = dname nm' \<Longrightarrow> dirlookup s dp nm = dirlookup s dp nm'"
  by (simp add: dirlookup_def dirlookup_loop_dname [of nm nm'])

text \<open>
  The reference: descend through a list of names.  The second function stops at the directory that holds
  the last one.
\<close>

fun resolve :: "'z kfs_scheme \<Rightarrow> nat \<Rightarrow> u8 list list \<Rightarrow> (nat option \<times> 'z kfs_scheme) res" where
  "resolve s ip [] = Ret (Some ip, s)"
| "resolve s ip (e # es) =
     bindr (ilock s ip) (\<lambda>s1.
     if i_type (inodes s1 ip) \<noteq> T_DIR then bindr (iunlockput s1 ip) (\<lambda>s2. Ret (None, s2))
     else bindr (dirlookup s1 ip e) (\<lambda>(found, s2). bindr (iunlockput s2 ip) (\<lambda>s3.
       case found of None \<Rightarrow> Ret (None, s3) | Some (nxt, _) \<Rightarrow> resolve s3 nxt es)))"

fun resolve_parent :: "'z kfs_scheme \<Rightarrow> nat \<Rightarrow> u8 list list \<Rightarrow> ((nat \<times> u8 list) option \<times> 'z kfs_scheme) res" where
  "resolve_parent s ip [] = bindr (iput s ip) (\<lambda>s1. Ret (None, s1))"
| "resolve_parent s ip (e # es) =
     bindr (ilock s ip) (\<lambda>s1.
     if i_type (inodes s1 ip) \<noteq> T_DIR then bindr (iunlockput s1 ip) (\<lambda>s2. Ret (None, s2))
     else if es = [] then bindr (iunlock s1 ip) (\<lambda>s2. Ret (Some (ip, e), s2))
     else bindr (dirlookup s1 ip e) (\<lambda>(found, s2). bindr (iunlockput s2 ip) (\<lambda>s3.
       case found of None \<Rightarrow> Ret (None, s3) | Some (nxt, _) \<Rightarrow> resolve_parent s3 nxt es)))"

lemma dname_dname: "length nm \<le> DIRSIZ \<Longrightarrow> dname (name_of nm) = name_of nm"
proof -
  assume "length nm \<le> DIRSIZ"
  then have "take DIRSIZ (name_of nm) = name_of nm" using length_name_of [of nm] by simp
  then show ?thesis using zero_notin_name_of [of nm] by (auto simp: name_of_def takeWhile_eq_all_conv)
qed

lemma namex_loop_resolve:
  fixes s :: "'z kfs_scheme"
  assumes "length nm = DIRSIZ"
  shows "bindr (namex_loop s ip path False nm) (\<lambda>(r, _, s1). Ret (r, s1)) = resolve s ip (path_elems path)"
  using assms
proof (induction "length path" arbitrary: s ip path nm rule: less_induct)
  case less
  show ?case
  proof (cases "skipelem path nm")
    case None
    then show ?thesis using skipelem_elems [OF less(2), of path] by (simp add: namex_loop.simps [of s ip path])
  next
    case (Some x)
    obtain p' nm' where x: "x = (p', nm')" by (cases x)
    have n: "length nm' = DIRSIZ" "path_elems path = dname nm' # path_elems p'" using skipelem_elems [OF less(2), of path] Some x by simp_all
    have sh: "length p' < length path" using skipelem_shorter [of path nm p' nm'] Some x by simp
    have "bindr (namex_loop s2 i p' False nm') (\<lambda>(r, _, s1). Ret (r, s1)) = resolve s2 i (path_elems p')" for s2 :: "'z kfs_scheme" and i
      using less(1) [OF sh n(1)] .
    moreover have "dirlookup s1 ip nm' = dirlookup s1 ip (dname nm')" for s1 :: "'z kfs_scheme" using dname_dname [of nm'] n(1) by (intro dirlookup_dname) simp
    ultimately show ?thesis unfolding namex_loop.simps [of s ip path] n(2) by (simp add: Some x bindr_assoc split_beta) (auto intro!: bindr_cong simp: bindr_assoc split: option.split)
  qed
qed

lemma namex_loop_resolve_parent:
  fixes s :: "'z kfs_scheme"
  assumes "length nm = DIRSIZ"
  shows "bindr (namex_loop s ip path True nm) (\<lambda>(r, n, s1). Ret (map_option (\<lambda>i. (i, dname n)) r, s1)) = resolve_parent s ip (path_elems path)"
  using assms
proof (induction "length path" arbitrary: s ip path nm rule: less_induct)
  case less
  show ?case
  proof (cases "skipelem path nm")
    case None
    then show ?thesis using skipelem_elems [OF less(2), of path] by (simp add: namex_loop.simps [of s ip path] bindr_assoc)
  next
    case (Some x)
    obtain p' nm' where x: "x = (p', nm')" by (cases x)
    have n: "length nm' = DIRSIZ" "path_elems path = dname nm' # path_elems p'" "byte_at p' = 0 \<longleftrightarrow> path_elems p' = []" using skipelem_elems [OF less(2), of path] Some x by simp_all
    have sh: "length p' < length path" using skipelem_shorter [of path nm p' nm'] Some x by simp
    have "bindr (namex_loop s2 i p' True nm') (\<lambda>(r, n, s1). Ret (map_option (\<lambda>i. (i, dname n)) r, s1)) = resolve_parent s2 i (path_elems p')" for s2 :: "'z kfs_scheme" and i
      using less(1) [OF sh n(1)] .
    moreover have "dirlookup s1 ip nm' = dirlookup s1 ip (dname nm')" for s1 :: "'z kfs_scheme" using dname_dname [of nm'] n(1) by (intro dirlookup_dname) simp
    ultimately show ?thesis unfolding namex_loop.simps [of s ip path] n(2) by (simp add: Some x n(3) bindr_assoc split_beta) (auto intro!: bindr_cong simp: bindr_assoc n(3) split: option.split)
  qed
qed

text \<open>Where the search starts.\<close>

definition path_start :: "'z kfs_scheme \<Rightarrow> u8 list \<Rightarrow> (nat \<times> 'z kfs_scheme) res" where
  "path_start s path =
     (if byte_at path = SLASH then iget s ROOTDEV ROOTINO
      else case p_cwd (myproc s) of None \<Rightarrow> Panic ''kerneltrap'' | Some cwd \<Rightarrow> Ret (cwd, idup s cwd))"

lemma namei_resolve: "namei s path = bindr (path_start s path) (\<lambda>(ip, s1). resolve s1 ip (path_elems path))"
  by (simp add: namei_def namex_def path_start_def bindr_assoc split_beta namex_loop_resolve [of "replicate DIRSIZ 0", simplified, unfolded split_beta] cong: bindr_cong)

lemma nameiparent_resolve:
  assumes "length nm = DIRSIZ"
  shows "bindr (nameiparent s path nm) (\<lambda>(r, n, s1). Ret (map_option (\<lambda>i. (i, dname n)) r, s1)) =
    bindr (path_start s path) (\<lambda>(ip, s1). resolve_parent s1 ip (path_elems path))"
  by (simp add: nameiparent_def namex_def path_start_def bindr_assoc split_beta namex_loop_resolve_parent [OF assms, unfolded split_beta] cong: bindr_cong)

end
