(* ===== verification/Console.thy ===== *)
theory Console
  imports Dir
begin

text \<open>
  The UART driver (\<^verbatim>\<open>kernel/uart.c\<close>) and the console on top of it (\<^verbatim>\<open>kernel/console.c\<close>): the transmit
  ring, the input line with its editing keys, and \<open>read\<close> and \<open>write\<close> on the console device.

  The device is outside the program.  \<open>uart_room\<close> is the number of bytes its transmit register will
  accept before \<open>LSR_TX_IDLE\<close> reads as zero, \<open>uart_in\<close> the bytes waiting behind \<open>LSR_RX_READY\<close> and
  \<open>uart_out\<close> all bytes written to \<open>THR\<close>.  \<open>uartinit\<close> only programs its registers.

  A loop that may have to wait in its middle returns \<open>IoWait i\<close> with the state it waits in and the
  position \<open>i\<close> at which it resumes, or \<open>IoDone r\<close> with the result of the call.
\<close>

datatype io = IoDone int | IoWait nat

definition UART_TX_BUF_SIZE :: nat where "UART_TX_BUF_SIZE = 32"
definition INPUT_BUF_SIZE :: nat where "INPUT_BUF_SIZE = 128"

record kcons = kfs +
  panicked :: bool
  uart_tx_buf :: "nat \<Rightarrow> u8"
  uart_tx_w :: u64
  uart_tx_r :: u64
  uart_room :: nat
  uart_in :: "u8 list"
  uart_out :: "u8 list"
  cons_buf :: "nat \<Rightarrow> u8"
  cons_r :: u32
  cons_w :: u32
  cons_e :: u32

section \<open>The UART\<close>

definition write_THR :: "'z kcons_scheme \<Rightarrow> u8 \<Rightarrow> 'z kcons_scheme" where
  "write_THR s c = s\<lparr>uart_out := uart_out s @ [c], uart_room := uart_room s - 1\<rparr>"

lemma uart_room_wakeup [simp]: "uart_room (wakeup s c) = uart_room (s :: 'z kcons_scheme)"
proof -
  have "uart_room (fold (wakeup_one c) ps s) = uart_room s" for ps
    by (induction ps arbitrary: s) (auto simp: wakeup_one_def upd_proc_def)
  then show ?thesis by (simp add: wakeup_def)
qed

function uartstart :: "'z kcons_scheme \<Rightarrow> 'z kcons_scheme" where
  "uartstart s =
     (if uart_tx_w s = uart_tx_r s then s
      else if uart_room s = 0 then s
      else
        let c = uart_tx_buf s (unat (uart_tx_r s) mod UART_TX_BUF_SIZE);
            s1 = s\<lparr>uart_tx_r := uart_tx_r s + 1\<rparr>;
            s2 = wakeup s1 ChanUartTx in
        uartstart (write_THR s2 c))"
  by pat_completeness auto
termination
  by (relation "measure uart_room") (auto simp: write_THR_def)

declare uartstart.simps [simp del]

definition uartputc :: "'z kcons_scheme \<Rightarrow> u8 \<Rightarrow> 'z kcons_scheme res" where
  "uartputc s c =
     (if panicked s then Diverge
      else if uart_tx_w s = uart_tx_r s + of_nat UART_TX_BUF_SIZE then Sleep ChanUartTx
      else
        let s1 = s\<lparr>uart_tx_buf := (uart_tx_buf s)(unat (uart_tx_w s) mod UART_TX_BUF_SIZE := c)\<rparr>;
            s2 = s1\<lparr>uart_tx_w := uart_tx_w s1 + 1\<rparr> in
        Ret (uartstart s2))"

text \<open>\<open>uartputc_sync\<close> spins until the device is idle; the device drains by itself, so the byte is written.\<close>

definition uartputc_sync :: "'z kcons_scheme \<Rightarrow> u8 \<Rightarrow> 'z kcons_scheme res" where
  "uartputc_sync s c = (if panicked s then Diverge else Ret (write_THR s c))"

definition uartgetc :: "'z kcons_scheme \<Rightarrow> u8 option \<times> 'z kcons_scheme" where
  "uartgetc s = (case uart_in s of [] \<Rightarrow> (None, s) | c # cs \<Rightarrow> (Some c, s\<lparr>uart_in := cs\<rparr>))"

section \<open>The console\<close>

definition consputc :: "'z kcons_scheme \<Rightarrow> u8 \<Rightarrow> 'z kcons_scheme res" where
  "consputc s c = uartputc_sync s c"

definition consputc_BACKSPACE :: "'z kcons_scheme \<Rightarrow> 'z kcons_scheme res" where
  "consputc_BACKSPACE s =
     bindr (uartputc_sync s 8) (\<lambda>s1. bindr (uartputc_sync s1 32) (\<lambda>s2. uartputc_sync s2 8))"

function consolewrite_loop :: "'z kcons_scheme \<Rightarrow> src \<Rightarrow> nat \<Rightarrow> nat \<Rightarrow> (io \<times> 'z kcons_scheme) res" where
  "consolewrite_loop s d n i =
     (if i < n then
        let (r, bs) = either_copyin s (src_add d (of_nat i)) 1 in
        if r = -1 then Ret (IoDone (int i), s)
        else
          case uartputc s (byte_at bs) of
            Ret s1 \<Rightarrow> consolewrite_loop s1 d n (Suc i)
          | Sleep c \<Rightarrow> Ret (IoWait i, s)
          | Panic e \<Rightarrow> Panic e
          | Diverge \<Rightarrow> Diverge
      else Ret (IoDone (int i), s))"
  by pat_completeness auto
termination
  by (relation "measure (\<lambda>(s, d, n, i). n - i)") auto

declare consolewrite_loop.simps [simp del]

definition consolewrite :: "'z kcons_scheme \<Rightarrow> src \<Rightarrow> u32 \<Rightarrow> (io \<times> 'z kcons_scheme) res" where
  "consolewrite s d n = consolewrite_loop s d (nat (sint n)) 0"

text \<open>
  \<open>consoleread\<close>, with \<open>n\<close> bytes still to deliver out of \<open>target\<close>.  \<open>IoWait n\<close> is the wait for input.
\<close>

fun consoleread_loop ::
  "'z kcons_scheme \<Rightarrow> dst \<Rightarrow> nat \<Rightarrow> nat \<Rightarrow> u8 list \<Rightarrow> io \<times> u8 list \<times> 'z kcons_scheme"
where
  "consoleread_loop s d 0 target obj = (IoDone (int target), obj, s)"
| "consoleread_loop s d (Suc n) target obj =
     (if cons_r s = cons_w s then
        if killed s (curp s) then (IoDone (-1), obj, s) else (IoWait (Suc n), obj, s)
      else
        let c = cons_buf s (unat (cons_r s) mod INPUT_BUF_SIZE);
            s1 = s\<lparr>cons_r := cons_r s + 1\<rparr> in
        if c = 4 then
          (IoDone (int (target - Suc n)), obj, if Suc n < target then s1\<lparr>cons_r := cons_r s1 - 1\<rparr> else s1)
        else
          let (r, obj, s2) = either_copyout s1 d obj [c] in
          if r = -1 then (IoDone (int (target - Suc n)), obj, s2)
          else if c = 10 then (IoDone (int (target - n)), obj, s2)
          else consoleread_loop s2 (dst_add d 1) n target obj)"

definition consoleread :: "'z kcons_scheme \<Rightarrow> dst \<Rightarrow> u32 \<Rightarrow> io \<times> u8 list \<times> 'z kcons_scheme" where
  "consoleread s d n = consoleread_loop s d (nat (sint n)) (nat (sint n)) []"

text \<open>\<open>^U\<close>: erase back to the last newline or to the start of the line.\<close>

function kill_line :: "'z kcons_scheme \<Rightarrow> 'z kcons_scheme res" where
  "kill_line s =
     (if cons_e s \<noteq> cons_w s \<and> cons_buf s (unat (cons_e s - 1) mod INPUT_BUF_SIZE) \<noteq> 10 then
        bindr (consputc_BACKSPACE (s\<lparr>cons_e := cons_e s - 1\<rparr>)) kill_line
      else Ret s)"
  by pat_completeness auto
termination
proof (relation "measure (\<lambda>s. unat (cons_e s - cons_w s))", goal_cases)
  case (2 s s')
  then have s': "cons_e s' = cons_e s - 1" "cons_w s' = cons_w s"
    by (auto simp: consputc_BACKSPACE_def uartputc_sync_def write_THR_def split: if_splits)
  have "cons_e s - cons_w s \<noteq> 0" using 2 by simp
  then have "unat (cons_e s - cons_w s - 1) < unat (cons_e s - cons_w s)"
    by (metis unat_minus_one unat_gt_0 diff_less zero_less_one)
  then show ?case by (simp add: s' algebra_simps)
qed auto

declare kill_line.simps [simp del]

definition consoleintr :: "'z kcons_scheme \<Rightarrow> u8 \<Rightarrow> 'z kcons_scheme res" where
  "consoleintr s c =
     (if c = 16 then Ret s
      else if c = 21 then kill_line s
      else if c = 8 \<or> c = 127 then
        if cons_e s \<noteq> cons_w s then consputc_BACKSPACE (s\<lparr>cons_e := cons_e s - 1\<rparr>) else Ret s
      else if c \<noteq> 0 \<and> cons_e s - cons_r s < of_nat INPUT_BUF_SIZE then
        let c = (if c = 13 then 10 else c) in
        bindr (consputc s c) (\<lambda>s1.
        let s2 = s1\<lparr>cons_buf := (cons_buf s1)(unat (cons_e s1) mod INPUT_BUF_SIZE := c), cons_e := cons_e s1 + 1\<rparr> in
        Ret (if c = 10 \<or> c = 4 \<or> cons_e s2 - cons_r s2 = of_nat INPUT_BUF_SIZE
             then wakeup (s2\<lparr>cons_w := cons_e s2\<rparr>) ChanCons else s2))
      else Ret s)"

lemma uart_in_wakeup [simp]: "uart_in (wakeup s c) = uart_in (s :: 'z kcons_scheme)"
proof -
  have "uart_in (fold (wakeup_one c) ps s) = uart_in s" for ps
    by (induction ps arbitrary: s) (auto simp: wakeup_one_def upd_proc_def)
  then show ?thesis by (simp add: wakeup_def)
qed

lemma uart_in_BACKSPACE: "consputc_BACKSPACE s = Ret s' \<Longrightarrow> uart_in s' = uart_in s"
  by (auto simp: consputc_BACKSPACE_def uartputc_sync_def write_THR_def split: if_splits)

lemma uart_in_kill_line: "kill_line s = Ret s' \<Longrightarrow> uart_in s' = uart_in s"
proof (induction s rule: kill_line.induct)
  case (1 s)
  then show ?case
    by (subst (asm) (2) kill_line.simps) (fastforce simp: res_simps dest: uart_in_BACKSPACE split: if_splits)
qed

lemma uart_in_consoleintr: "consoleintr s c = Ret s' \<Longrightarrow> uart_in s' = uart_in s"
  by (auto simp: consoleintr_def consputc_def uartputc_sync_def write_THR_def Let_def res_simps
      dest!: uart_in_BACKSPACE uart_in_kill_line split: if_splits)

text \<open>\<open>uartintr\<close>: every byte the device has received, then the bytes waiting for transmission.\<close>

function uartintr_loop :: "'z kcons_scheme \<Rightarrow> 'z kcons_scheme res" where
  "uartintr_loop s =
     (case uartgetc s of
        (None, s1) \<Rightarrow> Ret s1
      | (Some c, s1) \<Rightarrow> bindr (consoleintr s1 c) uartintr_loop)"
  by pat_completeness auto
termination
  by (relation "measure (\<lambda>s. length (uart_in s))")
    (auto simp: uartgetc_def dest!: uart_in_consoleintr split: list.splits)

declare uartintr_loop.simps [simp del]

definition uartintr :: "'z kcons_scheme \<Rightarrow> 'z kcons_scheme res" where
  "uartintr s = bindr (uartintr_loop s) (\<lambda>s1. Ret (uartstart s1))"

end
