(* ===== verification/Pipe.thy ===== *)
theory Pipe
  imports Console
begin

text \<open>
  Pipes, \<^verbatim>\<open>kernel/pipe.c\<close> (\<open>pipealloc\<close>, which allocates files, is with the files).  A pipe lives in a page of
  its own; the page address is the pointer and \<open>pipes\<close> gives the structure behind it.  The positions
  \<open>nread\<close> and \<open>nwrite\<close> are 32-bit counters that wrap.  Reads and writes that have to wait return the
  position at which they resume.
\<close>

definition PIPESIZE :: nat where "PIPESIZE = 512"

record pipe =
  pi_data :: "nat \<Rightarrow> u8"
  pi_nread :: u32
  pi_nwrite :: u32
  pi_readopen :: bool
  pi_writeopen :: bool

record kpipe = kcons +
  pipes :: "u64 \<Rightarrow> pipe"

definition upd_pipe :: "'z kpipe_scheme \<Rightarrow> u64 \<Rightarrow> (pipe \<Rightarrow> pipe) \<Rightarrow> 'z kpipe_scheme" where
  "upd_pipe s pi f = s\<lparr>pipes := (pipes s)(pi := f (pipes s pi))\<rparr>"

text \<open>\<open>pi->data[pi->nwrite++ % PIPESIZE] = ch\<close> and \<open>ch = pi->data[pi->nread++ % PIPESIZE]\<close>.\<close>

definition pipe_put :: "u8 \<Rightarrow> pipe \<Rightarrow> pipe" where
  "pipe_put ch p = p\<lparr>pi_data := (pi_data p)(unat (pi_nwrite p) mod PIPESIZE := ch), pi_nwrite := pi_nwrite p + 1\<rparr>"

definition pipe_get :: "pipe \<Rightarrow> u8 \<times> pipe" where
  "pipe_get p = (pi_data p (unat (pi_nread p) mod PIPESIZE), p\<lparr>pi_nread := pi_nread p + 1\<rparr>)"

definition pipe_full :: "pipe \<Rightarrow> bool" where
  "pipe_full p \<longleftrightarrow> pi_nwrite p = pi_nread p + of_nat PIPESIZE"

definition pipe_empty :: "pipe \<Rightarrow> bool" where
  "pipe_empty p \<longleftrightarrow> pi_nread p = pi_nwrite p"

definition pipeclose :: "'z kpipe_scheme \<Rightarrow> u64 \<Rightarrow> bool \<Rightarrow> 'z kpipe_scheme res" where
  "pipeclose s pi writable =
     (let s1 = (if writable
                then wakeup (upd_pipe s pi (\<lambda>p. p\<lparr>pi_writeopen := False\<rparr>)) (ChanPipeRead pi)
                else wakeup (upd_pipe s pi (\<lambda>p. p\<lparr>pi_readopen := False\<rparr>)) (ChanPipeWrite pi)) in
      if \<not> pi_readopen (pipes s1 pi) \<and> \<not> pi_writeopen (pipes s1 pi) then kfree s1 pi else Ret s1)"

function pipewrite_loop :: "'z kpipe_scheme \<Rightarrow> u64 \<Rightarrow> u64 \<Rightarrow> nat \<Rightarrow> nat \<Rightarrow> io \<times> 'z kpipe_scheme" where
  "pipewrite_loop s pi addr n i =
     (if i < n then
        if \<not> pi_readopen (pipes s pi) \<or> killed s (curp s) then (IoDone (-1), s)
        else if pipe_full (pipes s pi) then (IoWait i, wakeup s (ChanPipeRead pi))
        else
          let (r, bs) = copyin s (p_pagetable (myproc s)) (addr + of_nat i) 1 in
          if r = -1 then (IoDone (int i), wakeup s (ChanPipeRead pi))
          else pipewrite_loop (upd_pipe s pi (pipe_put (byte_at bs))) pi addr n (Suc i)
      else (IoDone (int i), wakeup s (ChanPipeRead pi)))"
  by pat_completeness auto
termination
  by (relation "measure (\<lambda>(s, pi, addr, n, i). n - i)") auto

declare pipewrite_loop.simps [simp del]

definition pipewrite :: "'z kpipe_scheme \<Rightarrow> u64 \<Rightarrow> u64 \<Rightarrow> u32 \<Rightarrow> io \<times> 'z kpipe_scheme" where
  "pipewrite s pi addr n = pipewrite_loop s pi addr (nat (sint n)) 0"

function piperead_loop :: "'z kpipe_scheme \<Rightarrow> u64 \<Rightarrow> u64 \<Rightarrow> nat \<Rightarrow> nat \<Rightarrow> nat \<times> 'z kpipe_scheme" where
  "piperead_loop s pi addr n i =
     (if i < n then
        if pipe_empty (pipes s pi) then (i, s)
        else
          let (ch, p) = pipe_get (pipes s pi);
              s1 = upd_pipe s pi (\<lambda>_. p);
              (r, s2) = copyout s1 (p_pagetable (myproc s1)) (addr + of_nat i) [ch] in
          if r = -1 then (i, s2) else piperead_loop s2 pi addr n (Suc i)
      else (i, s))"
  by pat_completeness auto
termination
  by (relation "measure (\<lambda>(s, pi, addr, n, i). n - i)") auto

declare piperead_loop.simps [simp del]

definition piperead :: "'z kpipe_scheme \<Rightarrow> u64 \<Rightarrow> u64 \<Rightarrow> u32 \<Rightarrow> io \<times> 'z kpipe_scheme" where
  "piperead s pi addr n =
     (if pipe_empty (pipes s pi) \<and> pi_writeopen (pipes s pi) then
        if killed s (curp s) then (IoDone (-1), s) else (IoWait 0, s)
      else
        let (i, s1) = piperead_loop s pi addr (nat (sint n)) 0 in
        (IoDone (int i), wakeup s1 (ChanPipeWrite pi)))"

end
