(* ===== verification/File.thy ===== *)
theory File
  imports Pipe
begin

text \<open>
  Open files, \<^verbatim>\<open>kernel/file.c\<close>, with \<open>pipealloc\<close> of \<^verbatim>\<open>kernel/pipe.c\<close>.  A \<open>struct file *\<close> is a slot of the file
  table.  The device switch has one driver, the console.  Where a read or write has to wait for
  another process the outcome of the call is \<open>Sleep\<close>.
\<close>

definition NFILE :: nat where "NFILE = 100"
definition NDEV :: nat where "NDEV = 10"
definition CONSOLE :: nat where "CONSOLE = 1"

datatype fdtype = FD_NONE | FD_PIPE | FD_INODE | FD_DEVICE

datatype driver = ConsoleDriver

record file_struct =
  f_type :: fdtype
  f_ref :: int
  f_readable :: bool
  f_writable :: bool
  f_pipe :: u64
  f_ip :: nat
  f_off :: u32
  f_major :: u16

record kfile = kpipe +
  files :: "nat \<Rightarrow> file_struct"
  devsw :: "nat \<Rightarrow> driver option"

definition upd_file :: "'z kfile_scheme \<Rightarrow> nat \<Rightarrow> (file_struct \<Rightarrow> file_struct) \<Rightarrow> 'z kfile_scheme" where
  "upd_file s f g = s\<lparr>files := (files s)(f := g (files s f))\<rparr>"

text \<open>\<open>consoleinit\<close> connects the console to the device switch.\<close>

definition consoleinit :: "'z kfile_scheme \<Rightarrow> 'z kfile_scheme" where
  "consoleinit s = s\<lparr>devsw := (devsw s)(CONSOLE := Some ConsoleDriver)\<rparr>"

definition filealloc :: "'z kfile_scheme \<Rightarrow> nat option \<times> 'z kfile_scheme" where
  "filealloc s =
     (case find (\<lambda>f. f_ref (files s f) = 0) [0..<NFILE] of
        Some f \<Rightarrow> (Some f, upd_file s f (\<lambda>x. x\<lparr>f_ref := 1\<rparr>))
      | None \<Rightarrow> (None, s))"

definition filedup :: "'z kfile_scheme \<Rightarrow> nat \<Rightarrow> 'z kfile_scheme res" where
  "filedup s f =
     (if f_ref (files s f) < 1 then Panic ''filedup''
      else Ret (upd_file s f (\<lambda>x. x\<lparr>f_ref := f_ref x + 1\<rparr>)))"

definition fileclose :: "'z kfile_scheme \<Rightarrow> nat \<Rightarrow> 'z kfile_scheme res" where
  "fileclose s f =
     (if f_ref (files s f) < 1 then Panic ''fileclose''
      else
        let s1 = upd_file s f (\<lambda>x. x\<lparr>f_ref := f_ref x - 1\<rparr>) in
        if f_ref (files s1 f) > 0 then Ret s1
        else
          let ff = files s1 f;
              s2 = upd_file s1 f (\<lambda>x. x\<lparr>f_ref := 0, f_type := FD_NONE\<rparr>) in
          case f_type ff of
            FD_PIPE \<Rightarrow> pipeclose s2 (f_pipe ff) (f_writable ff)
          | FD_NONE \<Rightarrow> Ret s2
          | _ \<Rightarrow>
              bindr (begin_op s2) (\<lambda>s3.
              bindr (iput s3 (f_ip ff)) (\<lambda>s4.
                end_op s4)))"

definition close_opt :: "'z kfile_scheme \<Rightarrow> nat option \<Rightarrow> 'z kfile_scheme res" where
  "close_opt s f = (case f of None \<Rightarrow> Ret s | Some f \<Rightarrow> fileclose s f)"

text \<open>
  \<open>pipealloc\<close>: the two files, or nothing after the error path.  Where the error path starts, no page
  has been allocated, so its \<open>if(pi) kfree\<close> has nothing to free.
\<close>

definition pipealloc :: "'z kfile_scheme \<Rightarrow> ((nat \<times> nat) option \<times> 'z kfile_scheme) res" where
  "pipealloc s =
     (let (f0, s1) = filealloc s in
      case f0 of
        None \<Rightarrow> Ret (None, s1)
      | Some f0 \<Rightarrow>
          let (f1, s2) = filealloc s1 in
          (case f1 of
             None \<Rightarrow> bindr (fileclose s2 f0) (\<lambda>s3. Ret (None, s3))
           | Some f1 \<Rightarrow>
               let (pi, s3) = kalloc s2 in
               if pi = 0 then bindr (fileclose s3 f0) (\<lambda>s4. bindr (fileclose s4 f1) (\<lambda>s5. Ret (None, s5)))
               else
                 let s4 = upd_pipe s3 pi (\<lambda>p. p\<lparr>pi_readopen := True, pi_writeopen := True, pi_nwrite := 0, pi_nread := 0\<rparr>);
                     s5 = upd_file s4 f0 (\<lambda>x. x\<lparr>f_type := FD_PIPE, f_readable := True, f_writable := False, f_pipe := pi\<rparr>);
                     s6 = upd_file s5 f1 (\<lambda>x. x\<lparr>f_type := FD_PIPE, f_readable := False, f_writable := True, f_pipe := pi\<rparr>) in
                 Ret (Some (f0, f1), s6)))"

text \<open>
  The 24 bytes of \<open>struct stat\<close>.  Four of them are padding between \<open>nlink\<close> and \<open>size\<close>, which \<open>stati\<close> does not
  set: they are what the kernel stack held, an argument of the model.
\<close>

definition le_bytes :: "nat \<Rightarrow> u64 \<Rightarrow> u8 list" where
  "le_bytes n v = map (\<lambda>i. ucast (drop_bit (8 * i) v)) [0..<n]"

definition stat_bytes :: "stat \<Rightarrow> u8 list \<Rightarrow> u8 list" where
  "stat_bytes st junk =
     le_bytes 4 (ucast (st_dev st)) @ le_bytes 4 (ucast (st_ino st)) @ le_bytes 2 (ucast (st_type st)) @
     le_bytes 2 (ucast (st_nlink st)) @ junk @ le_bytes 8 (st_size st)"

definition filestat :: "'z kfile_scheme \<Rightarrow> u8 list \<Rightarrow> nat \<Rightarrow> u64 \<Rightarrow> (int \<times> 'z kfile_scheme) res" where
  "filestat s junk f addr =
     (if f_type (files s f) = FD_INODE \<or> f_type (files s f) = FD_DEVICE then
        bindr (ilock s (f_ip (files s f))) (\<lambda>s1.
        let st = stati s1 (f_ip (files s1 f)) in
        bindr (iunlock s1 (f_ip (files s1 f))) (\<lambda>s2.
        let (r, s3) = copyout s2 (p_pagetable (myproc s2)) addr (stat_bytes st junk) in
        Ret (if r < 0 then -1 else 0, s3)))
      else Ret (-1, s))"

text \<open>The driver of a device number that is in range and has one.\<close>

definition dev_driver :: "'z kfile_scheme \<Rightarrow> u16 \<Rightarrow> driver option" where
  "dev_driver s mj = (if sint mj < 0 \<or> sint mj \<ge> int NDEV then None else devsw s (unat mj))"

definition wait_io :: "chan \<Rightarrow> io \<times> 's \<Rightarrow> (int \<times> 's) res" where
  "wait_io c r = (case r of (IoDone n, s) \<Rightarrow> Ret (n, s) | (IoWait _, s) \<Rightarrow> Sleep c)"

definition fileread :: "'z kfile_scheme \<Rightarrow> nat \<Rightarrow> u64 \<Rightarrow> u32 \<Rightarrow> (int \<times> 'z kfile_scheme) res" where
  "fileread s f addr n =
     (if \<not> f_readable (files s f) then Ret (-1, s)
      else
        case f_type (files s f) of
          FD_PIPE \<Rightarrow> wait_io (ChanPipeRead (f_pipe (files s f))) (piperead s (f_pipe (files s f)) addr n)
        | FD_DEVICE \<Rightarrow>
            (case dev_driver s (f_major (files s f)) of
               None \<Rightarrow> Ret (-1, s)
             | Some ConsoleDriver \<Rightarrow>
                 let (r, _, s1) = consoleread s (UserDst addr) n in wait_io ChanCons (r, s1))
        | FD_INODE \<Rightarrow>
            bindr (ilock s (f_ip (files s f))) (\<lambda>s1.
            bindr (readi s1 (f_ip (files s1 f)) (UserDst addr) (f_off (files s1 f)) n) (\<lambda>(r, _, s2).
            let s3 = (if sint r > 0 then upd_file s2 f (\<lambda>x. x\<lparr>f_off := f_off x + r\<rparr>) else s2) in
            bindr (iunlock s3 (f_ip (files s3 f))) (\<lambda>s4. Ret (sint r, s4))))
        | FD_NONE \<Rightarrow> Panic ''fileread'')"

text \<open>\<open>max = ((MAXOPBLOCKS-1-1-2) / 2) * BSIZE\<close>: the bytes one transaction of \<open>filewrite\<close> writes.\<close>

definition write_max :: nat where
  "write_max = (nat MAXOPBLOCKS - 1 - 1 - 2) div 2 * BSIZE"

function filewrite_loop ::
  "'z kfile_scheme \<Rightarrow> nat \<Rightarrow> u64 \<Rightarrow> nat \<Rightarrow> nat \<Rightarrow> (nat \<times> 'z kfile_scheme) res"
where
  "filewrite_loop s f addr n i =
     (if i < n then
        let n1 = min (n - i) write_max in
        bindr (begin_op s) (\<lambda>s1.
        bindr (ilock s1 (f_ip (files s1 f))) (\<lambda>s2.
        bindr (writei s2 (f_ip (files s2 f)) (UserSrc (addr + of_nat i)) (f_off (files s2 f)) (of_nat n1)) (\<lambda>(r, s3).
        let s4 = (if sint r > 0 then upd_file s3 f (\<lambda>x. x\<lparr>f_off := f_off x + r\<rparr>) else s3) in
        bindr (iunlock s4 (f_ip (files s4 f))) (\<lambda>s5.
        bindr (end_op s5) (\<lambda>s6.
        if sint r \<noteq> int n1 then Ret (i, s6) else filewrite_loop s6 f addr n (i + n1))))))
      else Ret (i, s))"
  by pat_completeness auto
termination
  by (relation "measure (\<lambda>(s, f, addr, n, i). n - i)") (auto simp: write_max_def MAXOPBLOCKS_def BSIZE_def)

declare filewrite_loop.simps [simp del]

definition filewrite :: "'z kfile_scheme \<Rightarrow> nat \<Rightarrow> u64 \<Rightarrow> u32 \<Rightarrow> (int \<times> 'z kfile_scheme) res" where
  "filewrite s f addr n =
     (if \<not> f_writable (files s f) then Ret (-1, s)
      else
        case f_type (files s f) of
          FD_PIPE \<Rightarrow> wait_io (ChanPipeWrite (f_pipe (files s f))) (pipewrite s (f_pipe (files s f)) addr n)
        | FD_DEVICE \<Rightarrow>
            (case dev_driver s (f_major (files s f)) of
               None \<Rightarrow> Ret (-1, s)
             | Some ConsoleDriver \<Rightarrow> bindr (consolewrite s (UserSrc addr) n) (wait_io ChanUartTx))
        | FD_INODE \<Rightarrow>
            bindr (filewrite_loop s f addr (nat (sint n)) 0) (\<lambda>(i, s1).
            Ret (if int i = sint n then sint n else -1, s1))
        | FD_NONE \<Rightarrow> Panic ''filewrite'')"

end
