(* ===== verification/Exec.thy ===== *)
theory Exec
  imports File
begin

text \<open>
  \<open>exec\<close>, \<^verbatim>\<open>kernel/exec.c\<close>: a new address space is built from an ELF file, filled with the argument
  strings, and replaces the old one only when nothing can fail any more.  The arguments are the
  addresses of kernel pages that hold NUL-terminated strings.  The structures of \<^verbatim>\<open>kernel/elf.h\<close> are read as
  the bytes of the file; the fields are named by offset and size.
\<close>

section \<open>ELF files\<close>

fun le_word :: "u8 list \<Rightarrow> u64" where
  "le_word [] = 0"
| "le_word (b # bs) = ucast b OR push_bit 8 (le_word bs)"

definition field :: "u8 list \<Rightarrow> nat \<Rightarrow> nat \<Rightarrow> u64" where
  "field bs off n = le_word (take n (drop off bs))"

definition ELF_MAGIC :: u64 where "ELF_MAGIC = 0x464C457F"
definition ELF_PROG_LOAD :: u64 where "ELF_PROG_LOAD = 1"
definition ELFHDR_SIZE :: u32 where "ELFHDR_SIZE = 64"
definition PROGHDR_SIZE :: u32 where "PROGHDR_SIZE = 56"
definition MAXARG :: nat where "MAXARG = 32"
definition USERSTACK :: u64 where "USERSTACK = 2"

definition elf_magic :: "u8 list \<Rightarrow> u64" where "elf_magic e = field e 0 4"
definition elf_entry :: "u8 list \<Rightarrow> u64" where "elf_entry e = field e 24 8"
definition elf_phoff :: "u8 list \<Rightarrow> u64" where "elf_phoff e = field e 32 8"
definition elf_phnum :: "u8 list \<Rightarrow> u64" where "elf_phnum e = field e 56 2"
definition ph_type :: "u8 list \<Rightarrow> u64" where "ph_type p = field p 0 4"
definition ph_flags :: "u8 list \<Rightarrow> u64" where "ph_flags p = field p 4 4"
definition ph_off :: "u8 list \<Rightarrow> u64" where "ph_off p = field p 8 8"
definition ph_vaddr :: "u8 list \<Rightarrow> u64" where "ph_vaddr p = field p 16 8"
definition ph_filesz :: "u8 list \<Rightarrow> u64" where "ph_filesz p = field p 32 8"
definition ph_memsz :: "u8 list \<Rightarrow> u64" where "ph_memsz p = field p 40 8"

definition flags2perm :: "u64 \<Rightarrow> u64" where
  "flags2perm flags =
     (let perm = (if flags AND 1 \<noteq> 0 then PTE_X else 0) in
      if flags AND 2 \<noteq> 0 then perm OR PTE_W else perm)"

section \<open>Loading segments\<close>

text \<open>
  \<open>loadseg\<close>.  The counter \<open>i\<close> is 32 bits wide; for a segment that reaches the last page of the 4 GiB it
  wraps to 0 and the loop does not end.
\<close>

function loadseg_loop ::
  "'z kfile_scheme \<Rightarrow> u64 \<Rightarrow> u64 \<Rightarrow> nat \<Rightarrow> u32 \<Rightarrow> u32 \<Rightarrow> u32 \<Rightarrow> (int \<times> 'z kfile_scheme) res"
where
  "loadseg_loop s pagetable va ip offset sz i =
     (if i < sz then
        let pa = walkaddr s pagetable (va + ucast i) in
        if pa = 0 then Panic ''loadseg: address should exist''
        else
          let n = (if sz - i < 4096 then sz - i else 4096) in
          bindr (readi s ip (KernDst pa) (offset + i) n) (\<lambda>(r, _, s1).
          if r \<noteq> n then Ret (-1, s1)
          else if i + 4096 < i then Diverge
          else loadseg_loop s1 pagetable va ip offset sz (i + 4096))
      else Ret (0, s))"
  by pat_completeness auto
termination
proof (relation "measure (\<lambda>(s, pt, va, ip, off, sz, i). 2 ^ 32 - unat i)", goal_cases)
  case (2 s pt va ip off sz i pa n x r y obj s')
  have "unat (i + 4096) = (unat i + 4096) mod 2 ^ 32" by (simp add: unat_word_ariths)
  moreover have "unat i < 2 ^ 32" using unsigned_less [of i, where ?'a = nat] by simp
  moreover have "\<not> i + 4096 < i" using 2 by simp
  ultimately have "unat (i + 4096) = unat i + 4096"
    by (auto simp: word_less_nat_alt mod_if split: if_splits)
  then show ?case using unsigned_less [of i, where ?'a = nat] by simp
qed auto

declare loadseg_loop.simps [simp del]

definition loadseg ::
  "'z kfile_scheme \<Rightarrow> u64 \<Rightarrow> u64 \<Rightarrow> nat \<Rightarrow> u32 \<Rightarrow> u32 \<Rightarrow> (int \<times> 'z kfile_scheme) res"
where
  "loadseg s pagetable va ip offset sz = loadseg_loop s pagetable va ip offset sz 0"

text \<open>The loop over the program headers: the flag is \<open>False\<close> at \<open>goto bad\<close>, with the size reached.\<close>

fun exec_load ::
  "'z kfile_scheme \<Rightarrow> nat \<Rightarrow> u64 \<Rightarrow> nat \<Rightarrow> u32 \<Rightarrow> u64 \<Rightarrow> (bool \<times> u64 \<times> 'z kfile_scheme) res"
where
  "exec_load s ip pagetable 0 off sz = Ret (True, sz, s)"
| "exec_load s ip pagetable (Suc k) off sz =
     bindr (readi s ip (ObjDst 0) off PROGHDR_SIZE) (\<lambda>(r, ph, s1).
     if r \<noteq> PROGHDR_SIZE then Ret (False, sz, s1)
     else if ph_type ph \<noteq> ELF_PROG_LOAD then exec_load s1 ip pagetable k (off + PROGHDR_SIZE) sz
     else if ph_memsz ph < ph_filesz ph then Ret (False, sz, s1)
     else if ph_vaddr ph + ph_memsz ph < ph_vaddr ph then Ret (False, sz, s1)
     else if ph_vaddr ph mod PGSIZE \<noteq> 0 then Ret (False, sz, s1)
     else
       bindr (uvmalloc s1 pagetable sz (ph_vaddr ph + ph_memsz ph) (flags2perm (ph_flags ph))) (\<lambda>(sz1, s2).
       if sz1 = 0 then Ret (False, sz, s2)
       else
         bindr (loadseg s2 pagetable (ph_vaddr ph) ip (ucast (ph_off ph)) (ucast (ph_filesz ph))) (\<lambda>(r, s3).
         if r < 0 then Ret (False, sz1, s3)
         else exec_load s3 ip pagetable k (off + PROGHDR_SIZE) sz1)))"

section \<open>The user stack\<close>

definition align16 :: "u64 \<Rightarrow> u64" where "align16 sp = sp - sp mod 16"

text \<open>The loop that pushes the argument strings: the addresses pushed so far are \<open>ustack\<close>.\<close>

fun exec_args ::
  "'z kfile_scheme \<Rightarrow> u64 \<Rightarrow> u64 \<Rightarrow> u64 list \<Rightarrow> u64 \<Rightarrow> u64 list \<Rightarrow> ((u64 \<times> u64 list) option \<times> 'z kfile_scheme) res"
where
  "exec_args s pagetable stackbase [] sp ustack = Ret (Some (sp, ustack), s)"
| "exec_args s pagetable stackbase (a # argv) sp ustack =
     (if length ustack \<ge> MAXARG then Ret (None, s)
      else
        case strlen (pmem s) a of
          None \<Rightarrow> Diverge
        | Some len \<Rightarrow>
            let sp = align16 (sp - (of_nat len + 1)) in
            if sp < stackbase then Ret (None, s)
            else
              let (r, s1) = copyout s pagetable sp (bytes (pmem s) a (len + 1)) in
              if r < 0 then Ret (None, s1)
              else exec_args s1 pagetable stackbase argv sp (ustack @ [sp]))"

definition push_argv ::
  "'z kfile_scheme \<Rightarrow> u64 \<Rightarrow> u64 \<Rightarrow> u64 list \<Rightarrow> u64 \<Rightarrow> ((u64 \<times> nat) option \<times> 'z kfile_scheme) res"
where
  "push_argv s pagetable stackbase argv sp =
     bindr (exec_args s pagetable stackbase argv sp []) (\<lambda>(r, s1).
     case r of
       None \<Rightarrow> Ret (None, s1)
     | Some (sp, ustack) \<Rightarrow>
         let argc = length ustack;
             sp = align16 (sp - (of_nat argc + 1) * 8) in
         if sp < stackbase then Ret (None, s1)
         else
           let (r, s2) = copyout s1 pagetable sp (concat (map (le_bytes 8) (ustack @ [0]))) in
           Ret (if r < 0 then None else Some (sp, argc), s2))"

section \<open>The call\<close>

definition exec_bad :: "'z kfile_scheme \<Rightarrow> u64 \<Rightarrow> u64 \<Rightarrow> nat option \<Rightarrow> (int \<times> 'z kfile_scheme) res" where
  "exec_bad s pagetable sz ip =
     bindr (if pagetable \<noteq> 0 then proc_freepagetable s pagetable sz else Ret s) (\<lambda>s1.
     case ip of
       None \<Rightarrow> Ret (-1, s1)
     | Some ip \<Rightarrow> bindr (iunlockput s1 ip) (\<lambda>s2. bindr (end_op s2) (\<lambda>s3. Ret (-1, s3))))"

text \<open>\<open>for(last=s=path; *s; s++) if(*s == '/') last = s+1;\<close>\<close>

fun last_elem :: "u8 list \<Rightarrow> u8 list \<Rightarrow> u8 list" where
  "last_elem lst [] = lst"
| "last_elem lst (c # cs) = (if c = 0 then lst else if c = SLASH then last_elem cs cs else last_elem lst cs)"

definition exec_commit ::
  "'z kfile_scheme \<Rightarrow> u8 list \<Rightarrow> u64 \<Rightarrow> u64 \<Rightarrow> u64 \<Rightarrow> u64 \<Rightarrow> 'z kfile_scheme res"
where
  "exec_commit s path pagetable sz entry sp =
     (let p = curp s;
          oldsz = p_sz (procs s p);
          s1 = set_tf s p (tf_a 1) sp;
          s2 = upd_proc s1 p (\<lambda>pr. pr\<lparr>p_name := safestrcpy_arr (p_name pr) (last_elem path path) 15\<rparr>);
          oldpagetable = p_pagetable (procs s2 p);
          s3 = upd_proc s2 p (\<lambda>pr. pr\<lparr>p_pagetable := pagetable, p_sz := sz\<rparr>);
          s4 = set_tf s3 p tf_epc entry;
          s5 = set_tf s4 p tf_sp sp in
      proc_freepagetable s5 oldpagetable oldsz)"

definition exec :: "'z kfile_scheme \<Rightarrow> u8 list \<Rightarrow> u64 list \<Rightarrow> (int \<times> 'z kfile_scheme) res" where
  "exec s path argv =
     bindr (begin_op s) (\<lambda>s1.
     bindr (namei s1 path) (\<lambda>(ip, s2).
     case ip of
       None \<Rightarrow> bindr (end_op s2) (\<lambda>s3. Ret (-1, s3))
     | Some ip \<Rightarrow>
         bindr (ilock s2 ip) (\<lambda>s3.
         bindr (readi s3 ip (ObjDst 0) 0 ELFHDR_SIZE) (\<lambda>(r, elf, s4).
         if r \<noteq> ELFHDR_SIZE then exec_bad s4 0 0 (Some ip)
         else if elf_magic elf \<noteq> ELF_MAGIC then exec_bad s4 0 0 (Some ip)
         else
           bindr (proc_pagetable s4 (curp s4)) (\<lambda>(pagetable, s5).
           if pagetable = 0 then exec_bad s5 0 0 (Some ip)
           else
             bindr (exec_load s5 ip pagetable (unat (elf_phnum elf)) (ucast (elf_phoff elf)) 0) (\<lambda>(ok, sz, s6).
             if \<not> ok then exec_bad s6 pagetable sz (Some ip)
             else
               bindr (iunlockput s6 ip) (\<lambda>s7.
               bindr (end_op s7) (\<lambda>s8.
               let sz = PGROUNDUP sz in
               bindr (uvmalloc s8 pagetable sz (sz + (USERSTACK + 1) * PGSIZE) PTE_W) (\<lambda>(sz1, s9).
               if sz1 = 0 then exec_bad s9 pagetable sz None
               else
                 bindr (uvmclear s9 pagetable (sz1 - (USERSTACK + 1) * PGSIZE)) (\<lambda>s10.
                 let stackbase = sz1 - USERSTACK * PGSIZE in
                 bindr (push_argv s10 pagetable stackbase argv sz1) (\<lambda>(r, s11).
                 case r of
                   None \<Rightarrow> exec_bad s11 pagetable sz1 None
                 | Some (sp, argc) \<Rightarrow>
                     bindr (exec_commit s11 path pagetable sz1 (elf_entry elf) sp) (\<lambda>s12.
                     Ret (int argc, s12)))))))))))))"

end
