(* ===== verification/Process.thy ===== *)
theory Process
  imports Exec
begin

text \<open>
  The life of a process, \<^verbatim>\<open>kernel/proc.c\<close>: \<open>userinit\<close>, \<open>fork\<close>, \<open>exit\<close> and \<open>wait\<close>.  They run in process \<open>curp\<close>;
  \<open>exit_proc\<close> ends in the state in which \<open>exit\<close> enters the scheduler for the last time, and \<open>wait\<close> returns
  \<open>IoWait\<close> where it sleeps until a child exits.
\<close>

definition NOFILE :: nat where "NOFILE = 16"

definition initcode :: "u8 list" where
  "initcode = [
     0x17, 0x05, 0x00, 0x00, 0x13, 0x05, 0x45, 0x02,
     0x97, 0x05, 0x00, 0x00, 0x93, 0x85, 0x35, 0x02,
     0x93, 0x08, 0x70, 0x00, 0x73, 0x00, 0x00, 0x00,
     0x93, 0x08, 0x20, 0x00, 0x73, 0x00, 0x00, 0x00,
     0xef, 0xf0, 0x9f, 0xff, 0x2f, 0x69, 0x6e, 0x69,
     0x74, 0x00, 0x00, 0x24, 0x00, 0x00, 0x00, 0x00,
     0x00, 0x00, 0x00, 0x00]"

text \<open>The bytes of a string literal.\<close>

definition lit :: "string \<Rightarrow> u8 list" where
  "lit cs = map of_char cs"

text \<open>At boot there is a free slot; a null result of \<open>allocproc\<close> would be followed as a pointer.\<close>

definition userinit :: "'z kfile_scheme \<Rightarrow> 'z kfile_scheme res" where
  "userinit s =
     bindr (allocproc s) (\<lambda>(p, s1).
     case p of
       None \<Rightarrow> Panic ''kerneltrap''
     | Some p \<Rightarrow>
         let s2 = s1\<lparr>initproc := Some p\<rparr> in
         bindr (uvmfirst s2 (p_pagetable (procs s2 p)) initcode) (\<lambda>s3.
         let s4 = upd_proc s3 p (\<lambda>pr. pr\<lparr>p_sz := PGSIZE\<rparr>);
             s5 = set_tf s4 p tf_epc 0;
             s6 = set_tf s5 p tf_sp PGSIZE;
             s7 = upd_proc s6 p (\<lambda>pr. pr\<lparr>p_name := safestrcpy_arr (p_name pr) (lit ''initcode'') 15\<rparr>) in
         bindr (namei s7 (lit ''/'')) (\<lambda>(ip, s8).
         Ret (upd_proc s8 p (\<lambda>pr. pr\<lparr>p_cwd := ip, p_state := RUNNABLE\<rparr>)))))"

text \<open>The loop over the descriptors of the parent \<open>p\<close>, from \<open>i\<close> on.\<close>

fun fork_files :: "'z kfile_scheme \<Rightarrow> nat \<Rightarrow> nat \<Rightarrow> nat \<Rightarrow> nat \<Rightarrow> 'z kfile_scheme res" where
  "fork_files s p np i 0 = Ret s"
| "fork_files s p np i (Suc k) =
     (case p_ofile (procs s p) i of
        None \<Rightarrow> fork_files s p np (Suc i) k
      | Some f \<Rightarrow>
          bindr (filedup s f) (\<lambda>s1.
          fork_files (upd_proc s1 np (\<lambda>pr. pr\<lparr>p_ofile := (p_ofile pr)(i := Some f)\<rparr>)) p np (Suc i) k))"

definition fork :: "'z kfile_scheme \<Rightarrow> (int \<times> 'z kfile_scheme) res" where
  "fork s =
     (let p = curp s in
      bindr (allocproc s) (\<lambda>(np, s1).
      case np of
        None \<Rightarrow> Ret (-1, s1)
      | Some np \<Rightarrow>
          bindr (uvmcopy s1 (p_pagetable (procs s1 p)) (p_pagetable (procs s1 np)) (p_sz (procs s1 p))) (\<lambda>(r, s2).
          if r < 0 then bindr (freeproc s2 np) (\<lambda>s3. Ret (-1, s3))
          else
            let s3 = upd_proc s2 np (\<lambda>pr. pr\<lparr>p_sz := p_sz (procs s2 p)\<rparr>);
                s4 = s3\<lparr>pmem := blit (pmem s3) (p_trapframe (procs s3 np)) (p_trapframe (procs s3 p)) tf_size\<rparr>;
                s5 = set_tf s4 np (tf_a 0) 0 in
            bindr (fork_files s5 p np 0 NOFILE) (\<lambda>s6.
            case p_cwd (procs s6 p) of
              None \<Rightarrow> Panic ''kerneltrap''
            | Some cwd \<Rightarrow>
                let s7 = idup s6 cwd;
                    s8 = upd_proc s7 np (\<lambda>pr. pr\<lparr>p_cwd := Some cwd\<rparr>);
                    s9 = upd_proc s8 np (\<lambda>pr. pr\<lparr>p_name := safestrcpy_arr (p_name pr) (p_name (procs s8 p)) 15\<rparr>);
                    pid = p_pid (procs s9 np);
                    s10 = upd_proc s9 np (\<lambda>pr. pr\<lparr>p_parent := Some p\<rparr>);
                    s11 = upd_proc s10 np (\<lambda>pr. pr\<lparr>p_state := RUNNABLE\<rparr>) in
                Ret (sint pid, s11)))))"

fun exit_files :: "'z kfile_scheme \<Rightarrow> nat \<Rightarrow> nat \<Rightarrow> nat \<Rightarrow> 'z kfile_scheme res" where
  "exit_files s p fd 0 = Ret s"
| "exit_files s p fd (Suc k) =
     (case p_ofile (procs s p) fd of
        None \<Rightarrow> exit_files s p (Suc fd) k
      | Some f \<Rightarrow>
          bindr (fileclose s f) (\<lambda>s1.
          exit_files (upd_proc s1 p (\<lambda>pr. pr\<lparr>p_ofile := (p_ofile pr)(fd := None)\<rparr>)) p (Suc fd) k))"

definition exit_proc :: "'z kfile_scheme \<Rightarrow> u32 \<Rightarrow> 'z kfile_scheme res" where
  "exit_proc s status =
     (let p = curp s in
      if initproc s = Some p then Panic ''init exiting''
      else
        bindr (exit_files s p 0 NOFILE) (\<lambda>s1.
        bindr (begin_op s1) (\<lambda>s2.
        bindr (case p_cwd (procs s2 p) of None \<Rightarrow> Panic ''kerneltrap'' | Some cwd \<Rightarrow> iput s2 cwd) (\<lambda>s3.
        bindr (end_op s3) (\<lambda>s4.
        let s5 = upd_proc s4 p (\<lambda>pr. pr\<lparr>p_cwd := None\<rparr>);
            s6 = reparent s5 p;
            s7 = wakeup s6 (chan_of (p_parent (procs s6 p))) in
        Ret (upd_proc s7 p (\<lambda>pr. pr\<lparr>p_xstate := status, p_state := ZOMBIE\<rparr>)))))))"

text \<open>
  One scan of \<open>wait\<close> over the table, from slot \<open>pp\<close> on: \<open>Inl\<close> the result of the call, or \<open>Inr\<close> whether a child was
  seen.
\<close>

fun wait_scan ::
  "'z kfile_scheme \<Rightarrow> nat \<Rightarrow> u64 \<Rightarrow> nat \<Rightarrow> nat \<Rightarrow> bool \<Rightarrow> ((int + bool) \<times> 'z kfile_scheme) res"
where
  "wait_scan s p addr pp 0 havekids = Ret (Inr havekids, s)"
| "wait_scan s p addr pp (Suc k) havekids =
     (if p_parent (procs s pp) = Some p then
        if p_state (procs s pp) = ZOMBIE then
          let pid = p_pid (procs s pp);
              (r, s1) = (if addr \<noteq> 0
                         then copyout s (p_pagetable (procs s p)) addr (le_bytes 4 (ucast (p_xstate (procs s pp))))
                         else (0, s)) in
          if r < 0 then Ret (Inl (-1), s1)
          else bindr (freeproc s1 pp) (\<lambda>s2. Ret (Inl (sint pid), s2))
        else wait_scan s p addr (Suc pp) k True
      else wait_scan s p addr (Suc pp) k havekids)"

definition wait :: "'z kfile_scheme \<Rightarrow> u64 \<Rightarrow> (io \<times> 'z kfile_scheme) res" where
  "wait s addr =
     (let p = curp s in
      bindr (wait_scan s p addr 0 NPROC False) (\<lambda>(r, s1).
      case r of
        Inl pid \<Rightarrow> Ret (IoDone pid, s1)
      | Inr havekids \<Rightarrow>
          if \<not> havekids \<or> killed s1 p then Ret (IoDone (-1), s1) else Ret (IoWait 0, s1)))"

end
