(* ===== verification/Syscall.thy ===== *)
theory Syscall
  imports Process
begin

text \<open>
  System calls: argument fetching and dispatch (\<^verbatim>\<open>kernel/syscall.c\<close>), the process calls
  (\<^verbatim>\<open>kernel/sysproc.c\<close>) and the file calls (\<^verbatim>\<open>kernel/sysfile.c\<close>).  A handler gives the 64-bit value for
  \<open>a0\<close>, and \<open>None\<close> if it does not return; a call that has to wait for another process ends in \<open>Sleep\<close>.
  \<open>junk\<close> stands for the bytes of the kernel stack that \<open>fstat\<close> copies with the padding of \<open>struct stat\<close>.
\<close>

definition MAXPATH :: nat where "MAXPATH = 128"

definition neg1 :: u64 where "neg1 = -1"

definition ret_int :: "int \<Rightarrow> u64" where "ret_int r = word_of_int r"

section \<open>Arguments\<close>

definition fetchaddr :: "'z kfile_scheme \<Rightarrow> u64 \<Rightarrow> u64 option" where
  "fetchaddr s addr =
     (if addr \<ge> p_sz (myproc s) \<or> addr + 8 > p_sz (myproc s) then None
      else
        let (r, bs) = copyin s (p_pagetable (myproc s)) addr 8 in
        if r \<noteq> 0 then None else Some (le_word bs))"

text \<open>\<open>fetchstr\<close>: the bytes before the NUL; their number is the value the code returns.\<close>

definition fetchstr :: "'z kfile_scheme \<Rightarrow> u64 \<Rightarrow> nat \<Rightarrow> u8 list option" where
  "fetchstr s addr mx =
     (let (r, bs) = copyinstr s (p_pagetable (myproc s)) addr mx in
      if r < 0 then None else Some (name_of bs))"

definition argraw :: "'z kfile_scheme \<Rightarrow> nat \<Rightarrow> u64 res" where
  "argraw s n = (if n \<le> 5 then Ret (get_tf s (curp s) (tf_a n)) else Panic ''argraw'')"

definition argint :: "'z kfile_scheme \<Rightarrow> nat \<Rightarrow> u32" where
  "argint s n = ucast (get_tf s (curp s) (tf_a n))"

definition argaddr :: "'z kfile_scheme \<Rightarrow> nat \<Rightarrow> u64" where
  "argaddr s n = get_tf s (curp s) (tf_a n)"

definition argstr :: "'z kfile_scheme \<Rightarrow> nat \<Rightarrow> nat \<Rightarrow> u8 list option" where
  "argstr s n mx = fetchstr s (argaddr s n) mx"

section \<open>Process calls\<close>

definition sys_getpid :: "'z kfile_scheme \<Rightarrow> u64" where
  "sys_getpid s = scast (p_pid (myproc s))"

definition sys_exit :: "'z kfile_scheme \<Rightarrow> (u64 option \<times> 'z kfile_scheme) res" where
  "sys_exit s = bindr (exit_proc s (argint s 0)) (\<lambda>s1. Ret (None, s1))"

definition sys_fork :: "'z kfile_scheme \<Rightarrow> (u64 \<times> 'z kfile_scheme) res" where
  "sys_fork s = bindr (fork s) (\<lambda>(r, s1). Ret (ret_int r, s1))"

definition sys_wait :: "'z kfile_scheme \<Rightarrow> (u64 \<times> 'z kfile_scheme) res" where
  "sys_wait s =
     bindr (wait s (argaddr s 0)) (\<lambda>r.
     bindr (wait_io (ChanProc (curp s)) r) (\<lambda>(r, s1). Ret (ret_int r, s1)))"

definition sys_sbrk :: "'z kfile_scheme \<Rightarrow> (u64 \<times> 'z kfile_scheme) res" where
  "sys_sbrk s =
     (let addr = p_sz (myproc s) in
      bindr (growproc s (argint s 0)) (\<lambda>(r, s1). Ret (if r < 0 then neg1 else addr, s1)))"

text \<open>\<open>sys_sleep\<close> with \<open>ticks0\<close> the time of the call; the comparison is unsigned.\<close>

definition sys_sleep_from :: "'z kfile_scheme \<Rightarrow> u32 \<Rightarrow> (u64 \<times> 'z kfile_scheme) res" where
  "sys_sleep_from s ticks0 =
     (let n = (if sint (argint s 0) < 0 then 0 else argint s 0) in
      if ticks s - ticks0 < n then
        if killed s (curp s) then Ret (neg1, s) else Sleep ChanTicks
      else Ret (0, s))"

definition sys_sleep :: "'z kfile_scheme \<Rightarrow> (u64 \<times> 'z kfile_scheme) res" where
  "sys_sleep s = sys_sleep_from s (ticks s)"

definition sys_kill :: "'z kfile_scheme \<Rightarrow> u64 \<times> 'z kfile_scheme" where
  "sys_kill s = (let (r, s1) = kill s (argint s 0) in (ret_int r, s1))"

definition sys_uptime :: "'z kfile_scheme \<Rightarrow> u64" where
  "sys_uptime s = ucast (ticks s)"

section \<open>Descriptors\<close>

definition argfd :: "'z kfile_scheme \<Rightarrow> nat \<Rightarrow> (nat \<times> nat) option" where
  "argfd s n =
     (let fd = argint s n in
      if sint fd < 0 \<or> sint fd \<ge> int NOFILE then None
      else
        case p_ofile (myproc s) (unat fd) of
          None \<Rightarrow> None
        | Some f \<Rightarrow> Some (unat fd, f))"

definition set_ofile :: "'z kfile_scheme \<Rightarrow> nat \<Rightarrow> nat option \<Rightarrow> 'z kfile_scheme" where
  "set_ofile s fd f = upd_proc s (curp s) (\<lambda>pr. pr\<lparr>p_ofile := (p_ofile pr)(fd := f)\<rparr>)"

definition fdalloc :: "'z kfile_scheme \<Rightarrow> nat \<Rightarrow> nat option \<times> 'z kfile_scheme" where
  "fdalloc s f =
     (case find (\<lambda>fd. p_ofile (myproc s) fd = None) [0..<NOFILE] of
        Some fd \<Rightarrow> (Some fd, set_ofile s fd (Some f))
      | None \<Rightarrow> (None, s))"

definition sys_dup :: "'z kfile_scheme \<Rightarrow> (u64 \<times> 'z kfile_scheme) res" where
  "sys_dup s =
     (case argfd s 0 of
        None \<Rightarrow> Ret (neg1, s)
      | Some (_, f) \<Rightarrow>
          let (fd, s1) = fdalloc s f in
          case fd of
            None \<Rightarrow> Ret (neg1, s1)
          | Some fd \<Rightarrow> bindr (filedup s1 f) (\<lambda>s2. Ret (of_nat fd, s2)))"

definition sys_read :: "'z kfile_scheme \<Rightarrow> (u64 \<times> 'z kfile_scheme) res" where
  "sys_read s =
     (case argfd s 0 of
        None \<Rightarrow> Ret (neg1, s)
      | Some (_, f) \<Rightarrow> bindr (fileread s f (argaddr s 1) (argint s 2)) (\<lambda>(r, s1). Ret (ret_int r, s1)))"

definition sys_write :: "'z kfile_scheme \<Rightarrow> (u64 \<times> 'z kfile_scheme) res" where
  "sys_write s =
     (case argfd s 0 of
        None \<Rightarrow> Ret (neg1, s)
      | Some (_, f) \<Rightarrow> bindr (filewrite s f (argaddr s 1) (argint s 2)) (\<lambda>(r, s1). Ret (ret_int r, s1)))"

definition sys_close :: "'z kfile_scheme \<Rightarrow> (u64 \<times> 'z kfile_scheme) res" where
  "sys_close s =
     (case argfd s 0 of
        None \<Rightarrow> Ret (neg1, s)
      | Some (fd, f) \<Rightarrow> bindr (fileclose (set_ofile s fd None) f) (\<lambda>s1. Ret (0, s1)))"

definition sys_fstat :: "'z kfile_scheme \<Rightarrow> u8 list \<Rightarrow> (u64 \<times> 'z kfile_scheme) res" where
  "sys_fstat s junk =
     (case argfd s 0 of
        None \<Rightarrow> Ret (neg1, s)
      | Some (_, f) \<Rightarrow> bindr (filestat s junk f (argaddr s 1)) (\<lambda>(r, s1). Ret (ret_int r, s1)))"

end
