(* ===== verification/Sysfile.thy ===== *)
theory Sysfile
  imports Syscall
begin

text \<open>
  The system calls of \<^verbatim>\<open>kernel/sysfile.c\<close> that work on path names, \<open>exec\<close> and \<open>pipe\<close>, and the dispatcher
  \<open>syscall\<close> of \<^verbatim>\<open>kernel/syscall.c\<close>.  A jump to a label (\<open>bad\<close>, \<open>fail\<close>) is a call of the definition of
  that name.
\<close>

definition O_RDONLY :: u32 where "O_RDONLY = 0"
definition O_WRONLY :: u32 where "O_WRONLY = 1"
definition O_RDWR :: u32 where "O_RDWR = 2"
definition O_CREATE :: u32 where "O_CREATE = 0x200"
definition O_TRUNC :: u32 where "O_TRUNC = 0x400"

text \<open>Every exit of a transaction that returns -1.\<close>

definition end_fail :: "'z kfile_scheme \<Rightarrow> (u64 \<times> 'z kfile_scheme) res" where
  "end_fail s = bindr (end_op s) (\<lambda>s1. Ret (neg1, s1))"

definition put_fail :: "'z kfile_scheme \<Rightarrow> nat \<Rightarrow> (u64 \<times> 'z kfile_scheme) res" where
  "put_fail s ip = bindr (iunlockput s ip) end_fail"

section \<open>Links\<close>

definition link_bad :: "'z kfile_scheme \<Rightarrow> nat \<Rightarrow> (u64 \<times> 'z kfile_scheme) res" where
  "link_bad s ip =
     bindr (ilock s ip) (\<lambda>s1.
     let s2 = upd_inode s1 ip (\<lambda>i. i\<lparr>i_nlink := i_nlink i - 1\<rparr>) in
     bindr (iupdate s2 ip) (\<lambda>s3. put_fail s3 ip))"

definition sys_link :: "'z kfile_scheme \<Rightarrow> (u64 \<times> 'z kfile_scheme) res" where
  "sys_link s =
     (case argstr s 0 MAXPATH of
        None \<Rightarrow> Ret (neg1, s)
      | Some old \<Rightarrow>
     (case argstr s 1 MAXPATH of
        None \<Rightarrow> Ret (neg1, s)
      | Some new \<Rightarrow>
          bindr (begin_op s) (\<lambda>s1.
          bindr (namei s1 old) (\<lambda>(ip, s2).
          case ip of
            None \<Rightarrow> end_fail s2
          | Some ip \<Rightarrow>
              bindr (ilock s2 ip) (\<lambda>s3.
              if i_type (inodes s3 ip) = T_DIR then put_fail s3 ip
              else
                let s4 = upd_inode s3 ip (\<lambda>i. i\<lparr>i_nlink := i_nlink i + 1\<rparr>) in
                bindr (iupdate s4 ip) (\<lambda>s5.
                bindr (iunlock s5 ip) (\<lambda>s6.
                bindr (nameiparent s6 new (replicate DIRSIZ 0)) (\<lambda>(dp, nm, s7).
                case dp of
                  None \<Rightarrow> link_bad s7 ip
                | Some dp \<Rightarrow>
                    bindr (ilock s7 dp) (\<lambda>s8.
                    bindr (if i_dev (inodes s8 dp) \<noteq> i_dev (inodes s8 ip) then Ret (-1, s8)
                           else dirlink s8 dp nm (i_inum (inodes s8 ip))) (\<lambda>(r, s9).
                    if r < 0 then bindr (iunlockput s9 dp) (\<lambda>s10. link_bad s10 ip)
                    else
                      bindr (iunlockput s9 dp) (\<lambda>s10.
                      bindr (iput s10 ip) (\<lambda>s11.
                      bindr (end_op s11) (\<lambda>s12. Ret (0, s12))))))))))))))"

function isdirempty_loop :: "'z kfile_scheme \<Rightarrow> nat \<Rightarrow> u32 \<Rightarrow> u32 \<Rightarrow> (bool \<times> 'z kfile_scheme) res" where
  "isdirempty_loop s dp off sz =
     (if off < sz then
        bindr (readi s dp (ObjDst 0) off DESIZE) (\<lambda>(r, de, s1).
        if r \<noteq> DESIZE then Panic ''isdirempty: readi''
        else if de_inum de \<noteq> 0 then Ret (False, s1)
        else isdirempty_loop s1 dp (off + DESIZE) sz)
      else Ret (True, s))"
  by pat_completeness auto
termination
  by (relation "measure (\<lambda>(s, dp, off, sz). unat sz - unat off)") (auto intro: dirent_step_decreases)

declare isdirempty_loop.simps [simp del]

definition isdirempty :: "'z kfile_scheme \<Rightarrow> nat \<Rightarrow> (bool \<times> 'z kfile_scheme) res" where
  "isdirempty s dp = isdirempty_loop s dp (2 * DESIZE) (i_size (inodes s dp))"

definition DOT :: "u8 list" where "DOT = lit ''.''"
definition DOTDOT :: "u8 list" where "DOTDOT = lit ''..''"

text \<open>The part of \<open>sys_unlink\<close> after the entry has been found and its inode locked.\<close>

definition unlink_entry :: "'z kfile_scheme \<Rightarrow> nat \<Rightarrow> nat \<Rightarrow> u32 \<Rightarrow> (u64 \<times> 'z kfile_scheme) res" where
  "unlink_entry s dp ip off =
     bindr (writei s dp (ObjSrc (replicate 16 0)) off DESIZE) (\<lambda>(r, s1).
     if r \<noteq> DESIZE then Panic ''unlink: writei''
     else
       bindr (if i_type (inodes s1 ip) = T_DIR
              then iupdate (upd_inode s1 dp (\<lambda>i. i\<lparr>i_nlink := i_nlink i - 1\<rparr>)) dp else Ret s1) (\<lambda>s2.
       bindr (iunlockput s2 dp) (\<lambda>s3.
       let s4 = upd_inode s3 ip (\<lambda>i. i\<lparr>i_nlink := i_nlink i - 1\<rparr>) in
       bindr (iupdate s4 ip) (\<lambda>s5.
       bindr (iunlockput s5 ip) (\<lambda>s6.
       bindr (end_op s6) (\<lambda>s7. Ret (0, s7)))))))"

definition sys_unlink :: "'z kfile_scheme \<Rightarrow> (u64 \<times> 'z kfile_scheme) res" where
  "sys_unlink s =
     (case argstr s 0 MAXPATH of
        None \<Rightarrow> Ret (neg1, s)
      | Some path \<Rightarrow>
          bindr (begin_op s) (\<lambda>s1.
          bindr (nameiparent s1 path (replicate DIRSIZ 0)) (\<lambda>(dp, nm, s2).
          case dp of
            None \<Rightarrow> end_fail s2
          | Some dp \<Rightarrow>
              bindr (ilock s2 dp) (\<lambda>s3.
              if namecmp nm DOT = 0 \<or> namecmp nm DOTDOT = 0 then put_fail s3 dp
              else
                bindr (dirlookup s3 dp nm) (\<lambda>(found, s4).
                case found of
                  None \<Rightarrow> put_fail s4 dp
                | Some (ip, off) \<Rightarrow>
                    bindr (ilock s4 ip) (\<lambda>s5.
                    if sint (i_nlink (inodes s5 ip)) < 1 then Panic ''unlink: nlink < 1''
                    else
                      bindr (if i_type (inodes s5 ip) = T_DIR then isdirempty s5 ip else Ret (True, s5)) (\<lambda>(ok, s6).
                      if \<not> ok then bindr (iunlockput s6 ip) (\<lambda>s7. put_fail s7 dp)
                      else unlink_entry s6 dp ip off)))))))"

section \<open>Creating files\<close>

definition create_fail :: "'z kfile_scheme \<Rightarrow> nat \<Rightarrow> nat \<Rightarrow> (nat option \<times> 'z kfile_scheme) res" where
  "create_fail s dp ip =
     (let s1 = upd_inode s ip (\<lambda>i. i\<lparr>i_nlink := 0\<rparr>) in
      bindr (iupdate s1 ip) (\<lambda>s2.
      bindr (iunlockput s2 ip) (\<lambda>s3.
      bindr (iunlockput s3 dp) (\<lambda>s4. Ret (None, s4)))))"

text \<open>The entries \<open>.\<close> and \<open>..\<close> of a new directory.\<close>

definition link_dots :: "'z kfile_scheme \<Rightarrow> nat \<Rightarrow> nat \<Rightarrow> (int \<times> 'z kfile_scheme) res" where
  "link_dots s dp ip =
     bindr (dirlink s ip DOT (i_inum (inodes s ip))) (\<lambda>(r, s1).
     if r < 0 then Ret (-1, s1) else dirlink s1 ip DOTDOT (i_inum (inodes s1 dp)))"

definition create ::
  "'z kfile_scheme \<Rightarrow> u8 list \<Rightarrow> u16 \<Rightarrow> u16 \<Rightarrow> u16 \<Rightarrow> (nat option \<times> 'z kfile_scheme) res"
where
  "create s path type mj mn =
     bindr (nameiparent s path (replicate DIRSIZ 0)) (\<lambda>(dp, nm, s1).
     case dp of
       None \<Rightarrow> Ret (None, s1)
     | Some dp \<Rightarrow>
         bindr (ilock s1 dp) (\<lambda>s2.
         bindr (dirlookup s2 dp nm) (\<lambda>(found, s3).
         case found of
           Some (ip, _) \<Rightarrow>
             bindr (iunlockput s3 dp) (\<lambda>s4.
             bindr (ilock s4 ip) (\<lambda>s5.
             if type = T_FILE \<and> (i_type (inodes s5 ip) = T_FILE \<or> i_type (inodes s5 ip) = T_DEVICE)
             then Ret (Some ip, s5)
             else bindr (iunlockput s5 ip) (\<lambda>s6. Ret (None, s6))))
         | None \<Rightarrow>
             bindr (ialloc s3 (i_dev (inodes s3 dp)) type) (\<lambda>(ip, s4).
             case ip of
               None \<Rightarrow> bindr (iunlockput s4 dp) (\<lambda>s5. Ret (None, s5))
             | Some ip \<Rightarrow>
                 bindr (ilock s4 ip) (\<lambda>s5.
                 let s6 = upd_inode s5 ip (\<lambda>i. i\<lparr>i_major := mj, i_minor := mn, i_nlink := 1\<rparr>) in
                 bindr (iupdate s6 ip) (\<lambda>s7.
                 bindr (if type = T_DIR then link_dots s7 dp ip else Ret (0, s7)) (\<lambda>(r, s8).
                 if r < 0 then create_fail s8 dp ip
                 else
                   bindr (dirlink s8 dp nm (i_inum (inodes s8 ip))) (\<lambda>(r, s9).
                   if r < 0 then create_fail s9 dp ip
                   else
                     bindr (if type = T_DIR
                            then iupdate (upd_inode s9 dp (\<lambda>i. i\<lparr>i_nlink := i_nlink i + 1\<rparr>)) dp
                            else Ret s9) (\<lambda>s10.
                     bindr (iunlockput s10 dp) (\<lambda>s11. Ret (Some ip, s11)))))))))))"

text \<open>The inode that \<open>sys_open\<close> opens, locked, or \<open>None\<close> after \<open>end_op\<close>.\<close>

definition open_inode :: "'z kfile_scheme \<Rightarrow> u8 list \<Rightarrow> u32 \<Rightarrow> (nat option \<times> 'z kfile_scheme) res" where
  "open_inode s path omode =
     (if omode AND O_CREATE \<noteq> 0 then
        bindr (create s path T_FILE 0 0) (\<lambda>(ip, s1).
        case ip of
          None \<Rightarrow> bindr (end_op s1) (\<lambda>s2. Ret (None, s2))
        | Some ip \<Rightarrow> Ret (Some ip, s1))
      else
        bindr (namei s path) (\<lambda>(ip, s1).
        case ip of
          None \<Rightarrow> bindr (end_op s1) (\<lambda>s2. Ret (None, s2))
        | Some ip \<Rightarrow>
            bindr (ilock s1 ip) (\<lambda>s2.
            if i_type (inodes s2 ip) = T_DIR \<and> omode \<noteq> O_RDONLY
            then bindr (put_fail s2 ip) (\<lambda>(_, s3). Ret (None, s3))
            else Ret (Some ip, s2))))"

text \<open>The descriptor: a file and a slot, or -1 with the file closed again.\<close>

definition open_fd :: "'z kfile_scheme \<Rightarrow> ((nat \<times> nat) option \<times> 'z kfile_scheme) res" where
  "open_fd s =
     (let (f, s1) = filealloc s in
      case f of
        None \<Rightarrow> Ret (None, s1)
      | Some f \<Rightarrow>
          let (fd, s2) = fdalloc s1 f in
          (case fd of
             None \<Rightarrow> bindr (fileclose s2 f) (\<lambda>s3. Ret (None, s3))
           | Some fd \<Rightarrow> Ret (Some (f, fd), s2)))"

definition open_file :: "'z kfile_scheme \<Rightarrow> nat \<Rightarrow> nat \<Rightarrow> u32 \<Rightarrow> 'z kfile_scheme" where
  "open_file s f ip omode =
     (let s1 = (if i_type (inodes s ip) = T_DEVICE
                then upd_file s f (\<lambda>x. x\<lparr>f_type := FD_DEVICE, f_major := i_major (inodes s ip)\<rparr>)
                else upd_file s f (\<lambda>x. x\<lparr>f_type := FD_INODE, f_off := 0\<rparr>)) in
      upd_file s1 f (\<lambda>x. x\<lparr>f_ip := ip, f_readable := (omode AND O_WRONLY = 0),
        f_writable := (omode AND O_WRONLY \<noteq> 0 \<or> omode AND O_RDWR \<noteq> 0)\<rparr>))"

definition sys_open :: "'z kfile_scheme \<Rightarrow> (u64 \<times> 'z kfile_scheme) res" where
  "sys_open s =
     (let omode = argint s 1 in
      case argstr s 0 MAXPATH of
        None \<Rightarrow> Ret (neg1, s)
      | Some path \<Rightarrow>
          bindr (begin_op s) (\<lambda>s1.
          bindr (open_inode s1 path omode) (\<lambda>(ip, s2).
          case ip of
            None \<Rightarrow> Ret (neg1, s2)
          | Some ip \<Rightarrow>
              if i_type (inodes s2 ip) = T_DEVICE \<and>
                 (sint (i_major (inodes s2 ip)) < 0 \<or> sint (i_major (inodes s2 ip)) \<ge> int NDEV)
              then put_fail s2 ip
              else
                bindr (open_fd s2) (\<lambda>(r, s3).
                case r of
                  None \<Rightarrow> put_fail s3 ip
                | Some (f, fd) \<Rightarrow>
                    let s4 = open_file s3 f ip omode in
                    bindr (if omode AND O_TRUNC \<noteq> 0 \<and> i_type (inodes s4 ip) = T_FILE
                           then itrunc s4 ip else Ret s4) (\<lambda>s5.
                    bindr (iunlock s5 ip) (\<lambda>s6.
                    bindr (end_op s6) (\<lambda>s7. Ret (of_nat fd, s7))))))))"

definition put_done :: "'z kfile_scheme \<Rightarrow> nat option \<Rightarrow> (u64 \<times> 'z kfile_scheme) res" where
  "put_done s ip =
     (case ip of
        None \<Rightarrow> end_fail s
      | Some ip \<Rightarrow> bindr (iunlockput s ip) (\<lambda>s1. bindr (end_op s1) (\<lambda>s2. Ret (0, s2))))"

definition sys_mkdir :: "'z kfile_scheme \<Rightarrow> (u64 \<times> 'z kfile_scheme) res" where
  "sys_mkdir s =
     bindr (begin_op s) (\<lambda>s1.
     case argstr s1 0 MAXPATH of
       None \<Rightarrow> end_fail s1
     | Some path \<Rightarrow> bindr (create s1 path T_DIR 0 0) (\<lambda>(ip, s2). put_done s2 ip))"

definition sys_mknod :: "'z kfile_scheme \<Rightarrow> (u64 \<times> 'z kfile_scheme) res" where
  "sys_mknod s =
     bindr (begin_op s) (\<lambda>s1.
     let mj = argint s1 1; mn = argint s1 2 in
     case argstr s1 0 MAXPATH of
       None \<Rightarrow> end_fail s1
     | Some path \<Rightarrow> bindr (create s1 path T_DEVICE (ucast mj) (ucast mn)) (\<lambda>(ip, s2). put_done s2 ip))"

definition sys_chdir :: "'z kfile_scheme \<Rightarrow> (u64 \<times> 'z kfile_scheme) res" where
  "sys_chdir s =
     bindr (begin_op s) (\<lambda>s1.
     case argstr s1 0 MAXPATH of
       None \<Rightarrow> end_fail s1
     | Some path \<Rightarrow>
         bindr (namei s1 path) (\<lambda>(ip, s2).
         case ip of
           None \<Rightarrow> end_fail s2
         | Some ip \<Rightarrow>
             bindr (ilock s2 ip) (\<lambda>s3.
             if i_type (inodes s3 ip) \<noteq> T_DIR then put_fail s3 ip
             else
               bindr (iunlock s3 ip) (\<lambda>s4.
               bindr (case p_cwd (myproc s4) of None \<Rightarrow> Panic ''kerneltrap'' | Some cwd \<Rightarrow> iput s4 cwd) (\<lambda>s5.
               bindr (end_op s5) (\<lambda>s6.
               Ret (0, upd_proc s6 (curp s6) (\<lambda>pr. pr\<lparr>p_cwd := Some ip\<rparr>))))))))"

section \<open>exec and pipe\<close>

text \<open>
  \<open>sys_exec\<close> fetches the argument strings, each into a page of its own.  The result is the list of pages
  allocated so far, with \<open>False\<close> at \<open>goto bad\<close>.
\<close>

definition copy_arg :: "'z kfile_scheme \<Rightarrow> u64 \<Rightarrow> u64 \<Rightarrow> bool \<times> 'z kfile_scheme" where
  "copy_arg s page uarg =
     (let (r, bs) = copyinstr s (p_pagetable (myproc s)) uarg (unat PGSIZE) in
      (r \<ge> 0, s\<lparr>pmem := store_bytes (pmem s) page bs\<rparr>))"

fun exec_argv ::
  "'z kfile_scheme \<Rightarrow> u64 \<Rightarrow> nat \<Rightarrow> u64 list \<Rightarrow> (bool \<times> u64 list \<times> 'z kfile_scheme)"
where
  "exec_argv s uargv 0 argv = (False, argv, s)"
| "exec_argv s uargv (Suc k) argv =
     (case fetchaddr s (uargv + 8 * of_nat (length argv)) of
        None \<Rightarrow> (False, argv, s)
      | Some uarg \<Rightarrow>
          if uarg = 0 then (True, argv, s)
          else
            let (page, s1) = kalloc s in
            if page = 0 then (False, argv, s1)
            else
              let (ok, s2) = copy_arg s1 page uarg in
              if \<not> ok then (False, argv @ [page], s2) else exec_argv s2 uargv k (argv @ [page]))"

fun kfree_all :: "'z kfile_scheme \<Rightarrow> u64 list \<Rightarrow> 'z kfile_scheme res" where
  "kfree_all s [] = Ret s"
| "kfree_all s (a # as) = bindr (kfree s a) (\<lambda>s1. kfree_all s1 as)"

definition sys_exec :: "'z kfile_scheme \<Rightarrow> (u64 \<times> 'z kfile_scheme) res" where
  "sys_exec s =
     (let uargv = argaddr s 1 in
      case argstr s 0 MAXPATH of
        None \<Rightarrow> Ret (neg1, s)
      | Some path \<Rightarrow>
          let (ok, argv, s1) = exec_argv s uargv MAXARG [] in
          if \<not> ok then bindr (kfree_all s1 argv) (\<lambda>s2. Ret (neg1, s2))
          else
            bindr (exec s1 path argv) (\<lambda>(r, s2).
            bindr (kfree_all s2 argv) (\<lambda>s3. Ret (ret_int r, s3))))"

definition pipe_fail :: "'z kfile_scheme \<Rightarrow> nat \<Rightarrow> nat \<Rightarrow> (u64 \<times> 'z kfile_scheme) res" where
  "pipe_fail s rfile wfile = bindr (fileclose s rfile) (\<lambda>s1. bindr (fileclose s1 wfile) (\<lambda>s2. Ret (neg1, s2)))"

definition sys_pipe :: "'z kfile_scheme \<Rightarrow> (u64 \<times> 'z kfile_scheme) res" where
  "sys_pipe s =
     (let fdarray = argaddr s 0 in
      bindr (pipealloc s) (\<lambda>(r, s1).
      case r of
        None \<Rightarrow> Ret (neg1, s1)
      | Some (rfile, wfile) \<Rightarrow>
          let (fd0, s2) = fdalloc s1 rfile in
          (case fd0 of
             None \<Rightarrow> pipe_fail s2 rfile wfile
           | Some fd0 \<Rightarrow>
               let (fd1, s3) = fdalloc s2 wfile in
               (case fd1 of
                  None \<Rightarrow> pipe_fail (set_ofile s3 fd0 None) rfile wfile
                | Some fd1 \<Rightarrow>
                    let pt = p_pagetable (myproc s3);
                        (r0, s4) = copyout s3 pt fdarray (le_bytes 4 (of_nat fd0));
                        (r1, s5) = (if r0 < 0 then (-1, s4) else copyout s4 pt (fdarray + 4) (le_bytes 4 (of_nat fd1))) in
                    if r1 < 0 then pipe_fail (set_ofile (set_ofile s5 fd0 None) fd1 None) rfile wfile
                    else Ret (0, s5)))))"

section \<open>Dispatch\<close>

definition some_ret :: "(u64 \<times> 's) res \<Rightarrow> (u64 option \<times> 's) res" where
  "some_ret r = bindr r (\<lambda>(v, s). Ret (Some v, s))"

text \<open>The table \<open>syscalls\<close>, indexed by the numbers of \<^verbatim>\<open>kernel/syscall.h\<close>.\<close>

definition syscalls :: "u8 list \<Rightarrow> nat \<Rightarrow> ('z kfile_scheme \<Rightarrow> (u64 option \<times> 'z kfile_scheme) res) option" where
  "syscalls junk num =
     (if num = 1 then Some (\<lambda>s. some_ret (sys_fork s))
      else if num = 2 then Some sys_exit
      else if num = 3 then Some (\<lambda>s. some_ret (sys_wait s))
      else if num = 4 then Some (\<lambda>s. some_ret (sys_pipe s))
      else if num = 5 then Some (\<lambda>s. some_ret (sys_read s))
      else if num = 6 then Some (\<lambda>s. some_ret (Ret (sys_kill s)))
      else if num = 7 then Some (\<lambda>s. some_ret (sys_exec s))
      else if num = 8 then Some (\<lambda>s. some_ret (sys_fstat s junk))
      else if num = 9 then Some (\<lambda>s. some_ret (sys_chdir s))
      else if num = 10 then Some (\<lambda>s. some_ret (sys_dup s))
      else if num = 11 then Some (\<lambda>s. some_ret (Ret (sys_getpid s, s)))
      else if num = 12 then Some (\<lambda>s. some_ret (sys_sbrk s))
      else if num = 13 then Some (\<lambda>s. some_ret (sys_sleep s))
      else if num = 14 then Some (\<lambda>s. some_ret (Ret (sys_uptime s, s)))
      else if num = 15 then Some (\<lambda>s. some_ret (sys_open s))
      else if num = 16 then Some (\<lambda>s. some_ret (sys_write s))
      else if num = 17 then Some (\<lambda>s. some_ret (sys_mknod s))
      else if num = 18 then Some (\<lambda>s. some_ret (sys_unlink s))
      else if num = 19 then Some (\<lambda>s. some_ret (sys_link s))
      else if num = 20 then Some (\<lambda>s. some_ret (sys_mkdir s))
      else if num = 21 then Some (\<lambda>s. some_ret (sys_close s))
      else None)"

definition tf_a7 :: u64 where "tf_a7 = tf_a 7"

text \<open>\<open>syscall\<close>: the flag says that the process runs on; it is \<open>False\<close> when the handler does not return.\<close>

definition syscall :: "'z kfile_scheme \<Rightarrow> u8 list \<Rightarrow> (bool \<times> 'z kfile_scheme) res" where
  "syscall s junk =
     (let p = curp s;
          num = (ucast (get_tf s p tf_a7) :: u32) in
      if sint num > 0 \<and> sint num < 22 then
        (case syscalls junk (unat num) of
           Some h \<Rightarrow>
             bindr (h s) (\<lambda>(r, s1).
             case r of
               Some v \<Rightarrow> Ret (True, set_tf s1 p (tf_a 0) v)
             | None \<Rightarrow> Ret (False, s1))
         | None \<Rightarrow> Ret (True, set_tf s p (tf_a 0) neg1))
      else Ret (True, set_tf s p (tf_a 0) neg1))"

end
