(* ===== verification/Ulib.thy ===== *)
theory Ulib
  imports Kstring
begin

text \<open>
  The user library, \<^verbatim>\<open>user/ulib.c\<close>.  Routines that copy work on the byte memory; routines that only
  read a C string take the list of its characters before the NUL.  \<open>uread\<close> is the \<open>read\<close> system call as a
  program sees it on a file, a pipe or the console: what has not been read yet, and for each call how much of
  it is there.
\<close>

section \<open>Copying\<close>

partial_function (option) ustrcpy :: "mem \<Rightarrow> u64 \<Rightarrow> u64 \<Rightarrow> mem option" where
  "ustrcpy m s t = (let m' = m(s := m t) in if m t \<noteq> 0 then ustrcpy m' (s + 1) (t + 1) else Some m')"

definition umemset :: "mem \<Rightarrow> u64 \<Rightarrow> u32 \<Rightarrow> u32 \<Rightarrow> mem" where
  "umemset m dst c n = memset_loop m dst (ucast c) 0 (unat n)"

text \<open>The count of \<open>memmove\<close> is a signed \<open>int\<close> and a negative one copies nothing.\<close>

definition umemmove :: "mem \<Rightarrow> u64 \<Rightarrow> u64 \<Rightarrow> int \<Rightarrow> mem" where
  "umemmove m vdst vsrc n =
     (if vsrc > vdst then copy_fwd m vdst vsrc (nat n)
      else copy_back m (vdst + word_of_int n) (vsrc + word_of_int n) (nat n))"

definition umemcmp :: "mem \<Rightarrow> u64 \<Rightarrow> u64 \<Rightarrow> nat \<Rightarrow> int" where
  "umemcmp m s1 s2 n = memcmp m s1 s2 n"

section \<open>C strings\<close>

definition NUL :: char where "NUL = CHR 0x00"
definition NL :: char where "NL = CHR 0x0A"

definition ordc :: "char \<Rightarrow> nat" where "ordc c = of_char c"

text \<open>\<open>strcmp\<close> compares the characters as \<open>uchar\<close>, the NUL included.\<close>

fun strcmp :: "string \<Rightarrow> string \<Rightarrow> int" where
  "strcmp [] [] = 0"
| "strcmp (c # p) [] = int (ordc c)"
| "strcmp [] (d # q) = - int (ordc d)"
| "strcmp (c # p) (d # q) = (if c = d then strcmp p q else int (ordc c) - int (ordc d))"

text \<open>\<open>strlen\<close> and \<open>strchr\<close> stop at a NUL inside the array; the result of \<open>strchr\<close> is an index.\<close>

fun ustrlen :: "string \<Rightarrow> nat" where
  "ustrlen [] = 0"
| "ustrlen (c # s) = (if c = NUL then 0 else Suc (ustrlen s))"

fun strchr :: "string \<Rightarrow> char \<Rightarrow> nat option" where
  "strchr [] c = None"
| "strchr (x # s) c = (if x = NUL then None else if x = c then Some 0 else map_option Suc (strchr s c))"

definition is_digit :: "char \<Rightarrow> bool" where
  "is_digit c \<longleftrightarrow> 48 \<le> ordc c \<and> ordc c \<le> 57"

text \<open>
  \<open>atoi\<close> collects a C \<open>int\<close>, whose overflow is undefined: \<open>None\<close> is a sum or product outside the range, in the
  order in which \<^verbatim>\<open>n*10 + *s++ - '0'\<close> forms them.
\<close>

definition c_int :: "int \<Rightarrow> bool" where
  "c_int n \<longleftrightarrow> - (2 ^ 31) \<le> n \<and> n < 2 ^ 31"

fun atoi_loop :: "int \<Rightarrow> string \<Rightarrow> int option" where
  "atoi_loop n [] = Some n"
| "atoi_loop n (c # s) =
    (if \<not> is_digit c then Some n
     else if c_int (n * 10) \<and> c_int (n * 10 + int (ordc c)) \<and> c_int (n * 10 + int (ordc c) - 48)
     then atoi_loop (n * 10 + int (ordc c) - 48) s
     else None)"

definition atoi :: "string \<Rightarrow> int option" where
  "atoi s = atoi_loop 0 s"

section \<open>itoa\<close>

text \<open>
  \<open>tmp\<close> is the array of 16 characters and \<open>c\<close> counts from 1; the quotient is a signed \<open>int\<close>, so that the loop
  does not run for the smallest one.
\<close>

function itoa_loop :: "int \<Rightarrow> nat \<Rightarrow> string \<Rightarrow> nat \<times> string" where
  "itoa_loop q c tmp =
     (if q > 0 then itoa_loop (q div 10) (Suc c) (tmp[16 - c := char_of (48 + nat (q mod 10))]) else (c, tmp))"
  by pat_completeness auto
termination
  by (relation "measure (\<lambda>(q, c, tmp). nat q)") auto

declare itoa_loop.simps [simp del]

fun itoa_copy :: "string \<Rightarrow> nat \<Rightarrow> nat \<Rightarrow> string \<Rightarrow> string" where
  "itoa_copy tmp j 0 buf = buf[j := NUL]"
| "itoa_copy tmp j (Suc k) buf = itoa_copy tmp (Suc j) k (buf[j := tmp ! (16 - j - 1)])"

definition itoa :: "u32 \<Rightarrow> string \<Rightarrow> int \<Rightarrow> string" where
  "itoa i buf sz =
     (let q = (if 0 < sint i then sint i else sint (- i));
          (c, tmp) = itoa_loop q 1 (replicate 16 NUL);
          (c, tmp) = (if sint i < 0 then (Suc c, tmp[16 - c := CHR ''-'']) else (c, tmp)) in
      itoa_copy tmp 0 (nat (min (int c - 1) (sz - 1))) buf)"

section \<open>Reading\<close>

text \<open>
  One \<open>read(fd, p, k)\<close>.  \<open>h\<close> is the number of bytes that are there at the time of the call; a call for at least one
  byte gets at least one until the input ends.
\<close>

definition uread :: "nat list \<Rightarrow> nat \<Rightarrow> string \<Rightarrow> string" where
  "uread hs k inp = take (case hs of [] \<Rightarrow> k | h # _ \<Rightarrow> min k (max 1 h)) inp"

function gets_loop :: "nat \<Rightarrow> string \<Rightarrow> string \<Rightarrow> string \<times> string" where
  "gets_loop mx acc inp =
     (if length acc + 1 < mx
      then (case inp of [] \<Rightarrow> (acc, [])
            | c # inp' \<Rightarrow> (let acc' = acc @ [c] in if c = NL \<or> c = CHR 0x0D then (acc', inp') else gets_loop mx acc' inp'))
      else (acc, inp))"
  by pat_completeness auto
termination
  by (relation "measure (\<lambda>(mx, acc, inp). length inp)") auto

declare gets_loop.simps [simp del]

text \<open>\<open>gets\<close> gives the characters it stored, before the NUL it adds, and the input that is left.\<close>

definition gets :: "nat \<Rightarrow> string \<Rightarrow> string \<times> string" where
  "gets mx inp = gets_loop mx [] inp"

section \<open>Facts\<close>

lemma uread_append: "uread hs k inp @ drop (length (uread hs k inp)) inp = inp"
  by (simp add: uread_def min_def)

lemma uread_shrinks: "uread hs k inp \<noteq> [] \<Longrightarrow> length (drop (length (uread hs k inp)) inp) < length inp"
  by (auto simp: uread_def)

lemma uread_empty: "uread hs k inp = [] \<longleftrightarrow> k = 0 \<or> inp = []"
  by (auto simp: uread_def split: list.splits)

lemma length_uread: "length (uread hs k inp) \<le> k"
  by (auto simp: uread_def split: list.splits)

lemma strchr_None: "NUL \<notin> set s \<Longrightarrow> strchr s c = None \<longleftrightarrow> c \<notin> set s"
  by (induction s) auto

lemma strchr_Some:
  assumes "strchr s c = Some i"
  shows "i < length s" "s ! i = c" "c \<notin> set (take i s)" "NUL \<notin> set (take i s)"
  using assms by (induction s arbitrary: i) (auto split: if_splits)

lemma strchr_append: "NUL \<notin> set a \<Longrightarrow> c \<notin> set a \<Longrightarrow> c \<noteq> NUL \<Longrightarrow> strchr (a @ c # b) c = Some (length a)"
  by (induction a) auto

lemma ordc_0: "ordc c = 0 \<longleftrightarrow> c = NUL"
proof -
  have "ordc NUL = 0"
    by (simp add: ordc_def NUL_def)
  then show ?thesis
    by (metis ordc_def of_char_eq_iff)
qed

lemma ordc_eq: "ordc c = ordc d \<longleftrightarrow> c = d"
  by (simp add: ordc_def)

lemma strcmp_eq: "strcmp p q = 0 \<longleftrightarrow> p = q" if "NUL \<notin> set p" "NUL \<notin> set q"
  using that
  by (induction p q rule: strcmp.induct) (auto simp: ordc_0 ordc_eq)

text \<open>\<open>gets\<close> takes a line with its end, or as much as fits, or what is left.\<close>

lemma gets_loop_eq:
  "gets_loop mx acc inp =
    (let n = mx - 1 - length acc; l = takeWhile (\<lambda>c. c \<noteq> NL \<and> c \<noteq> CHR 0x0D) inp; k = min n (length l + 1) in
     (acc @ take k inp, drop k inp))"
proof (induction mx acc inp rule: gets_loop.induct)
  case (1 mx acc inp)
  show ?case
  proof (cases "length acc + 1 < mx \<and> inp \<noteq> []")
    case True
    then obtain c inp' where inp: "inp = c # inp'" by (cases inp) auto
    obtain n where mx: "mx = Suc (Suc (length acc + n))"
      using True less_imp_Suc_add[of "length acc + 1" mx] by auto
    show ?thesis
      using 1[of c inp'] by (subst gets_loop.simps) (auto simp: inp mx Let_def min_def)
  next
    case False
    then show ?thesis
      by (subst gets_loop.simps) (auto simp: Let_def split: list.splits)
  qed
qed

end
