(* ===== verification/Printf.thy ===== *)
theory Printf
  imports Ulib
begin

text \<open>
  Formatted output: \<^verbatim>\<open>user/printf.c\<close> and \<^verbatim>\<open>kernel/printf.c\<close>.  Both collect the digits of a number in an array of
  16 characters, least significant first, and print it backwards.  The model has the contents of the array as a list.
\<close>

section \<open>Numbers\<close>

definition udigits :: string where "udigits = ''0123456789ABCDEF''"
definition kdigits :: string where "kdigits = ''0123456789abcdef''"

text \<open>The loop \<^verbatim>\<open>do buf[i++] = digits[x % base]; while((x /= base) != 0)\<close>; the base is 10 or 16 in every call.\<close>

function digs :: "string \<Rightarrow> nat \<Rightarrow> nat \<Rightarrow> string" where
  "digs ds base x = ds ! (x mod base) # (if 2 \<le> base \<and> x div base \<noteq> 0 then digs ds base (x div base) else [])"
  by pat_completeness auto
termination
  by (relation "measure (\<lambda>(ds, base, x). x)") (auto simp: div_eq_0_iff)

declare digs.simps [simp del]

definition uprintint_buf :: "u32 \<Rightarrow> nat \<Rightarrow> bool \<Rightarrow> string" where
  "uprintint_buf xx base sg =
     (let neg = (sg \<and> sint xx < 0); x = (if neg then - xx else xx) in
      digs udigits base (unat x) @ (if neg then ''-'' else []))"

definition uprintint :: "u32 \<Rightarrow> nat \<Rightarrow> bool \<Rightarrow> string" where
  "uprintint xx base sg = rev (uprintint_buf xx base sg)"

definition kprintint_buf :: "u64 \<Rightarrow> nat \<Rightarrow> bool \<Rightarrow> string" where
  "kprintint_buf xx base sg =
     (let neg = (sg \<and> sint xx < 0); x = (if neg then - xx else xx) in
      digs kdigits base (unat x) @ (if neg then ''-'' else []))"

definition kprintint :: "u64 \<Rightarrow> nat \<Rightarrow> bool \<Rightarrow> string" where
  "kprintint xx base sg = rev (kprintint_buf xx base sg)"

fun ptr_digits :: "string \<Rightarrow> nat \<Rightarrow> u64 \<Rightarrow> string" where
  "ptr_digits ds 0 x = []"
| "ptr_digits ds (Suc n) x = ds ! unat (drop_bit 60 x) # ptr_digits ds n (push_bit 4 x)"

definition uprintptr :: "u64 \<Rightarrow> string" where "uprintptr x = ''0x'' @ ptr_digits udigits 16 x"
definition kprintptr :: "u64 \<Rightarrow> string" where "kprintptr x = ''0x'' @ ptr_digits kdigits 16 x"

section \<open>Formats\<close>

text \<open>
  An argument is a 64-bit slot or a string (\<open>None\<close> is the null pointer).  Asking for an argument that is not
  there, or for one of the other kind, is undefined in C and gives \<open>None\<close>.
\<close>

datatype varg = Num u64 | Str "string option"

text \<open>What a conversion is, from its three characters: an integer (long or not, base, signed, further characters), or another.\<close>

datatype conv = ConvInt bool nat bool nat | ConvPtr | ConvStr | ConvPct | ConvBad

definition conv_of :: "char \<Rightarrow> char \<Rightarrow> char \<Rightarrow> conv" where
  "conv_of c0 c1 c2 =
     (if c0 = CHR ''d'' then ConvInt False 10 True 0
      else if c0 = CHR ''l'' \<and> c1 = CHR ''d'' then ConvInt True 10 True 1
      else if c0 = CHR ''l'' \<and> c1 = CHR ''l'' \<and> c2 = CHR ''d'' then ConvInt True 10 True 2
      else if c0 = CHR ''u'' then ConvInt False 10 False 0
      else if c0 = CHR ''l'' \<and> c1 = CHR ''u'' then ConvInt True 10 False 1
      else if c0 = CHR ''l'' \<and> c1 = CHR ''l'' \<and> c2 = CHR ''u'' then ConvInt True 10 False 2
      else if c0 = CHR ''x'' then ConvInt False 16 False 0
      else if c0 = CHR ''l'' \<and> c1 = CHR ''x'' then ConvInt True 16 False 1
      else if c0 = CHR ''l'' \<and> c1 = CHR ''l'' \<and> c2 = CHR ''x'' then ConvInt True 16 False 2
      else if c0 = CHR ''p'' then ConvPtr
      else if c0 = CHR ''s'' then ConvStr
      else if c0 = CHR ''%'' then ConvPct
      else ConvBad)"

fun str_arg :: "string option \<Rightarrow> string" where
  "str_arg None = ''(null)''"
| "str_arg (Some s) = s"

text \<open>
  One conversion: what it prints and what is left of the format and the arguments.  The user's \<open>printint\<close> takes
  an \<open>int\<close>, so every argument is cut to 32 bits; the kernel's takes a \<open>long long\<close>, and an \<open>int\<close> argument is extended by its sign.
\<close>

fun uconv :: "conv \<Rightarrow> char \<Rightarrow> string \<Rightarrow> varg list \<Rightarrow> (string \<times> string \<times> varg list) option" where
  "uconv (ConvInt l base sg k) c0 r (Num w # ap) = Some (uprintint (ucast w) base sg, drop k r, ap)"
| "uconv ConvPtr c0 r (Num w # ap) = Some (uprintptr w, r, ap)"
| "uconv ConvStr c0 r (Str s # ap) = Some (str_arg s, r, ap)"
| "uconv ConvPct c0 r ap = Some (''%'', r, ap)"
| "uconv ConvBad c0 r ap = Some ([CHR ''%'', c0], r, ap)"
| "uconv _ _ _ _ = None"

fun kconv :: "conv \<Rightarrow> char \<Rightarrow> string \<Rightarrow> varg list \<Rightarrow> (string \<times> string \<times> varg list) option" where
  "kconv (ConvInt l base sg k) c0 r (Num w # ap) =
     Some (kprintint (if l then w else scast (ucast w :: u32)) base sg, drop k r, ap)"
| "kconv ConvPtr c0 r (Num w # ap) = Some (kprintptr w, r, ap)"
| "kconv ConvStr c0 r (Str s # ap) = Some (str_arg s, r, ap)"
| "kconv ConvPct c0 r ap = Some (''%'', r, ap)"
| "kconv ConvBad c0 r ap = Some ([CHR ''%'', c0], r, ap)"
| "kconv _ _ _ _ = None"

lemma uconv_shorter: "uconv c c0 r ap = Some (out, r', ap') \<Longrightarrow> length r' \<le> length r"
  by (induction c c0 r ap rule: uconv.induct) auto

lemma kconv_shorter: "kconv c c0 r ap = Some (out, r', ap') \<Longrightarrow> length r' \<le> length r"
  by (induction c c0 r ap rule: kconv.induct) auto

definition look :: "string \<Rightarrow> nat \<Rightarrow> char" where
  "look s i = (if i < length s then s ! i else NUL)"

text \<open>The loop over the format; a \<^verbatim>\<open>%\<close> at its end prints nothing.\<close>

function vprintf :: "string \<Rightarrow> varg list \<Rightarrow> string option" where
  "vprintf [] ap = Some []"
| "vprintf (c # fmt) ap =
     (if c \<noteq> CHR ''%'' then map_option (Cons c) (vprintf fmt ap)
      else case fmt of [] \<Rightarrow> Some []
        | c0 # r \<Rightarrow>
          (case uconv (conv_of c0 (look r 0) (look r 1)) c0 r ap of None \<Rightarrow> None
           | Some (out, r', ap') \<Rightarrow> map_option (append out) (vprintf r' ap')))"
  by pat_completeness auto
termination
  by (relation "measure (\<lambda>(fmt, ap). length fmt)") (auto dest!: uconv_shorter)

function kprintf :: "string \<Rightarrow> varg list \<Rightarrow> string option" where
  "kprintf [] ap = Some []"
| "kprintf (c # fmt) ap =
     (if c \<noteq> CHR ''%'' then map_option (Cons c) (kprintf fmt ap)
      else case fmt of [] \<Rightarrow> Some []
        | c0 # r \<Rightarrow>
          (case kconv (conv_of c0 (look r 0) (look r 1)) c0 r ap of None \<Rightarrow> None
           | Some (out, r', ap') \<Rightarrow> map_option (append out) (kprintf r' ap')))"
  by pat_completeness auto
termination
  by (relation "measure (\<lambda>(fmt, ap). length fmt)") (auto dest!: kconv_shorter)

text \<open>What \<open>panic\<close> puts on the console before it stops.\<close>

definition panic_message :: "string \<Rightarrow> string option" where
  "panic_message s =
     (case kprintf ''panic: '' [] of None \<Rightarrow> None
      | Some a \<Rightarrow> map_option (append a) (kprintf (''%s'' @ [NL]) [Str (Some s)]))"

section \<open>Digits\<close>

lemma digs_ne [simp]: "digs ds base x \<noteq> []"
  by (subst digs.simps) simp

lemma length_digs: "2 \<le> base \<Longrightarrow> length (digs ds base x) \<le> Suc k \<longleftrightarrow> x < base ^ Suc k"
proof (induction k arbitrary: x)
  case 0
  then show ?case by (subst digs.simps) (auto simp: div_eq_0_iff)
next
  case (Suc k)
  have "x < base ^ Suc (Suc k) \<longleftrightarrow> x div base < base ^ Suc k"
    using Suc.prems by (simp add: less_mult_imp_div_less div_less_iff_less_mult mult.commute)
  then show ?case
    using Suc by (subst digs.simps) auto
qed

lemma udigits_ord:
  assumes "d < 10"
  shows "ordc (udigits ! d) = 48 + d" "is_digit (udigits ! d)"
proof -
  have "list_all (\<lambda>d. ordc (udigits ! d) = 48 + d) [0..<10]"
    by code_simp
  then have "\<forall>d\<in>set [0..<10]. ordc (udigits ! d) = 48 + d"
    by (simp add: list_all_iff)
  then show "ordc (udigits ! d) = 48 + d"
    using assms by simp
  then show "is_digit (udigits ! d)"
    using assms by (simp add: is_digit_def)
qed

lemma digs_digits: "c \<in> set (digs udigits 10 x) \<Longrightarrow> is_digit c"
proof (induction udigits "10::nat" x rule: digs.induct)
  case (1 x)
  then show ?case
    by (subst (asm) (2) digs.simps) (auto simp: udigits_ord split: if_splits)
qed

lemma atoi_loop_append: "(\<forall>c\<in>set a. is_digit c) \<Longrightarrow> atoi_loop n (a @ b) = Option.bind (atoi_loop n a) (\<lambda>m. atoi_loop m b)"
  by (induction a arbitrary: n) auto

lemma atoi_digit:
  assumes "0 \<le> n" "d < 10"
  shows "atoi_loop n [udigits ! d] = (if n * 10 + int d \<le> 2147483599 then Some (n * 10 + int d) else None)"
  using assms by (auto simp: udigits_ord c_int_def)

text \<open>The digits of a number: its value, unless adding the last character goes past the largest \<open>int\<close>.\<close>

lemma atoi_digs: "atoi_loop 0 (rev (digs udigits 10 x)) = (if int x \<le> 2147483599 then Some (int x) else None)"
proof (induction x rule: less_induct)
  case (less x)
  note d = atoi_digit[where d = "x mod 10"]
  show ?case
  proof (cases "x div 10 = 0")
    case True
    then show ?thesis
      using d[of 0] by (subst digs.simps) (simp add: div_eq_0_iff del: atoi_loop.simps)
  next
    case False
    have x: "int (x div 10) * 10 + int (x mod 10) = int x"
      using div_mult_mod_eq[of x 10] by linarith
    have "atoi_loop 0 (rev (digs udigits 10 x)) =
        Option.bind (atoi_loop 0 (rev (digs udigits 10 (x div 10)))) (\<lambda>m. atoi_loop m [udigits ! (x mod 10)])"
      using False by (subst digs.simps) (simp add: atoi_loop_append digs_digits del: atoi_loop.simps)
    also have "\<dots> = (if int x \<le> 2147483599 then Some (int x) else None)"
    proof -
      have "int (x div 10) \<le> 2147483599" if "int x \<le> 2147483599" using that x by linarith
      then show ?thesis
        using False less[of "x div 10"] d[of "int (x div 10)"] unfolding x by (simp del: atoi_loop.simps of_nat_div)
    qed
    finally show ?thesis .
  qed
qed

section \<open>itoa\<close>

text \<open>The loop of \<open>itoa\<close> fills \<open>tmp\<close> from its end with the digits, least significant first.\<close>

lemma char_of_digit: "d < 10 \<Longrightarrow> char_of (48 + d) = udigits ! d"
  using udigits_ord(1)[of d] by (metis char_of_char ordc_def)

definition dec_digits :: "int \<Rightarrow> string" where
  "dec_digits q = (if q > 0 then digs udigits 10 (nat q) else [])"

lemma dec_digits_step: "0 < q \<Longrightarrow> dec_digits q = udigits ! nat (q mod 10) # dec_digits (q div 10)"
  unfolding dec_digits_def by (subst digs.simps) (auto simp: nat_div_distrib nat_mod_distrib div_eq_0_iff)

lemma itoa_loop_fills:
  assumes "length tmp = 16" "1 \<le> c" "c + length (dec_digits q) \<le> 17"
  shows "\<exists>tmp'. itoa_loop q c tmp = (c + length (dec_digits q), tmp') \<and> length tmp' = 16 \<and>
    drop (17 - (c + length (dec_digits q))) tmp' = rev (dec_digits q) @ drop (17 - c) tmp"
  using assms
proof (induction q c tmp rule: itoa_loop.induct)
  case (1 q c tmp)
  show ?case
  proof (cases "q > 0")
    case False
    then show ?thesis
      using 1(2) by (subst itoa_loop.simps) (simp add: dec_digits_def)
  next
    case True
    let ?t = "tmp[16 - c := char_of (48 + nat (q mod 10))]"
    have c: "c \<le> 16"
      using 1(4) True by (simp add: dec_digits_step)
    have e: "17 - c = Suc (16 - c)"
      using c by simp
    have "drop (17 - Suc c) ?t = udigits ! nat (q mod 10) # drop (17 - c) tmp"
      using 1(2,3) c e Cons_nth_drop_Suc[of "16 - c" ?t] by (simp add: char_of_digit)
    then show ?thesis
      using 1(1)[OF True] 1(2-4) True by (subst itoa_loop.simps) (auto simp: dec_digits_step)
  qed
qed

lemma itoa_copy_eq:
  assumes "j + k < length buf"
  shows "itoa_copy tmp j k buf = take j buf @ map (\<lambda>i. tmp ! (15 - i)) [j..<j + k] @ NUL # drop (j + k + 1) buf"
  using assms
proof (induction tmp j k buf rule: itoa_copy.induct)
  case (1 tmp j buf)
  then show ?case by (simp add: upd_conv_take_nth_drop)
next
  case (2 tmp j k buf)
  have "take (Suc j) (buf[j := tmp ! (16 - j - 1)]) = take j buf @ [tmp ! (15 - j)]"
    using 2(2) by (simp add: take_Suc_conv_app_nth)
  moreover have "[j..<j + Suc k] = j # [Suc j..<Suc j + k]"
    by (simp add: upt_rec)
  ultimately show ?case
    using 2 by simp
qed

lemma nat_sint:
  fixes x :: u32
  assumes "0 < sint x"
  shows "nat (sint x) = unat x"
proof -
  have "uint x = sint x"
    using assms sint_less[of x] unfolding uint_sint by (intro take_bit_int_eq_self) simp_all
  then show ?thesis by (simp add: unat_eq_nat_uint)
qed

lemma sint_minus: "- (2 ^ 31) < sint x \<Longrightarrow> sint (- x) = - sint x" for x :: u32
  using sint_less[of x] by (simp add: sint_word_ariths signed_take_bit_int_eq_self)

text \<open>The text in the buffer is the array of \<open>printint\<close>, not the text that \<open>printint\<close> prints from it.\<close>

lemma itoa_text:
  assumes "- (2 ^ 31) < sint i" "12 \<le> sz" "nat sz \<le> length buf"
  shows "takeWhile (\<lambda>c. c \<noteq> NUL) (itoa i buf sz) = (if i = 0 then [] else uprintint_buf i 10 True)"
proof -
  let ?n = "sint i < 0"
  let ?q = "if 0 < sint i then sint i else sint (- i)"
  let ?d = "dec_digits ?q"
  have q: "?q = \<bar>sint i\<bar>"
    using sint_minus[OF assms(1)] by simp
  have buf: "uprintint_buf i 10 True = ?d @ (if ?n then ''-'' else [])" if "i \<noteq> 0"
    using that q nat_sint[of i] nat_sint[of "- i"] sint_minus[OF assms(1)] signed_word_eqI[of i 0]
    by (auto simp: uprintint_buf_def dec_digits_def Let_def)
  have "nat ?q < 10 ^ Suc 9"
    using q sint_less[of i] assms(1) by auto
  then have ld: "length ?d \<le> 10"
    using length_digs[of 10 udigits "nat ?q" 9] by (simp add: dec_digits_def)
  obtain tmp where tmp: "itoa_loop ?q 1 (replicate 16 NUL) = (Suc (length ?d), tmp)" "length tmp = 16"
    "drop (16 - length ?d) tmp = rev ?d"
    using itoa_loop_fills[of "replicate 16 NUL" 1 ?q] ld by auto
  let ?t = "?d @ (if ?n then ''-'' else [])"
  let ?tmp = "if ?n then tmp[15 - length ?d := CHR ''-''] else tmp"
  have "tmp ! (15 - j) = ?d ! j" if "j < length ?d" for j
  proof -
    have "tmp ! (15 - j) = drop (16 - length ?d) tmp ! (length ?d - 1 - j)"
      using that ld tmp(2) by (subst nth_drop) (auto intro!: arg_cong[where f = "(!) tmp"])
    also have "\<dots> = ?d ! j"
      using that unfolding tmp(3) by (simp add: rev_nth)
    finally show ?thesis .
  qed
  then have nth: "?tmp ! (15 - j) = ?t ! j" if "j < length ?t" for j
    using that ld tmp(2) by (auto simp: nth_append nth_list_update less_Suc_eq split: if_splits)
  have map: "map (\<lambda>j. ?tmp ! (15 - j)) [0..<0 + length ?t] = ?t"
    by (rule nth_equalityI) (simp_all add: nth del: length_append)
  have len: "0 + length ?t < length buf"
    using ld assms(2,3) by auto
  have "itoa i buf sz = itoa_copy ?tmp 0 (length ?t) buf"
    unfolding itoa_def tmp(1) Let_def using ld assms(2) by (auto simp: min_def nat_add_distrib simp del: itoa_copy.simps)
  also have "\<dots> = ?t @ NUL # drop (length ?t + 1) buf"
    using itoa_copy_eq[OF len, of ?tmp] unfolding map by simp
  finally have "itoa i buf sz = ?t @ NUL # drop (length ?t + 1) buf" .
  moreover have "\<forall>c\<in>set ?t. c \<noteq> NUL"
  proof -
    have "c \<noteq> NUL" if "is_digit c" for c
      using that ordc_0[of NUL] by (auto simp: is_digit_def)
    then show ?thesis
      using digs_digits by (auto simp: dec_digits_def NUL_def)
  qed
  ultimately have "takeWhile (\<lambda>c. c \<noteq> NUL) (itoa i buf sz) = ?t"
    by simp
  then show ?thesis
    using buf by (auto simp: dec_digits_def)
qed

section \<open>Properties\<close>

text \<open>
  C29: what \<open>printint\<close> stores in its array of 16 characters.  The user's version takes 32 bits and stores at most 11.
  The kernel's takes 64 bits: in base 16 it fits, in base 10 it writes past the end of the array exactly when the
  magnitude has more than 16 digits, or 16 and a sign.
\<close>

theorem printint_bounds:
  "length (uprintint_buf xx 10 sg) \<le> 11 \<and> length (uprintint_buf xx 16 False) \<le> 8 \<and>
   length (kprintint_buf yy 16 False) \<le> 16 \<and>
   (length (kprintint_buf yy 10 sg) \<le> 16 \<longleftrightarrow>
     (if sg \<and> sint yy < 0 then unat (- yy) < 10 ^ 15 else unat yy < 10 ^ 16))"
proof -
  have u: "unat x < 2 ^ 32" for x :: u32
    using unsigned_less[of x, where ?'a = nat] by simp
  have k: "unat x < 2 ^ 64" for x :: u64
    using unsigned_less[of x, where ?'a = nat] by simp
  have u10: "length (digs udigits 10 (unat x)) \<le> 10" and u16: "length (digs udigits 16 (unat x)) \<le> 8" for x :: u32
    using u[of x] length_digs[of 10 udigits "unat x" 9] length_digs[of 16 udigits "unat x" 7] by simp_all
  have k16: "length (digs kdigits 16 (unat x)) \<le> 16" for x :: u64
    using k[of x] length_digs[of 16 kdigits "unat x" 15] by simp
  have k10: "length (digs kdigits 10 x) \<le> 16 \<longleftrightarrow> x < 10 ^ 16" "length (digs kdigits 10 x) \<le> 15 \<longleftrightarrow> x < 10 ^ 15" for x
    using length_digs[of 10 kdigits x 15] length_digs[of 10 kdigits x 14] by simp_all
  have "length (uprintint_buf xx 10 sg) \<le> 11"
    using u10[of xx] u10[of "- xx"] by (simp add: uprintint_buf_def Let_def)
  moreover have "length (uprintint_buf xx 16 False) \<le> 8" "length (kprintint_buf yy 16 False) \<le> 16"
    using u16 k16 by (simp_all add: uprintint_buf_def kprintint_buf_def Let_def)
  moreover have "length (kprintint_buf yy 10 sg) \<le> 16 \<longleftrightarrow>
      (if sg \<and> sint yy < 0 then unat (- yy) < 10 ^ 15 else unat yy < 10 ^ 16)"
    using k10 by (simp add: kprintint_buf_def Let_def)
  ultimately show ?thesis by blast
qed

text \<open>
  C32: \<open>atoi\<close> on what \<open>printf\<close> prints in base 10, signed or unsigned.  A number that is printed without a sign comes
  back when it is at most 2147483599; above that the \<open>int\<close> of \<open>atoi\<close> overflows, for the last 48 values of \<open>int\<close>
  because \<^verbatim>\<open>'0'\<close> is subtracted after the character is added.  A negative number comes back as 0: its text starts
  with a minus sign, which \<open>atoi\<close> does not read.
\<close>

theorem printint_atoi:
  "atoi (uprintint x 10 sg) =
    (if sg \<and> sint x < 0 then Some 0 else if uint x \<le> 2147483599 then Some (uint x) else None)"
proof (cases "sg \<and> sint x < 0")
  case True
  then show ?thesis
    by (simp add: uprintint_def uprintint_buf_def atoi_def is_digit_def ordc_def)
next
  case False
  then show ?thesis
    by (auto simp: uprintint_def uprintint_buf_def atoi_def atoi_digs Let_def)
qed

text \<open>
  C33: \<open>itoa\<close> writes numbers backwards.  The string it leaves is the reverse of what \<open>printf\<close> prints, with the sign
  last, and nothing at all for 0.
\<close>

theorem itoa_backwards:
  assumes "- (2 ^ 31) < sint i" "12 \<le> sz" "nat sz \<le> length buf"
  shows "takeWhile (\<lambda>c. c \<noteq> NUL) (itoa i buf sz) = (if i = 0 then [] else rev (uprintint i 10 True))"
  using itoa_text[OF assms] by (simp add: uprintint_def)

theorem itoa_backwards_witness:
  "takeWhile (\<lambda>c. c \<noteq> NUL) (itoa 123 (replicate 12 NUL) 12) = ''321'' \<and> uprintint 123 10 True = ''123''"
proof -
  have p: "uprintint 123 10 True = ''123''"
    by code_simp
  show ?thesis
    using itoa_backwards[of 123 12 "replicate 12 NUL"] p by simp
qed

end
