(* ===== verification/Trap.thy ===== *)
theory Trap
  imports Sysfile Printf
begin

text \<open>
  Traps and boot: \<^verbatim>\<open>kernel/trap.c\<close>, \<open>forkret\<close> of \<^verbatim>\<open>kernel/proc.c\<close>, \<open>kvminit\<close> and \<open>kvminithart\<close> of \<^verbatim>\<open>kernel/vm.c\<close>, and the
  sequences \<open>main\<close> runs on the first hart and on the others.  The control registers of one hart are fields of
  the state; the addresses of the assembly routines are too, and nothing writes them.  The interrupt controller
  is a device: \<open>plic_irq\<close> is what it answers to a claim, and its priorities and, for each hart, its enable bits
  and threshold are fields.  A disk transfer is one step at this level, so the disk interrupt has nothing left
  to do.
\<close>

record ktrap = kfile +
  sstatus :: u64
  stvec :: u64
  sepc :: u64
  scause :: u64
  satp :: u64
  tp_reg :: u64
  stimecmp :: u64
  time_reg :: u64
  plic_irq :: u32
  plic_priority :: "u32 \<Rightarrow> u32"
  plic_enable :: "u64 \<Rightarrow> u32"
  plic_threshold :: "u64 \<Rightarrow> u32"
  kernel_pagetable :: u64
  forkret_first :: bool
  started :: bool
  sym_kernelvec :: u64
  sym_uservec :: u64
  sym_userret :: u64
  sym_usertrap :: u64

section \<open>Registers\<close>

definition SSTATUS_SPP :: u64 where "SSTATUS_SPP = push_bit 8 1"
definition SSTATUS_SPIE :: u64 where "SSTATUS_SPIE = push_bit 5 1"
definition SSTATUS_SIE :: u64 where "SSTATUS_SIE = push_bit 1 1"
definition SATP_SV39 :: u64 where "SATP_SV39 = push_bit 60 8"
definition MAKE_SATP :: "u64 \<Rightarrow> u64" where "MAKE_SATP pagetable = SATP_SV39 OR drop_bit 12 pagetable"

definition intr_on :: "'z ktrap_scheme \<Rightarrow> 'z ktrap_scheme" where
  "intr_on s = s\<lparr>sstatus := sstatus s OR SSTATUS_SIE\<rparr>"

definition intr_off :: "'z ktrap_scheme \<Rightarrow> 'z ktrap_scheme" where
  "intr_off s = s\<lparr>sstatus := sstatus s AND NOT SSTATUS_SIE\<rparr>"

definition intr_get :: "'z ktrap_scheme \<Rightarrow> bool" where
  "intr_get s \<longleftrightarrow> sstatus s AND SSTATUS_SIE \<noteq> 0"

definition trapinithart :: "'z ktrap_scheme \<Rightarrow> 'z ktrap_scheme" where
  "trapinithart s = s\<lparr>stvec := sym_kernelvec s\<rparr>"

definition kvminit :: "'z ktrap_scheme \<Rightarrow> 'z ktrap_scheme res" where
  "kvminit s = bindr (kvmmake s) (\<lambda>(pt, s1). Ret (s1\<lparr>kernel_pagetable := pt\<rparr>))"

definition kvminithart :: "'z ktrap_scheme \<Rightarrow> 'z ktrap_scheme" where
  "kvminithart s = s\<lparr>satp := MAKE_SATP (kernel_pagetable s)\<rparr>"

section \<open>Interrupts\<close>

definition UART0_IRQ :: u32 where "UART0_IRQ = 10"
definition VIRTIO0_IRQ :: u32 where "VIRTIO0_IRQ = 1"

definition plicinit :: "'z ktrap_scheme \<Rightarrow> 'z ktrap_scheme" where
  "plicinit s = s\<lparr>plic_priority := (plic_priority s)(UART0_IRQ := 1, VIRTIO0_IRQ := 1)\<rparr>"

definition plicinithart :: "'z ktrap_scheme \<Rightarrow> 'z ktrap_scheme" where
  "plicinithart s =
     s\<lparr>plic_enable := (plic_enable s)(tp_reg s := push_bit (unat UART0_IRQ) 1 OR push_bit (unat VIRTIO0_IRQ) 1),
       plic_threshold := (plic_threshold s)(tp_reg s := 0)\<rparr>"

definition plic_claim :: "'z ktrap_scheme \<Rightarrow> u32" where
  "plic_claim s = plic_irq s"

definition plic_complete :: "'z ktrap_scheme \<Rightarrow> u32 \<Rightarrow> 'z ktrap_scheme" where
  "plic_complete s irq = (if plic_irq s = irq then s\<lparr>plic_irq := 0\<rparr> else s)"

definition clockintr :: "'z ktrap_scheme \<Rightarrow> 'z ktrap_scheme" where
  "clockintr s =
     (let s1 = (if tp_reg s = 0 then wakeup (s\<lparr>ticks := ticks s + 1\<rparr>) ChanTicks else s) in
      s1\<lparr>stimecmp := time_reg s1 + 1000000\<rparr>)"

definition devintr :: "'z ktrap_scheme \<Rightarrow> (nat \<times> 'z ktrap_scheme) res" where
  "devintr s =
     (if scause s = 0x8000000000000009 then
        let irq = plic_claim s in
        bindr (if irq = UART0_IRQ then uartintr s else Ret s) (\<lambda>s1.
        Ret (1, if irq \<noteq> 0 then plic_complete s1 irq else s1))
      else if scause s = 0x8000000000000005 then Ret (2, clockintr s)
      else Ret (0, s))"

section \<open>Traps\<close>

definition tf_kernel_satp :: u64 where "tf_kernel_satp = 0"
definition tf_kernel_sp :: u64 where "tf_kernel_sp = 8"
definition tf_kernel_trap :: u64 where "tf_kernel_trap = 16"
definition tf_kernel_hartid :: u64 where "tf_kernel_hartid = 32"

text \<open>\<open>usertrapret\<close>: the state in which it jumps to \<open>userret\<close>, with the address it jumps to and the argument.\<close>

definition usertrapret :: "'z ktrap_scheme \<Rightarrow> u64 \<times> u64 \<times> 'z ktrap_scheme" where
  "usertrapret s =
     (let p = curp s;
          s1 = intr_off s;
          s2 = s1\<lparr>stvec := TRAMPOLINE + (sym_uservec s1 - sym_trampoline s1)\<rparr>;
          s3 = set_tf s2 p tf_kernel_satp (satp s2);
          s4 = set_tf s3 p tf_kernel_sp (p_kstack (procs s3 p) + PGSIZE);
          s5 = set_tf s4 p tf_kernel_trap (sym_usertrap s4);
          s6 = set_tf s5 p tf_kernel_hartid (tp_reg s5);
          x = sstatus s6 AND NOT SSTATUS_SPP;
          x = x OR SSTATUS_SPIE;
          s7 = s6\<lparr>sstatus := x\<rparr>;
          s8 = s7\<lparr>sepc := get_tf s7 p tf_epc\<rparr> in
      (TRAMPOLINE + (sym_userret s8 - sym_trampoline s8), MAKE_SATP (p_pagetable (procs s8 p)), s8))"

text \<open>
  How a trap ends for the process: it goes back to user space, it gives up the CPU first (the rest
  runs when it is scheduled again), or it has exited.
\<close>

datatype trapend = ToUser | Yielded | Exited

definition yield_cpu :: "'z ktrap_scheme \<Rightarrow> 'z ktrap_scheme" where
  "yield_cpu s = upd_proc s (curp s) (\<lambda>pr. pr\<lparr>p_state := RUNNABLE\<rparr>)"

definition usertrap_end :: "'z ktrap_scheme \<Rightarrow> nat \<Rightarrow> (trapend \<times> 'z ktrap_scheme) res" where
  "usertrap_end s which_dev =
     (if killed s (curp s) then bindr (exit_proc s (-1)) (\<lambda>s1. Ret (Exited, s1))
      else if which_dev = 2 then Ret (Yielded, yield_cpu s)
      else let (_, _, s1) = usertrapret s in Ret (ToUser, s1))"

definition usertrap :: "'z ktrap_scheme \<Rightarrow> u8 list \<Rightarrow> (trapend \<times> 'z ktrap_scheme) res" where
  "usertrap s junk =
     (if sstatus s AND SSTATUS_SPP \<noteq> 0 then Panic ''usertrap: not from user mode''
      else
        let s1 = s\<lparr>stvec := sym_kernelvec s\<rparr>;
            p = curp s1;
            s2 = set_tf s1 p tf_epc (sepc s1) in
        if scause s2 = 8 then
          if killed s2 p then bindr (exit_proc s2 (-1)) (\<lambda>s3. Ret (Exited, s3))
          else
            let s3 = set_tf s2 p tf_epc (get_tf s2 p tf_epc + 4);
                s4 = intr_on s3 in
            bindr (syscall s4 junk) (\<lambda>(runs, s5).
            if runs then usertrap_end s5 0 else Ret (Exited, s5))
        else
          bindr (devintr s2) (\<lambda>(which_dev, s3).
          if which_dev \<noteq> 0 then usertrap_end s3 which_dev else usertrap_end (setkilled s3 p) 0))"

text \<open>
  \<open>kerneltrap\<close>; \<open>running\<close> says that the hart has a process (\<open>myproc() != 0\<close>).  After a \<open>yield\<close> the saved
  registers are restored when the process runs again.
\<close>

definition kerneltrap :: "'z ktrap_scheme \<Rightarrow> bool \<Rightarrow> 'z ktrap_scheme res" where
  "kerneltrap s running =
     (let epc = sepc s; status = sstatus s in
      if status AND SSTATUS_SPP = 0 then Panic ''kerneltrap: not from supervisor mode''
      else if intr_get s then Panic ''kerneltrap: interrupts enabled''
      else
        bindr (devintr s) (\<lambda>(which_dev, s1).
        if which_dev = 0 then Panic ''kerneltrap''
        else
          let s2 = (if which_dev = 2 \<and> running then yield_cpu s1 else s1) in
          Ret (s2\<lparr>sepc := epc, sstatus := status\<rparr>)))"

section \<open>Starting\<close>

definition forkret :: "'z ktrap_scheme \<Rightarrow> (u64 \<times> u64 \<times> 'z ktrap_scheme) res" where
  "forkret s =
     bindr (if forkret_first s
            then bindr (fsinit s ROOTDEV) (\<lambda>s1. Ret (s1\<lparr>forkret_first := False\<rparr>)) else Ret s) (\<lambda>s2.
     Ret (usertrapret s2))"

text \<open>
  \<open>printf\<close> on the console, and \<open>main\<close> up to the call of \<open>scheduler\<close>, on hart 0 and on the others, which wait until
  \<open>started\<close> is set.  \<open>printfinit\<close> and \<open>fileinit\<close> only initialise locks, and \<open>virtio_disk_init\<close> sets up the device
  behind the one-step transfer; they change nothing of this state.
\<close>

fun kputs :: "'z kcons_scheme \<Rightarrow> string \<Rightarrow> 'z kcons_scheme res" where
  "kputs s [] = Ret s"
| "kputs s (c # cs) = bindr (consputc s (of_nat (ordc c))) (\<lambda>s1. kputs s1 cs)"

definition kprintf_cons :: "'z kcons_scheme \<Rightarrow> string \<Rightarrow> varg list \<Rightarrow> 'z kcons_scheme res" where
  "kprintf_cons s fmt ap = (case kprintf fmt ap of None \<Rightarrow> Diverge | Some out \<Rightarrow> kputs s out)"

definition main_hart0 :: "'z ktrap_scheme \<Rightarrow> 'z ktrap_scheme res" where
  "main_hart0 s =
     bindr (kprintf_cons (consoleinit s) [NL] []) (\<lambda>s1.
     bindr (kprintf_cons s1 (''xv6 kernel is booting'' @ [NL]) []) (\<lambda>s2.
     bindr (kprintf_cons s2 [NL] []) (\<lambda>s3.
     bindr (kinit s3) (\<lambda>s4.
     bindr (kvminit s4) (\<lambda>s5.
     bindr (userinit (iinit (binit (plicinithart (plicinit (trapinithart (procinit (kvminithart s5)))))))) (\<lambda>s6.
       Ret (s6\<lparr>started := True\<rparr>)))))))"

definition main_other :: "'z ktrap_scheme \<Rightarrow> 'z ktrap_scheme res" where
  "main_other s =
     (if \<not> started s then Diverge
      else
        bindr (kprintf_cons s (''hart %d starting'' @ [NL]) [Num (tp_reg s)]) (\<lambda>s1.
        Ret (plicinithart (trapinithart (kvminithart s1)))))"

definition main :: "'z ktrap_scheme \<Rightarrow> 'z ktrap_scheme res" where
  "main s = (if tp_reg s = 0 then main_hart0 s else main_other s)"

end
