(* ===== verification/Boot.thy ===== *)
theory Boot
  imports Trap
begin

text \<open>
  The static data of the kernel before any code has run: the loader clears the bss, so every table
  is zero.  The witnesses of the properties build their concrete states from it.
\<close>

definition zero_proc :: proc where
  "zero_proc = \<lparr>p_state = UNUSED, p_chan = ChanNull, p_killed = False, p_xstate = 0, p_pid = 0, p_parent = None,
     p_kstack = 0, p_sz = 0, p_pagetable = 0, p_trapframe = 0, p_context = \<lparr>c_ra = 0, c_sp = 0, c_s = (\<lambda>_. 0)\<rparr>,
     p_ofile = (\<lambda>_. None), p_cwd = None, p_name = replicate 16 0\<rparr>"

definition zero_buf :: buf where
  "zero_buf = \<lparr>b_valid = False, b_dev = 0, b_blockno = 0, b_lock = initsleeplock, b_refcnt = 0, b_data = (\<lambda>_. 0)\<rparr>"

definition zero_inode :: inode where
  "zero_inode = \<lparr>i_dev = 0, i_inum = 0, i_ref = 0, i_lock = initsleeplock, i_valid = False, i_type = 0, i_major = 0,
     i_minor = 0, i_nlink = 0, i_size = 0, i_addrs = (\<lambda>_. 0)\<rparr>"

definition zero_file :: file_struct where
  "zero_file = \<lparr>f_type = FD_NONE, f_ref = 0, f_readable = False, f_writable = False, f_pipe = 0, f_ip = 0, f_off = 0, f_major = 0\<rparr>"

definition zero_pipe :: pipe where
  "zero_pipe = \<lparr>pi_data = (\<lambda>_. 0), pi_nread = 0, pi_nwrite = 0, pi_readopen = False, pi_writeopen = False\<rparr>"

definition zero_sb :: superblock where
  "zero_sb = \<lparr>sb_magic = 0, sb_size = 0, sb_nblocks = 0, sb_ninodes = 0, sb_nlog = 0, sb_logstart = 0, sb_inodestart = 0, sb_bmapstart = 0\<rparr>"

definition bss :: ktrap where
  "bss = \<lparr>pmem = (\<lambda>_. 0), freelist = 0, sym_end = 0, sym_etext = 0, sym_trampoline = 0,
     procs = (\<lambda>_. zero_proc), curp = 0, initproc = None, nextpid = 1, ticks = 0, sym_forkret = 0,
     disk = (\<lambda>_ _. 0), written = [], bufs = (\<lambda>_. zero_buf), lru = [0..<NBUF],
     log_start = 0, log_size = 0, log_outstanding = 0, log_committing = False, log_dev = 0, lh_n = 0, lh_block = (\<lambda>_. 0),
     sb = zero_sb, inodes = (\<lambda>_. zero_inode),
     panicked = False, uart_tx_buf = (\<lambda>_. 0), uart_tx_w = 0, uart_tx_r = 0, uart_room = 0, uart_in = [], uart_out = [],
     cons_buf = (\<lambda>_. 0), cons_r = 0, cons_w = 0, cons_e = 0,
     pipes = (\<lambda>_. zero_pipe), files = (\<lambda>_. zero_file), devsw = (\<lambda>_. None),
     sstatus = 0, stvec = 0, sepc = 0, scause = 0, satp = 0, tp_reg = 0, stimecmp = 0, time_reg = 0, plic_irq = 0,
     plic_priority = (\<lambda>_. 0), plic_enable = (\<lambda>_. 0), plic_threshold = (\<lambda>_. 0),
     kernel_pagetable = 0, forkret_first = True, started = False, sym_kernelvec = 0, sym_uservec = 0, sym_userret = 0, sym_usertrap = 0\<rparr>"

lemmas zero_defs = zero_proc_def zero_buf_def zero_inode_def zero_file_def zero_pipe_def zero_sb_def initsleeplock_def

lemma bss_fields [simp]:
  "pmem bss = (\<lambda>_. 0)" "freelist bss = 0" "procs bss = (\<lambda>_. zero_proc)" "curp bss = 0" "initproc bss = None" "nextpid bss = 1"
  "ticks bss = 0" "disk bss = (\<lambda>_ _. 0)" "written bss = []" "bufs bss = (\<lambda>_. zero_buf)" "lru bss = [0..<NBUF]"
  "log_start bss = 0" "log_outstanding bss = 0" "log_committing bss = False" "log_dev bss = 0" "lh_n bss = 0" "lh_block bss = (\<lambda>_. 0)"
  "sb bss = zero_sb" "inodes bss = (\<lambda>_. zero_inode)" "panicked bss = False" "uart_tx_buf bss = (\<lambda>_. 0)" "uart_tx_w bss = 0"
  "uart_tx_r bss = 0" "uart_room bss = 0" "uart_in bss = []" "uart_out bss = []" "cons_buf bss = (\<lambda>_. 0)" "cons_r bss = 0"
  "cons_w bss = 0" "cons_e bss = 0" "pipes bss = (\<lambda>_. zero_pipe)" "files bss = (\<lambda>_. zero_file)" "devsw bss = (\<lambda>_. None)"
  by (simp_all add: bss_def)

end
