(* ===== verification/LogProps.thy ===== *)
theory LogProps
  imports LogStore Boot
begin

text \<open>
  The write-ahead log (\<^verbatim>\<open>kernel/log.c\<close>) across crashes: a commit is atomic, and recovery may itself be
  interrupted and repeated.
\<close>

section \<open>A crash during recovery\<close>

lemma apply_writes_absorb:
  "fst ` set ws \<subseteq> fst ` set vs \<Longrightarrow> apply_writes vs (apply_writes ws f) = apply_writes vs f"
proof -
  have same: "apply_writes vs f b = apply_writes vs g b" if "b \<in> fst ` set vs \<or> f b = g b" for f g b
    using that
  proof (induction vs arbitrary: f g)
    case (Cons v vs)
    obtain a x where v: "v = (a, x)" by force
    have "apply_writes vs (f(a := x)) b = apply_writes vs (g(a := x)) b"
      by (rule Cons.IH) (use Cons.prems v in auto)
    then show ?case by (simp add: v)
  qed simp
  assume sub: "fst ` set ws \<subseteq> fst ` set vs"
  show ?thesis
  proof (rule ext)
    fix b
    show "apply_writes vs (apply_writes ws f) b = apply_writes vs f b"
      by (rule same) (use sub apply_writes_other [of b ws f] in auto)
  qed
qed

text \<open>A log that recovery can install: its header is empty or names blocks outside the log.\<close>

definition log_valid :: "u32 \<Rightarrow> (nat \<Rightarrow> u32) \<Rightarrow> (u32 \<Rightarrow> block) \<Rightarrow> bool" where
  "log_valid H sl D \<longleftrightarrow> head_n (D H) \<le> 29 \<and>
     (\<forall>j<nat (head_n (D H)). head_blk (D H) j \<notin> insert H (sl ` {..<29}))"

lemma recovery_prefix_again:
  assumes v: "log_valid H sl D" and sl: "\<And>j. j < 29 \<Longrightarrow> sl j \<noteq> H" and b: "b \<noteq> H"
    and D': "D' = apply_writes (take k (recovery_writes H sl D)) D"
  shows "apply_writes (recovery_writes H sl D') D' b = apply_writes (recovery_writes H sl D) D b" "log_valid H sl D'"
proof -
  let ?n = "nat (head_n (D H))" and ?W = "map (\<lambda>j. (head_blk (D H) j, D (sl j))) [0..<nat (head_n (D H))]"
  have n: "?n \<le> 29" using v by (auto simp: log_valid_def)
  have blk: "head_blk (D H) j \<noteq> H \<and> (i < 29 \<longrightarrow> sl i \<noteq> head_blk (D H) j)" if "j < ?n" for i j
    using v [unfolded log_valid_def] that by (metis image_eqI insertCI lessThan_iff)
  have fW: "fst ` set ?W = head_blk (D H) ` {..<?n}" by force
  have HW: "H \<notin> fst ` set ?W" unfolding fW by (metis blk imageE lessThan_iff)
  have sW: "sl j \<notin> fst ` set ?W" if "j < 29" for j unfolding fW by (metis blk that imageE lessThan_iff)
  have "apply_writes (recovery_writes H sl D') D' b = apply_writes (recovery_writes H sl D) D b \<and> log_valid H sl D'"
  proof (cases "k \<le> ?n")
    case True
    then have D1: "D' = apply_writes (take k ?W) D" by (simp add: D' recovery_writes_def)
    have sub: "fst ` set (take k ?W) \<subseteq> fst ` set ?W" by (rule image_mono) (rule set_take_subset)
    have H: "D' H = D H" unfolding D1 by (rule apply_writes_other) (use sub HW in auto)
    have S: "D' (sl j) = D (sl j)" if "j < 29" for j
      unfolding D1 by (rule apply_writes_other) (use sub sW [OF that] in auto)
    have "recovery_writes H sl D' = recovery_writes H sl D"
      using n S by (simp add: recovery_writes_def H)
    moreover have "apply_writes (recovery_writes H sl D) D' = apply_writes (recovery_writes H sl D) D"
      unfolding D1 by (rule apply_writes_absorb) (use sub in \<open>auto simp: recovery_writes_def\<close>)
    ultimately show ?thesis using v by (simp add: log_valid_def H)
  next
    case False
    then have D1: "D' = apply_writes (recovery_writes H sl D) D" by (simp add: D' recovery_writes_def)
    then have "D' H = st32 (D H) 0 0" by (simp add: recovery_writes_def)
    then have "head_n (D' H) = 0" by (simp add: head_n_def)
    then have "recovery_writes H sl D' = [(H, st32 (D' H) 0 0)]" by (simp add: recovery_writes_def)
    then show ?thesis using b \<open>head_n (D' H) = 0\<close> by (simp add: D1 [symmetric] log_valid_def)
  qed
  then show "apply_writes (recovery_writes H sl D') D' b = apply_writes (recovery_writes H sl D) D b" "log_valid H sl D'"
    by auto
qed

lemma initlog_run:
  assumes c: "cold d r" and v: "log_valid H (\<lambda>j. H + of_nat j + 1) (disk r)"
  shows "\<exists>r'. initlog r d H nlog = Ret r' \<and> cold d r' \<and>
    written r' = written r @ recovery_writes H (\<lambda>j. H + of_nat j + 1) (disk r) \<and>
    disk r' = apply_writes (recovery_writes H (\<lambda>j. H + of_nat j + 1) (disk r)) (disk r)"
proof -
  define t where "t = r\<lparr>log_start := H, log_size := sint nlog, log_dev := d\<rparr>"
  have slot: "log_slot t = (\<lambda>j. H + of_nat j + 1)" by (simp add: log_slot_def t_def fun_eq_iff)
  have t: "cold (log_dev t) t" "log_start t = H" "log_dev t = d" "disk t = disk r" "written t = written r"
    using c by (simp_all add: t_def cold_def bok_log_fields)
  have area: "log_area t = insert H ((\<lambda>j. H + of_nat j + 1) ` {..<29})" by (simp add: log_area_def slot t)
  obtain r' where r': "recover_from_log t = Ret r'" "bok d r'"
      "babs d r' = (babs d t)\<lparr>av := apply_writes (recovery_writes H (log_slot t) (disk r)) (disk r),
         ad := apply_writes (recovery_writes H (log_slot t) (disk r)) (disk r), aw := written r @ recovery_writes H (log_slot t) (disk r)\<rparr>"
    using recover_run [OF t(1)] v by (auto simp: t Let_def log_valid_def area)
  have "initlog r d H nlog = Ret r'"
    using r'(1) by (simp add: initlog_def t_def LOGSIZE_def MAXOPBLOCKS_def BSIZE_def)
  moreover have "cold d r'" using r'(2,3) t(1,3) by (simp add: cold_def)
  ultimately show ?thesis
    using arg_cong [OF r'(3), of ad] arg_cong [OF r'(3), of aw] by (simp add: slot)
qed

lemma slot_not_head: "j < 29 \<Longrightarrow> H + of_nat j + 1 \<noteq> (H :: u32)"
proof
  assume j: "j < 29" and "H + of_nat j + 1 = H"
  then have "(of_nat j + 1 :: u32) = 0" by (simp add: add.assoc)
  then have "unat (of_nat (j + 1) :: u32) = 0" by (simp add: add.commute)
  then show False using j by (simp add: unat_of_nat del: of_nat_add of_nat_Suc)
qed

lemma far_from_log: "j < 29 \<Longrightarrow> (40 :: u32) \<noteq> 3 + of_nat j \<and> (41 :: u32) \<noteq> 3 + of_nat j"
proof -
  assume j: "j < 29"
  then have "(of_nat j :: u32) \<noteq> 37" "(of_nat j :: u32) \<noteq> 38" by (simp_all add: word_unat_eq_iff unat_of_nat)
  then show ?thesis by (auto simp: algebra_simps)
qed

text \<open>The cache as \<open>binit\<close> leaves it is cold for every device.\<close>

lemma cold_bss: "d \<noteq> 0 \<Longrightarrow> bufs s = bufs bss \<Longrightarrow> lru s = lru bss \<Longrightarrow> cold d s"
proof -
  assume d: "d \<noteq> 0" and s: "bufs s = bufs bss" "lru s = lru bss"
  then have "slot_of s d b = None" for b by (auto simp: slot_of_def find_None_iff zero_buf_def)
  then show ?thesis using d s by (auto simp: cold_def bok_def babs_def zero_buf_def initsleeplock_def)
qed

lemma commit_writes_home:
  assumes "log_ready s" "(b, x) \<in> set (commit_writes s)" "b \<notin> log_area s"
  shows "x = av (babs (log_dev s) s) b"
  using assms by (auto simp: commit_writes_def Let_def log_area_def log_ready_def)

text \<open>
  What a commit promises: \<open>A\<close> is the log area, \<open>old\<close> and \<open>new\<close> the blocks before and after, and \<open>ws\<close> the
  writes of the commit.  After any prefix of the writes, recovery gives all old or all new blocks.
\<close>

definition recovers :: "'z klog_scheme \<Rightarrow> u32 set \<Rightarrow> u32 \<Rightarrow> u32 \<Rightarrow> (u32 \<Rightarrow> block) \<Rightarrow> (u32 \<Rightarrow> block) \<Rightarrow> (u32 \<times> block) list \<Rightarrow> bool" where
  "recovers (r :: 'z klog_scheme) A d H old new ws \<longleftrightarrow>
     (\<forall>k nlog. cold d r \<and> disk r = apply_writes (take k ws) old \<longrightarrow>
       (\<exists>r'. initlog r d H nlog = Ret r' \<and> head_n (disk r' H) = 0 \<and>
         ((\<forall>b. b \<notin> A \<longrightarrow> disk r' b = old b) \<or> (\<forall>b. b \<notin> A \<longrightarrow> disk r' b = new b))))"

lemma commit_atomic:
  fixes s r :: "'z klog_scheme"
  assumes "log_ready s" "head_n (disk s (log_start s)) = 0"
  shows "\<exists>s' ws. commit s = Ret s' \<and> cold (log_dev s) s' \<and> lh_n s' = 0 \<and> brest (s'\<lparr>lh_n := lh_n s\<rparr>) = brest s \<and>
    head_n (disk s' (log_start s)) = 0 \<and> written s' = written s @ ws \<and> (\<forall>b. b \<notin> log_area s \<longrightarrow> disk s' b = view s b) \<and>
    (\<forall>r :: 'z klog_scheme. recovers r (log_area s) (log_dev s) (log_start s) (disk s) (view s) ws)"
proof (cases "lh_n s = 0")
  case True
  then have cold: "cold (log_dev s) s" using assms(1) by (simp add: log_ready_def cold_def)
  moreover have "recovers r (log_area s) (log_dev s) (log_start s) (disk s) (view s) []" for r :: "'z klog_scheme"
    using crash_recovers [OF assms, of r 0] by (auto simp: recovers_def)
  moreover have "brest (s\<lparr>lh_n := 0\<rparr>) = brest s" using True by (cases s) simp
  ultimately show ?thesis using True assms(2) cold_view [OF cold]
    by (intro exI [of _ s] exI [of _ "[]"]) (simp add: commit_def)
next
  case False
  then have "0 < lh_n s" using assms(1) by (simp add: log_ready_def)
  then obtain s' where s': "commit s = Ret s'" "bok (log_dev s) s'" "lh_n s' = 0" "brest (s'\<lparr>lh_n := lh_n s\<rparr>) = brest s"
      "babs (log_dev s) s' = (babs (log_dev s) s)\<lparr>av := apply_writes (commit_writes s) (view s), ar := (\<lambda>_. 0),
       ad := apply_writes (commit_writes s) (disk s), aw := written s @ commit_writes s\<rparr>"
    using commit_run [OF assms(1)] by blast
  have d: "disk s' = apply_writes (commit_writes s) (disk s)" "written s' = written s @ commit_writes s"
    using babs_ad_aw [OF s'(5)] by simp_all
  have "disk s' b = view s b" if b: "b \<notin> log_area s" for b
  proof -
    have "disk s' b = apply_writes (commit_writes s) (view s) b"
      using unheld_clean [OF s'(2), of b] s'(5) d(1) by simp
    then show ?thesis
      using apply_writes_cases [of "commit_writes s" "view s" b] commit_writes_home [OF assms(1) _ b] by auto
  qed
  moreover have "cold (log_dev s) s'" using s'(2,5) assms(1) by (simp add: cold_def log_ready_def)
  moreover have "head_n (disk s' (log_start s)) = 0" by (simp add: d commit_writes_def Let_def head_n_block)
  moreover have "recovers r (log_area s) (log_dev s) (log_start s) (disk s) (view s) (commit_writes s)" for r :: "'z klog_scheme"
    unfolding recovers_def
  proof (intro allI impI, goal_cases)
    case (1 k nlog)
    then show ?case using crash_recovers [OF assms, of r k nlog] by (cases "k \<le> nat (lh_n s)") auto
  qed
  ultimately show ?thesis using s'(1,3,4) d(2) by blast
qed

section \<open>Transactions\<close>

text \<open>
  The use of the log that the head of \<^verbatim>\<open>log.c\<close> describes: between \<open>begin_op\<close> and \<open>end_op\<close> the client reads
  blocks, changes them, logs them and releases them.
\<close>

fun tx_updates :: "'z klog_scheme \<Rightarrow> (u32 \<times> (block \<Rightarrow> block)) list \<Rightarrow> 'z klog_scheme res" where
  "tx_updates s [] = Ret s"
| "tx_updates s ((b, f) # us) =
     bindr (bread s (log_dev s) b) (\<lambda>(i, s1).
     bindr (log_write (set_bdata s1 i (f (bdata s1 i))) i) (\<lambda>s2.
     bindr (brelse s2 i) (\<lambda>s3. tx_updates s3 us)))"

definition transaction :: "'z klog_scheme \<Rightarrow> (u32 \<times> (block \<Rightarrow> block)) list \<Rightarrow> 'z klog_scheme res" where
  "transaction s us = bindr (begin_op s) (\<lambda>s1. bindr (tx_updates s1 us) end_op)"

definition effect :: "(u32 \<times> (block \<Rightarrow> block)) list \<Rightarrow> (u32 \<Rightarrow> block) \<Rightarrow> u32 \<Rightarrow> block" where
  "effect us D = fold (\<lambda>(b, f) D. D(b := f (D b))) us D"

definition log_idle :: "'z klog_scheme \<Rightarrow> bool" where
  "log_idle s \<longleftrightarrow> cold (log_dev s) s \<and> lh_n s = 0 \<and> log_outstanding s = 0 \<and> \<not> log_committing s \<and> log_size s = 30 \<and>
     head_n (disk s (log_start s)) = 0"

lemma tx_updates_run:
  fixes s :: "'z klog_scheme"
  assumes "log_inv d s {}" "card (logged s) + length us \<le> log_cap s" "\<forall>(b, f)\<in>set us. b \<notin> log_area s"
  shows "\<exists>s'. tx_updates s us = Ret s' \<and> log_inv d s' {} \<and> view s' = effect us (view s) \<and> disk s' = disk s \<and> lrest s' = lrest s \<and>
    logged s' = logged s \<union> fst ` set us"
  using assms
proof (induction us arbitrary: s)
  case (Cons u us)
  obtain b f where u: "u = (b, f)" by force
  have d: "log_dev s = d" using Cons.prems(1) by (simp add: log_inv_def)
  have room: "b \<in> logged s \<or> card (logged s \<union> {}) < NBUF" "b \<notin> log_area s" "card (logged s) < log_cap s"
    using Cons.prems(2,3) by (auto simp: u log_cap_def NBUF_def split: if_splits)
  obtain i s1 where r: "bread s d b = Ret (i, s1)" "bdata s1 i = view s b" and
    "\<forall>x. \<exists>s2 s'. log_write (set_bdata s1 i x) i = Ret s2 \<and> brelse s2 i = Ret s' \<and> log_inv d s' {} \<and> av (babs d s') = (view s)(b := x) \<and>
      logged s' = insert b (logged s) \<and> lstore.kept d s s'"
    using lstore.update [OF Cons.prems(1) _ room] d by auto
  then obtain s2 s3 where t: "log_write (set_bdata s1 i (f (view s b))) i = Ret s2" "brelse s2 i = Ret s3" "log_inv d s3 {}"
      "av (babs d s3) = (view s)(b := f (view s b))" "logged s3 = insert b (logged s)" "lstore.kept d s s3" by blast
  have k: "disk s3 = disk s" "log_cap s3 = log_cap s" "log_area s3 = log_area s" "lrest s3 = lrest s"
    using t(6) by (simp_all add: lstore.kept_def)
  have "card (logged s3) \<le> Suc (card (logged s))" by (simp add: t(5) card_insert_if)
  then have "\<exists>s'. tx_updates s3 us = Ret s' \<and> log_inv d s' {} \<and> view s' = effect us (view s3) \<and> disk s' = disk s3 \<and> lrest s' = lrest s3 \<and>
      logged s' = logged s3 \<union> fst ` set us"
    by (intro Cons.IH) (use t(3) Cons.prems(2,3) in \<open>auto simp: k u\<close>)
  moreover have "tx_updates s (u # us) = tx_updates s3 us" using r t(1,2) by (simp add: u d)
  moreover have "log_dev s3 = d" using t(3) by (simp add: log_inv_def)
  ultimately show ?case using t(4,5) k by (auto simp: effect_def u)
qed (simp add: effect_def)

lemma cache_counters:
  "bok d (s\<lparr>log_outstanding := a\<rparr>) = bok d s" "bok d (s\<lparr>log_committing := c\<rparr>) = bok d s"
  "babs d (s\<lparr>log_outstanding := a\<rparr>) = babs d s" "babs d (s\<lparr>log_committing := c\<rparr>) = babs d s"
  "bok d (wakeup s ch) = bok d s" "babs d (wakeup s ch) = babs d s"
  by (simp_all add: bok_def babs_def slot_of_def wakeup_eq cong: option.case_cong if_cong)

lemma log_counters:
  "log_area (s\<lparr>log_outstanding := a\<rparr>) = log_area s" "log_area (s\<lparr>log_committing := c\<rparr>) = log_area s"
  "log_ready (s\<lparr>log_outstanding := a\<rparr>) = log_ready s" "log_ready (s\<lparr>log_committing := c\<rparr>) = log_ready s"
  "cold d (s\<lparr>log_outstanding := a\<rparr>) = cold d s" "cold d (s\<lparr>log_committing := c\<rparr>) = cold d s"
  "cold d (wakeup s ch) = cold d s"
  by (simp_all add: log_area_def log_slot_def log_ready_def cold_def cache_counters cong: image_cong_simp)

text \<open>
  C1: A transaction is atomic with respect to crashes.  With the log idle, \<open>begin_op\<close>, up to ten updates of
  blocks outside the log (\<open>MAXOPBLOCKS\<close>) and \<open>end_op\<close> run without a panic or a wait, the log is idle again,
  and the blocks on the disk outside the log are the updated ones.  If the machine stops after any
  number of the disk writes, the recovery at the next boot succeeds and leaves all blocks outside the log
  with their old contents, or all of them with their new contents.
\<close>

theorem transaction_atomic:
  fixes s :: "'z klog_scheme"
  assumes "log_idle s" "length us \<le> 10" "\<forall>(b, f)\<in>set us. b \<notin> log_area s"
  shows "\<exists>s' ws. transaction s us = Ret s' \<and> log_idle s' \<and> written s' = written s @ ws \<and>
    (\<forall>b. b \<notin> log_area s \<longrightarrow> disk s' b = effect us (disk s) b) \<and>
    (\<forall>r :: 'z klog_scheme. recovers r (log_area s) (log_dev s) (log_start s) (disk s) (effect us (disk s)) ws)"
proof -
  let ?d = "log_dev s"
  define s1 where "s1 = s\<lparr>log_outstanding := log_outstanding s + 1\<rparr>"
  have b: "begin_op s = Ret s1" using assms(1) by (simp add: begin_op_def s1_def log_idle_def LOGSIZE_def MAXOPBLOCKS_def)
  have i1: "log_inv ?d s1 {}" "logged s1 = {}" "log_cap s1 = 29" "log_area s1 = log_area s" "view s1 = disk s"
    using assms(1) by (auto simp: s1_def log_inv_ready log_counters cache_counters logged_def log_cap_def log_idle_def cold_view log_ready_def cold_def)
  obtain s2 where s2: "tx_updates s1 us = Ret s2" "log_inv ?d s2 {}" "view s2 = effect us (disk s)" "disk s2 = disk s" "lrest s2 = lrest s1"
    using tx_updates_run [OF i1(1), of us] assms(2,3) i1 by (auto simp: s1_def)
  note e = lrest_log [OF s2(5)]
  define t where "t = s2\<lparr>log_outstanding := 0, log_committing := True\<rparr>"
  have t: "log_ready t" "log_dev t = ?d" "log_start t = log_start s" "disk t = disk s" "view t = effect us (disk s)" "written t = written s"
    using s2(2-4) e by (simp_all add: t_def log_counters cache_counters log_inv_ready s1_def)
  have area: "log_area t = log_area s" by (simp add: log_area_def log_slot_def t cong: image_cong_simp)
  have h0: "head_n (disk t (log_start t)) = 0" using assms(1) by (simp add: t log_idle_def)
  obtain s3 ws where s3: "commit t = Ret s3" "cold ?d s3" "lh_n s3 = 0" "brest (s3\<lparr>lh_n := lh_n t\<rparr>) = brest t"
      "head_n (disk s3 (log_start s)) = 0" "written s3 = written s @ ws" "\<forall>b. b \<notin> log_area s \<longrightarrow> disk s3 b = effect us (disk s) b"
      "\<forall>r :: 'z klog_scheme. recovers r (log_area s) ?d (log_start s) (disk s) (effect us (disk s)) ws"
    using commit_atomic [OF t(1) h0, unfolded t area] t(5) [unfolded t(2)] by auto
  note e3 = brest_log [OF s3(4), simplified]
  let ?s' = "wakeup (s3\<lparr>log_committing := False\<rparr>) ChanLog"
  have "end_op s2 = Ret ?s'" using assms(1) s3(1) e by (simp add: end_op_def t_def s1_def log_idle_def)
  then have "transaction s us = Ret ?s'" by (simp add: transaction_def b s2(1))
  moreover have "log_idle ?s'" using s3(2,3,5) e e3 assms(1) by (simp add: log_idle_def log_counters t_def s1_def) (simp add: wakeup_eq)
  ultimately show ?thesis using s3(6-8) by (intro exI [of _ ?s'] exI [of _ ws]) (simp add: wakeup_eq)
qed

theorem transaction_atomic_witness:
  "\<exists>s' ws. transaction (bss\<lparr>log_start := 2, log_dev := 1, log_size := 30\<rparr>) [(40, \<lambda>x. x(5 := x 5 + 7)), (41, \<lambda>_ _. 9)] = Ret s' \<and>
    disk s' 40 = (\<lambda>_. 0)(5 := 7) \<and> disk s' 41 = (\<lambda>_. 9) \<and> written s' = ws \<and>
    (\<forall>k. \<exists>r'. initlog (bss\<lparr>disk := apply_writes (take k ws) (\<lambda>_ _. 0)\<rparr>) 1 2 30 = Ret r' \<and>
      (disk r' 40 = (\<lambda>_. 0) \<and> disk r' 41 = (\<lambda>_. 0) \<or> disk r' 40 = (\<lambda>_. 0)(5 := 7) \<and> disk r' 41 = (\<lambda>_. 9)))"
proof -
  let ?s = "bss\<lparr>log_start := 2, log_dev := 1, log_size := 30\<rparr>" and ?us = "[(40, \<lambda>x. x(5 := x 5 + 7)), (41, \<lambda>_ _. 9)] :: (u32 \<times> (block \<Rightarrow> block)) list"
  have out: "40 \<notin> log_area ?s" "41 \<notin> log_area ?s" using far_from_log by (auto simp: log_area_def log_slot_def)
  have idle: "log_idle ?s" by (auto simp: log_idle_def head_n_def ld32_def intro: cold_bss)
  have eff: "effect ?us (\<lambda>_ _. 0) = (\<lambda>_ _. 0)(40 := (\<lambda>_. 0)(5 := 7), 41 := (\<lambda>_. 9))" by (simp add: effect_def)
  obtain s' ws where s': "transaction ?s ?us = Ret s'" "written s' = ws" "\<forall>b. b \<notin> log_area ?s \<longrightarrow> disk s' b = effect ?us (\<lambda>_ _. 0) b"
      "\<And>r :: ktrap. recovers r (log_area ?s) 1 2 (\<lambda>_ _. 0) (effect ?us (\<lambda>_ _. 0)) ws"
    using transaction_atomic [OF idle, of ?us] out by auto
  have "\<exists>r'. initlog (bss\<lparr>disk := apply_writes (take k ws) (\<lambda>_ _. 0)\<rparr>) 1 2 30 = Ret r' \<and>
      (disk r' 40 = (\<lambda>_. 0) \<and> disk r' 41 = (\<lambda>_. 0) \<or> disk r' 40 = (\<lambda>_. 0)(5 := 7) \<and> disk r' 41 = (\<lambda>_. 9))" for k
    using s'(4) [of "bss\<lparr>disk := apply_writes (take k ws) (\<lambda>_ _. 0)\<rparr>", unfolded recovers_def, rule_format, of k 30] out
    by (auto simp: cold_bss eff)
  then show ?thesis using s'(1-3) out by (auto simp: eff)
qed

text \<open>
  C7: Recovery can be interrupted and repeated.  With a valid log on the disk, recovery succeeds; if
  the machine stops after any number of its writes and recovery is run again on what is then on the
  disk, it succeeds too and every block outside the log ends with the same contents.
\<close>

theorem recovery_restartable:
  fixes r q :: "'z klog_scheme"
  assumes "cold d r" "log_valid H (\<lambda>j. H + of_nat j + 1) (disk r)"
    and "cold d q" "disk q = apply_writes (take k (recovery_writes H (\<lambda>j. H + of_nat j + 1) (disk r))) (disk r)"
  shows "\<exists>r' q'. initlog r d H nlog = Ret r' \<and>
    written r' = written r @ recovery_writes H (\<lambda>j. H + of_nat j + 1) (disk r) \<and>
    initlog q d H nlog = Ret q' \<and> (\<forall>b. b \<noteq> H \<longrightarrow> disk q' b = disk r' b)"
proof -
  note again = recovery_prefix_again [OF assms(2) slot_not_head _ assms(4)]
  have "log_valid H (\<lambda>j. H + of_nat j + 1) (disk q)" by (rule again(2) [of "H + 1"]) simp_all
  then obtain q' where "initlog q d H nlog = Ret q'"
      "disk q' = apply_writes (recovery_writes H (\<lambda>j. H + of_nat j + 1) (disk q)) (disk q)"
    using initlog_run [OF assms(3)] by blast
  then show ?thesis using initlog_run [OF assms(1,2), of nlog] again(1) by (metis (no_types, lifting))
qed

theorem recovery_restartable_witness:
  "\<exists>r' q'. initlog (bss\<lparr>disk := (\<lambda>_ _. 0)(2 := st32 (st32 (\<lambda>_. 0) 0 1) 4 40, 3 := (\<lambda>_. 7))\<rparr>) 1 2 30 = Ret r' \<and> disk r' 40 = (\<lambda>_. 7) \<and>
    initlog (bss\<lparr>disk := (\<lambda>_ _. 0)(2 := st32 (st32 (\<lambda>_. 0) 0 1) 4 40, 3 := (\<lambda>_. 7), 40 := (\<lambda>_. 7))\<rparr>) 1 2 30 = Ret q' \<and>
    disk q' 40 = disk r' 40"
proof -
  let ?H = "st32 (st32 (\<lambda>_. 0) 0 1) 4 40 :: block"
  let ?r = "bss\<lparr>disk := (\<lambda>_ _. 0)(2 := ?H, 3 := (\<lambda>_. 7))\<rparr>"
    and ?q = "bss\<lparr>disk := (\<lambda>_ _. 0)(2 := ?H, 3 := (\<lambda>_. 7), 40 := (\<lambda>_. 7))\<rparr>"
  have h: "head_n ?H = 1" "head_blk ?H 0 = 40" by (simp_all add: head_n_def head_blk_def ld_st_other)
  have rw: "recovery_writes 2 (\<lambda>j. 2 + of_nat j + 1) (disk ?r) = [(40, \<lambda>_. 7), (2, st32 ?H 0 0)]"
    by (simp add: recovery_writes_def h)
  have valid: "log_valid 2 (\<lambda>j. 2 + of_nat j + 1) (disk ?r)"
    using far_from_log by (simp add: log_valid_def h image_def)
  from recovery_restartable [of 1 ?r 2 ?q 1 30, OF cold_bss valid cold_bss, unfolded rw] obtain r' q' where
    "initlog ?r 1 2 30 = Ret r'" "initlog ?q 1 2 30 = Ret q'" "disk q' 40 = disk r' 40"
    by (auto simp: fun_upd_twist)
  moreover have "disk r' 40 = (\<lambda>_. 7)" if "initlog ?r 1 2 30 = Ret r'" for r'
    using initlog_run [of 1 ?r 2 30, OF cold_bss valid, unfolded rw] that by auto
  ultimately show ?thesis by blast
qed

lemma tx_updates_append: "tx_updates s (us @ vs) = bindr (tx_updates s us) (\<lambda>s'. tx_updates s' vs)"
  by (induction us arbitrary: s) (auto simp: bindr_assoc case_prod_beta')

lemma log_write_full: "log_size s - 1 \<le> lh_n s \<Longrightarrow> log_write s i = Panic ''too big a transaction''"
  by (simp add: log_write_def)

text \<open>
  C17: Three system calls at once can overflow the log.  With the log idle, \<open>begin_op\<close> admits three
  operations, reserving \<open>MAXOPBLOCKS\<close> blocks for each, \<open>LOGSIZE\<close> in all; but the log has one block less, because
  \<open>log.size\<close> counts the header.  When the three operations use what they have reserved, thirty different
  blocks, the last \<open>log_write\<close> panics.
\<close>

theorem full_reservation_panics:
  fixes s :: "'z klog_scheme"
  assumes "log_idle s" "distinct (map fst us)" "length us = 30" "\<forall>(b, f)\<in>set us. b \<notin> log_area s"
  shows "\<exists>s1 s2 s3. begin_op s = Ret s1 \<and> begin_op s1 = Ret s2 \<and> begin_op s2 = Ret s3 \<and>
    tx_updates s3 us = Panic ''too big a transaction''"
proof -
  let ?d = "log_dev s" and ?s = "\<lambda>n. s\<lparr>log_outstanding := n\<rparr>"
  have b: "begin_op s = Ret (?s 1)" "begin_op (?s 1) = Ret (?s 2)" "begin_op (?s 2) = Ret (?s 3)"
    using assms(1) by (simp_all add: begin_op_def log_idle_def LOGSIZE_def MAXOPBLOCKS_def)
  obtain vs b f where us: "us = vs @ [(b, f)]" using assms(3) by (cases us rule: rev_cases) auto
  have i: "log_inv ?d (?s 3) {}" "logged (?s 3) = {}" "log_cap (?s 3) = 29"
    using assms(1) by (auto simp: log_inv_ready log_counters cache_counters logged_def log_cap_def log_idle_def log_ready_def cold_def)
  obtain t where t: "tx_updates (?s 3) vs = Ret t" "log_inv ?d t {}" "lrest t = lrest (?s 3)" "logged t = fst ` set vs"
    using tx_updates_run [OF i(1), of vs] assms(3,4) i by (auto simp: us log_counters)
  have "card (logged t) = 29" using assms(2,3) t(4) by (simp add: us distinct_card flip: set_map)
  then have n: "lh_n t = 29" using card_logged [OF t(2)] by simp
  have d: "log_dev t = ?d" "log_size t = 30" using lrest_log [OF t(3)] assms(1) by (simp_all add: log_idle_def)
  have "card (logged t \<union> {}) < NBUF" using \<open>card (logged t) = 29\<close> by (simp add: NBUF_def)
  then obtain j t1 where r: "bread t ?d b = Ret (j, t1)" "brest t1 = brest t"
    using bread_logged [OF t(2), of b] by auto
  have "lh_n t1 = 29" "log_size t1 = 30" using brest_log [OF r(2)] n d by simp_all
  then have "log_write (set_bdata t1 j x) j = Panic ''too big a transaction''" for x
    by (intro log_write_full) (simp add: set_bdata_def upd_buf_def)
  then have "tx_updates t [(b, f)] = Panic ''too big a transaction''" using r(1) by (simp add: d)
  then show ?thesis using b t(1) by (auto simp: us tx_updates_append)
qed

theorem full_reservation_panics_witness:
  "\<exists>s1 s2 s3. begin_op (bss\<lparr>log_start := 2, log_dev := 1, log_size := 30\<rparr>) = Ret s1 \<and> begin_op s1 = Ret s2 \<and> begin_op s2 = Ret s3 \<and>
    tx_updates s3 (map (\<lambda>j. (100 + of_nat j, \<lambda>_ _. 1)) [0..<30]) = Panic ''too big a transaction''"
proof -
  let ?s = "bss\<lparr>log_start := 2, log_dev := 1, log_size := 30\<rparr>" and ?us = "map (\<lambda>j. (100 + of_nat j, \<lambda>_ _. 1)) [0..<30] :: (u32 \<times> (block \<Rightarrow> block)) list"
  have idle: "log_idle ?s" by (auto simp: log_idle_def head_n_def ld32_def intro: cold_bss)
  have nz: "unat (100 + of_nat j :: u32) = 100 + j" if "j < 30" for j
    using that by (simp add: unat_word_ariths unat_of_nat)
  have "distinct (map fst ?us)"
    by (auto simp: distinct_map o_def inj_on_def word_unat_eq_iff nz simp del: upt_rec_numeral)
  moreover have "100 + of_nat j \<notin> log_area ?s" if "j < 30" for j :: nat
  proof
    assume "100 + of_nat j \<in> log_area ?s"
    then consider "(100 + of_nat j :: u32) = 2" | i :: nat where "i < 29" "(100 + of_nat j :: u32) = 3 + of_nat i"
      by (auto simp: log_area_def log_slot_def)
    then show False by cases (use nz [OF that] in \<open>auto simp: word_unat_eq_iff unat_word_ariths unat_of_nat\<close>)
  qed
  ultimately show ?thesis using full_reservation_panics [OF idle, of ?us] by (auto simp del: upt_rec_numeral)
qed

end
