(* ===== verification/FsProps.thy ===== *)
theory FsProps
  imports InodeSpec DirSpec LogProps VmProps
begin

text \<open>
  The properties of the block allocator, of inodes and of file contents.
\<close>

section \<open>A concrete file system\<close>

text \<open>
  The layout of a freshly made disk: log at 2, inodes at 32, bitmap at 45.  Inode 2 is a file of five bytes
  in block 46, inode 1 a directory with the entries \<open>.\<close> and \<open>..\<close> in block 47; a transaction is open.  The running
  process has one page of memory.
\<close>

definition hello :: ktrap where
  "hello = bss\<lparr>pmem := pmem one_page, freelist := freelist one_page, sym_end := sym_end one_page,
     procs := (\<lambda>_. zero_proc\<lparr>p_pagetable := 0x80100000\<rparr>), log_start := 2, log_dev := 1, log_size := 30, log_outstanding := 1,
     sb := zero_sb\<lparr>sb_size := 2000, sb_inodestart := 32, sb_bmapstart := 45\<rparr>,
     disk := (\<lambda>_ _. 0)(45 := (\<lambda>i. if i < 6 then 0xff else 0), 46 := (\<lambda>i. if i < 5 then [104, 101, 108, 108, 111] ! i else 0),
       47 := (\<lambda>i. if i = 0 \<or> i = 16 then 1 else if i = 2 \<or> i = 18 \<or> i = 19 then 46 else 0)),
     inodes := (\<lambda>_. zero_inode)(0 := zero_inode\<lparr>i_dev := 1, i_inum := 2, i_ref := 1, i_valid := True, i_type := T_FILE, i_nlink := 1,
       i_size := 5, i_addrs := (\<lambda>_. 0)(0 := 46)\<rparr>,
       2 := zero_inode\<lparr>i_dev := 1, i_inum := 1, i_ref := 1, i_valid := True, i_type := T_DIR, i_nlink := 1,
       i_size := 32, i_addrs := (\<lambda>_. 0)(0 := 47)\<rparr>)\<rparr>"

lemma hello_view: "log_inv 1 hello {}" "log_dev hello = 1" "view hello = disk hello" "logged hello = {}" "log_cap hello = 29"
    "log_area hello = insert 2 ((\<lambda>j. 3 + of_nat j) ` {..<29})"
proof -
  have c: "cold 1 hello" by (rule cold_bss) (simp_all add: hello_def)
  show "log_dev hello = 1" "logged hello = {}" "log_cap hello = 29" by (simp_all add: hello_def logged_def log_cap_def)
  then show "view hello = disk hello" using cold_view [OF c] by simp
  have "log_ready hello" using c by (simp add: log_ready_def cold_def hello_def)
  then show "log_inv 1 hello {}" by (simp add: log_inv_ready hello_def)
  show "log_area hello = insert 2 ((\<lambda>j. 3 + of_nat j) ` {..<29})" by (simp add: log_area_def log_slot_def hello_def cong: image_cong_simp)
qed

lemma hello_fields:
  "sb_size (sb hello) = 2000" "sb hello = zero_sb\<lparr>sb_size := 2000, sb_inodestart := 32, sb_bmapstart := 45\<rparr>" "curp hello = 0"
  "disk hello = (\<lambda>_ _. 0)(45 := (\<lambda>i. if i < 6 then 0xff else 0), 46 := (\<lambda>i. if i < 5 then [104, 101, 108, 108, 111] ! i else 0),
       47 := (\<lambda>i. if i = 0 \<or> i = 16 then 1 else if i = 2 \<or> i = 18 \<or> i = 19 then 46 else 0))"
  "inodes hello 0 = zero_inode\<lparr>i_dev := 1, i_inum := 2, i_ref := 1, i_valid := True, i_type := T_FILE, i_nlink := 1,
       i_size := 5, i_addrs := (\<lambda>_. 0)(0 := 46)\<rparr>"
  "inodes hello 2 = zero_inode\<lparr>i_dev := 1, i_inum := 1, i_ref := 1, i_valid := True, i_type := T_DIR, i_nlink := 1,
       i_size := 32, i_addrs := (\<lambda>_. 0)(0 := 47)\<rparr>"
  by (simp_all add: hello_def)

lemma hello_user: "p_pagetable (myproc hello) = 0x80100000" "uspace hello 0x80100000 1 {} []"
    "unat va < 4096 \<Longrightarrow> uwritable hello 0x80100000 va"
proof -
  show "p_pagetable (myproc hello) = 0x80100000" by (simp add: hello_def)
  show "uspace hello 0x80100000 1 {} []" using one_page_uspace uspace_cong [of hello one_page] by (simp add: hello_def)
  show "unat va < 4096 \<Longrightarrow> uwritable hello 0x80100000 va"
    using one_page_writable [of va] by (simp add: hello_def uwritable_def ureadable_def)
qed

lemma hello_BBLOCK: "n < 2000 \<Longrightarrow> BBLOCK (of_nat n) (sb hello) = 45"
proof -
  assume "n < 2000"
  then have "(of_nat n :: u32) div of_nat BPB = 0" by (simp add: word_unat_eq_iff unat_div unat_of_nat BPB_def BSIZE_def)
  then show ?thesis by (simp add: BBLOCK_def hello_fields)
qed

lemma hello_bitmap: "n < 2000 \<Longrightarrow> used hello n \<longleftrightarrow> n < 48"
proof -
  assume n: "n < 2000"
  have "bit (0xff :: u8) (n mod 8)"
  proof -
    have "(0xff :: u8) = - 1" by simp
    then show ?thesis by (simp only: bit_minus_1_iff) simp
  qed
  then show ?thesis using n hello_BBLOCK [OF n]
    by (auto simp: block_used_def hello_view(3) hello_fields(4) BPB_def BSIZE_def bit_maskD)
qed

lemma small_word: "n < 2000 \<Longrightarrow> unat (of_nat n :: u32) = n"
  by (simp add: unat_of_nat)

lemma hello_area: "n < 2000 \<Longrightarrow> of_nat n \<in> log_area hello \<Longrightarrow> n < 32"
  by (auto simp: hello_view(6) word_unat_eq_iff small_word unat_word_ariths unat_of_nat)

lemma hello_faddr: "faddr hello 0 k = (if k = 0 then 46 else 0)" "faddr hello 2 k = (if k = 0 then 47 else 0)"
  by (simp_all add: fblk_def hello_fields(5,6) NDIRECT_def zero_inode_def)

lemma hello_size: "fsize hello 0 = 5" "fsize hello 2 = 32"
  by (simp_all add: fsize_def hello_fields(5,6) zero_inode_def)

lemma hello_ok: "file_ok 1 hello 0" "file_ok 1 hello 2" "bitmap_ok hello {}"
proof -
  have area: "(45 :: u32) \<notin> log_area hello" "(46 :: u32) \<notin> log_area hello" "(47 :: u32) \<notin> log_area hello" "(32 :: u32) \<notin> log_area hello"
    using hello_area [of 45] hello_area [of 46] hello_area [of 47] hello_area [of 32] by auto
  have size: "fs_size hello = 2000" by (simp add: hello_fields(1))
  have bm: "bm_blocks (sb hello) = {45}" unfolding bm_blocks_def size using hello_BBLOCK [of 0] hello_BBLOCK by (auto simp: image_iff intro!: exI [of _ 0])
  have ib: "iblock hello 0 = 32" "iblock hello 2 = 32" by (simp_all add: hello_fields zero_inode_def IBLOCK_def IPB_def BSIZE_def)
  have free: "of_nat n \<noteq> (45 :: u32) \<and> of_nat n \<noteq> (32 :: u32) \<and> of_nat n \<notin> log_area hello \<and> n \<noteq> 0" if "n < 2000" "\<not> used hello n" for n
    using hello_bitmap [OF that(1)] that(2) hello_area [OF that(1)] small_word [OF that(1)] by (auto simp: word_unat_eq_iff)
  show ok: "bitmap_ok hello {}" unfolding bitmap_ok_def size using hello_BBLOCK area free by auto
  have F: "addrs_ok (faddr hello 0) (used hello) (forb hello (inodes hello 0)) 2000" "addrs_ok (faddr hello 2) (used hello) (forb hello (inodes hello 2)) 2000"
    unfolding addrs_ok_def hello_faddr using hello_bitmap [of 46] hello_bitmap [of 47] area by (auto simp: forb_def bm ib split: if_splits)
  have "file_inv 1 hello 0" "file_inv 1 hello 2"
    unfolding file_inv_def size ib bm using hello_view(1) ok F area(4) free by (simp_all add: hello_fields(5,6))
  then show "file_ok 1 hello 0" "file_ok 1 hello 2" unfolding file_ok_def hello_size hello_faddr by (simp_all add: BSIZE_def MAXFILE_def NDIRECT_def)
qed

lemma hello_byte:
  "x < 5 \<Longrightarrow> fbyte hello 0 x = [104, 101, 108, 108, 111] ! x"
  "x < 32 \<Longrightarrow> fbyte hello 2 x = (if x = 0 \<or> x = 16 then 1 else if x = 2 \<or> x = 18 \<or> x = 19 then 46 else 0)"
  by (simp_all add: fbyte_def hello_faddr Let_def BSIZE_def) (simp_all add: hello_view(3) hello_fields(4))

lemma hello_data: "fdata hello 0 = [104, 101, 108, 108, 111]"
  unfolding fdata_def hello_size by (rule nth_equalityI) (simp_all add: hello_byte)

lemma hello_dir: "dir_ok 1 hello 2" "dir_map hello 2 = [[46] \<mapsto> 1, [46, 46] \<mapsto> 1]"
proof -
  show "dir_ok 1 hello 2" using hello_ok(2) by (simp add: dir_ok_def hello_size) (simp add: hello_fields(6))
  have "fdata hello 2 = [1, 0, 46, 0, 0, 0, 0, 0, 0, 0, 0, 0, 0, 0, 0, 0, 1, 0, 46, 46, 0, 0, 0, 0, 0, 0, 0, 0, 0, 0, 0, 0]"
    unfolding fdata_def hello_size by (simp add: hello_byte(2) upt_conv_Cons)
  then show "dir_map hello 2 = [[46] \<mapsto> 1, [46, 46] \<mapsto> 1]"
    by (simp add: dir_map_def dents_of_def dent_at_def dent_of_def de_name_def de_inum_def entries_def DIRSIZ_def upt_conv_Cons fun_upd_twist)
qed

section \<open>Properties\<close>

text \<open>
  C21: The block allocator.  Inside a transaction with room for two more blocks, \<open>balloc\<close> returns the first
  block that the bitmap has free, marks that block and no other as used, and zeroes it; every block but
  this one and its bitmap block keeps its contents.  When no block is free it returns 0 and changes nothing.
\<close>

theorem balloc_first_free:
  fixes s :: "'z kfs_scheme"
  assumes "log_inv d s {}" "bitmap_ok s {}" "card (logged s) + 2 \<le> log_cap s"
  shows "\<exists>a s'. balloc s d = Ret (a, s') \<and> log_inv d s' {} \<and>
    (if \<forall>n<fs_size s. used s n then a = 0 \<and> view s' = view s
     else a \<noteq> 0 \<and> unat a < fs_size s \<and> \<not> used s (unat a) \<and> (\<forall>n<unat a. used s n) \<and>
       (\<forall>n<fs_size s. used s' n \<longleftrightarrow> used s n \<or> n = unat a) \<and> (\<forall>x<BSIZE. view s' a x = 0) \<and>
       (\<forall>b. b \<noteq> a \<and> b \<noteq> BBLOCK a (sb s) \<longrightarrow> view s' b = view s b))"
proof -
  have c: "card (logged s \<union> {}) + 1 < NBUF" using assms(3) by (auto simp: log_cap_def NBUF_def split: if_splits)
  show ?thesis using balloc_run [OF assms(1,2) c assms(3)]
  proof (elim disjE exE conjE)
    fix s' assume r: "balloc s d = Ret (0, s')" "fs_step d {} s (view s) (logged s) s'" "\<forall>n<fs_size s. used s n"
    then show ?thesis using fs_stepD(1,2,10) [OF r(2)] by auto
  next
    fix n s' assume r: "balloc s d = Ret (of_nat n, s')" "n < fs_size s" "\<not> used s n" "\<forall>m<n. used s m"
      "fs_step d {} s (alloc_view (sb s) (view s) n) (insert (of_nat n) (insert (BBLOCK (of_nat n) (sb s)) (logged s))) s'"
    note e = fs_stepD [OF r(5)]
    have big: "m < 2 ^ 32" if "m < fs_size s" for m using that unsigned_less [of "sb_size (sb s)", where ?'a = nat] by simp
    have n: "unat (of_nat n :: u32) = n" "n \<noteq> 0" "of_nat n \<noteq> BBLOCK (of_nat m) (sb s)" if "m < fs_size s" for m
      using that r(2,3) assms(2) big [OF r(2)] by (auto simp: unat_of_nat bitmap_ok_def)
    have "used s' m \<longleftrightarrow> used s m \<or> m = n" if "m < fs_size s" for m
      using block_used_alloc [OF big [OF that] big [OF r(2)] n(3) [OF that]] by (simp add: e)
    moreover have "view s' (of_nat n) x = 0" if "x < BSIZE" for x using that by (simp add: e alloc_view_def zero_block_def blk_fill_def)
    moreover have "view s' b = view s b" if "b \<noteq> of_nat n" "b \<noteq> BBLOCK (of_nat n) (sb s)" for b using that by (simp add: e alloc_view_def)
    moreover have "(of_nat n :: u32) \<noteq> 0" using n(1,2) [OF r(2)] by (auto simp: word_unat_eq_iff)
    ultimately show ?thesis using r(1-4) n(1) [OF r(2)] e(1) by (intro exI [of _ "of_nat n"] exI [of _ s']) auto
  qed
qed

theorem balloc_first_free_witness:
  "\<exists>s'. balloc hello 1 = Ret (48, s') \<and> used s' 48 \<and> \<not> used s' 49"
proof -
  have u: "used hello n \<longleftrightarrow> n < 48" if "n < fs_size hello" for n using that hello_bitmap [of n] by (simp add: hello_fields(1))
  have f: "48 < fs_size hello" by (simp add: hello_fields(1))
  then have free: "\<not> (\<forall>n<fs_size hello. used hello n)" using u by blast
  obtain a s' where r: "balloc hello 1 = Ret (a, s')" "unat a < fs_size hello" "\<not> used hello (unat a)" "\<forall>n<unat a. used hello n"
      "\<forall>n<fs_size hello. used s' n \<longleftrightarrow> used hello n \<or> n = unat a"
    using balloc_first_free [OF hello_view(1) hello_ok(3)] free by (simp add: hello_view(4,5)) blast
  have "\<not> unat a < 48" using r(2,3) u by blast
  moreover have "\<not> 48 < unat a" using r(4) u [OF f] by blast
  ultimately have "unat a = 48" by simp
  then have "a = 48" by (simp add: word_unat_eq_iff)
  then show ?thesis using r(1,5) u by (simp add: hello_fields(1))
qed

text \<open>
  C3: \<open>writei\<close> writes a file.  For a file without holes, an offset inside it, a transaction with room for the
  blocks, and a source from which all \<open>n\<close> bytes can be read (bytes of the kernel, or a user's buffer the process
  may read), \<open>writei\<close> returns how many bytes \<open>w\<close> it wrote; the contents of the file afterwards are the old contents
  with the first \<open>w\<close> bytes of the source over them from the offset on; \<open>w\<close> is less than asked for only when the disk
  is full; no block is changed but the bitmap, the inode's block, free blocks, and the file's own blocks; and no
  memory of the process is.  A user's buffer that cannot be read to its end is not covered: there \<open>writei\<close> stops at
  the block whose copy fails.
\<close>

theorem writei_overwrites:
  fixes s :: "'z kfs_scheme"
  assumes "file_ok d s ip" "off \<le> i_size (inodes s ip)" "unat off + unat n \<le> MAXFILE * BSIZE" "length bs = unat n"
    "card (logged s) + 6 * nblk (unat off) (unat n) + 1 \<le> log_cap s" "feeds s src bs"
  shows "\<exists>w s'. writei s ip src off n = Ret (of_nat w, s') \<and> w \<le> length bs \<and> file_ok d s' ip \<and>
    fdata s' ip = overwrite (fdata s ip) (unat off) (take w bs) \<and> (w < length bs \<longrightarrow> fs_full s') \<and>
    (\<forall>b. b \<notin> bm_blocks (sb s) \<and> \<not> fresh s b \<and> b \<notin> faddr s ip ` {..MAXFILE} \<and> b \<noteq> iblock s ip \<longrightarrow> view s' b = view s b) \<and>
    pmem s' = pmem s"
proof -
  obtain w s' where w: "w \<le> length bs" "writei s ip src off n = Ret (of_nat w, s')" "file_ok d s' ip"
      "fdata s' ip = overwrite (fdata s ip) (unat off) (take w bs)" "w < length bs \<longrightarrow> fs_full s'" "frest s' = frest s"
      "\<forall>b. b \<notin> bm_blocks (sb s) \<and> \<not> fresh s b \<and> b \<notin> faddr s ip ` {..MAXFILE} \<and> b \<noteq> iblock s ip \<longrightarrow> view s' b = view s b"
    using writei_run [OF assms] by blast
  then show ?thesis using frestD(8) [OF w(6)] by blast
qed

theorem writei_overwrites_witness:
  "\<exists>w s'. writei hello 0 (UserSrc 16) 3 4 = Ret (of_nat w, s') \<and> w \<le> 4 \<and>
    fdata s' 0 = overwrite [104, 101, 108, 108, 111] 3 (take w (ubytes hello 0x80100000 16 4))"
proof -
  have c: "card (logged hello) + 6 * nblk (unat (3 :: u32)) (unat (4 :: u32)) + 1 \<le> log_cap hello" by (simp add: hello_view nblk_def BSIZE_def)
  have "ureadable hello 0x80100000 (16 + of_nat i)" if "i < 4" for i
  proof -
    have "unat (16 + of_nat i :: u64) < 4096" using that by (simp add: unat_word_ariths unat_of_nat)
    then show ?thesis using hello_user(3) by (simp add: uwritable_def)
  qed
  then have f: "feeds hello (UserSrc 16) (ubytes hello 0x80100000 16 4)"
    using hello_user(2) by (auto simp: feeds_def hello_user(1))
  have o: "3 \<le> i_size (inodes hello 0)" "unat (3 :: u32) + unat (4 :: u32) \<le> MAXFILE * BSIZE"
    using hello_size by (simp_all add: fsize_def word_le_nat_alt BSIZE_def MAXFILE_def NDIRECT_def NINDIRECT_def)
  have l: "length (ubytes hello 0x80100000 16 4) = unat (4 :: u32)" by simp
  show ?thesis using writei_overwrites [OF hello_ok(1) o l c f] unfolding hello_data by auto
qed

text \<open>
  C5: \<open>readi\<close> reads a file.  For a file without holes and a range that does not wrap around, \<open>readi\<close> delivers the
  bytes of the file from the offset on, as many as were asked for or as there are, and changes neither the file
  nor any block.  Into an object of the kernel or at a kernel address it always succeeds and returns their number;
  at a user's address it returns their number with the bytes in the process's memory if all of them can be
  stored there, and -1 otherwise, and changes no memory but that of these bytes.
\<close>

theorem readi_reads:
  fixes s :: "'z kfs_scheme"
  assumes "file_ok d s ip" "\<not> off + n < off" "data = take (unat n) (drop (unat off) (fdata s ip))"
  shows "(\<exists>s'. readi s ip (ObjDst 0) off n = Ret (of_nat (length data), data, s') \<and>
      file_ok d s' ip \<and> fdata s' ip = fdata s ip \<and> view s' = view s \<and> pmem s' = pmem s) \<and>
    (\<exists>s'. readi s ip (KernDst pa) off n = Ret (of_nat (length data), [], s') \<and>
      file_ok d s' ip \<and> fdata s' ip = fdata s ip \<and> view s' = view s \<and> pmem s' = store_bytes (pmem s) pa data) \<and>
    (pt = p_pagetable (myproc s) \<and> uspace s pt q X ps \<longrightarrow>
      (\<exists>s'. readi s ip (UserDst a) off n = Ret (if \<forall>i<length data. uwritable s pt (a + of_nat i) then of_nat (length data) else -1, [], s') \<and>
        file_ok d s' ip \<and> fdata s' ip = fdata s ip \<and> view s' = view s \<and> uspace s' pt q X ps \<and>
        ((\<forall>i<length data. uwritable s pt (a + of_nat i)) \<longrightarrow> ubytes s' pt a (length data) = data) \<and>
        (\<forall>x. pmem s' x \<noteq> pmem s x \<longrightarrow> (\<exists>i<length data. x = uva s pt (a + of_nat i)))))"
proof (intro conjI impI)
  obtain s' where r: "readi s ip (ObjDst 0) off n = Ret (of_nat (length data), data, s')"
      "file_ok d s' ip" "fdata s' ip = fdata s ip" "fs_step d {} s (view s) (logged s) s'"
    using readi_run [OF assms(1,2)] unfolding assms(3) by blast
  then show "\<exists>s'. readi s ip (ObjDst 0) off n = Ret (of_nat (length data), data, s') \<and>
      file_ok d s' ip \<and> fdata s' ip = fdata s ip \<and> view s' = view s \<and> pmem s' = pmem s"
    using fs_stepD(2,10,11) [OF r(4)] by auto
  show "\<exists>s'. readi s ip (KernDst pa) off n = Ret (of_nat (length data), [], s') \<and>
      file_ok d s' ip \<and> fdata s' ip = fdata s ip \<and> view s' = view s \<and> pmem s' = store_bytes (pmem s) pa data"
    using readi_kern [OF assms(1,2)] unfolding assms(3) .
  assume u: "pt = p_pagetable (myproc s) \<and> uspace s pt q X ps"
  let ?ok = "\<forall>i<length data. uwritable s pt (a + of_nat i)"
  obtain k s' where s': "k \<le> length data" "readi s ip (UserDst a) off n = Ret (if k = length data then of_nat (length data) else -1, [], s')"
      "file_ok d s' ip" "fdata s' ip = fdata s ip" "view s' = view s" "uspace s' pt q X ps" "\<forall>v. pte_of s' pt v = pte_of s pt v"
      "k < length data \<longrightarrow> \<not> uwritable s pt (a + of_nat k)" and w: "wrote s pt a (take k data) (s\<lparr>pmem := pmem s'\<rparr>)"
    using readi_user [OF assms(1,2), of pt q X ps a] u unfolding assms(3) by blast
  have all: "k = length data \<longleftrightarrow> ?ok" using s'(1,8) wrote_writable [OF w] by (auto simp: nat_less_le)
  have "ubytes s' pt a (length data) = data" if ?ok
    using wrote_ubytes [OF w] s'(7) that all by (simp add: ubytes_def uva_def)
  moreover have "\<exists>i<length data. x = uva s pt (a + of_nat i)" if "pmem s' x \<noteq> pmem s x" for x
  proof -
    obtain i where "i < length (take k data)" "x = uva s pt (a + of_nat i)" using wrote_elsewhere [OF w, of x] \<open>pmem s' x \<noteq> pmem s x\<close> by auto
    then show ?thesis by auto
  qed
  ultimately show "\<exists>s'. readi s ip (UserDst a) off n = Ret (if ?ok then of_nat (length data) else -1, [], s') \<and>
      file_ok d s' ip \<and> fdata s' ip = fdata s ip \<and> view s' = view s \<and> uspace s' pt q X ps \<and>
      (?ok \<longrightarrow> ubytes s' pt a (length data) = data) \<and> (\<forall>x. pmem s' x \<noteq> pmem s x \<longrightarrow> (\<exists>i<length data. x = uva s pt (a + of_nat i)))"
    using s'(2-6) unfolding all by blast
qed

theorem readi_reads_witness:
  "\<exists>s'. readi hello 0 (UserDst 16) 1 20 = Ret (4, [], s') \<and> view s' = view hello \<and> ubytes s' 0x80100000 16 4 = [101, 108, 108, 111]"
proof -
  have four: "(4 :: nat) = Suc (Suc (Suc (Suc 0)))" by simp
  have "uwritable hello 0x80100000 (16 + of_nat i)" if "i < 4" for i
    using that by (intro hello_user(3)) (simp add: unat_word_ariths unat_of_nat)
  then show ?thesis
    using readi_reads [OF hello_ok(1), of 1 20 "[101, 108, 108, 111]" 0 "0x80100000" 1 "{}" "[]" 16] hello_user(1,2)
    unfolding four by (auto simp: hello_data)
qed

text \<open>
  C9: Inodes survive leaving the table.  After \<open>iupdate\<close>, when the slot is recycled (whatever its fields are
  then, as long as it is free of a lock, not valid, and stands for the same inode), \<open>ilock\<close> loads the type,
  device numbers, link count, size and addresses that the inode had; and no other inode's record on the
  disk has changed.
\<close>

theorem iupdate_ilock:
  fixes s :: "'z kfs_scheme"
  assumes "file_inv d s ip" "card (logged s) < log_cap s" "i_type (inodes s ip) \<noteq> 0"
    "i_ref J > 0" "\<not> sl_locked (i_lock J)" "\<not> i_valid J" "i_dev J = d" "i_inum J = i_inum (inodes s ip)"
  shows "\<exists>s1 s2. iupdate s ip = Ret s1 \<and> ilock (upd_inode s1 ip (\<lambda>_. J)) ip = Ret s2 \<and> i_valid (inodes s2 ip) \<and>
    i_type (inodes s2 ip) = i_type (inodes s ip) \<and> i_major (inodes s2 ip) = i_major (inodes s ip) \<and>
    i_minor (inodes s2 ip) = i_minor (inodes s ip) \<and> i_nlink (inodes s2 ip) = i_nlink (inodes s ip) \<and>
    i_size (inodes s2 ip) = i_size (inodes s ip) \<and> (\<forall>k\<le>NDIRECT. i_addrs (inodes s2 ip) k = i_addrs (inodes s ip) k) \<and>
    (\<forall>j K. j \<noteq> i_inum (inodes s ip) \<longrightarrow> dinode s2 j K = dinode s j K)"
proof -
  let ?I = "inodes s ip" and ?b = "iblock s ip"
  obtain s1 where r: "iupdate s ip = Ret s1" "file_inv d s1 ip" "frest s1 = frest s"
      "view s1 = (view s)(?b := st_dinode (view s ?b) (dinode_off (i_inum ?I)) ?I)"
    using iupdate_run [OF assms(1,2)] by blast
  let ?t = "upd_inode s1 ip (\<lambda>_. J)"
  have t: "log_inv d ?t {}" "view ?t = view s1" "inodes ?t ip = J" "sb ?t = sb s" "frest ?t = frest s"
    using file_invD(1) [OF r(2)] frestD(9) [OF r(3)] r(3) by (simp_all add: upd_inode_def)
  have D: "dinode ?t (i_inum ?I) J = ld_dinode (st_dinode (view s ?b) (dinode_off (i_inum ?I)) ?I) (dinode_off (i_inum ?I)) J"
    by (simp add: dinode_def t r(4))
  obtain s2 l where s2: "ilock ?t ip = Ret s2" "view s2 = view ?t" "frest s2 = frest ?t"
      "inodes s2 = (inodes ?t)(ip := (dinode ?t (i_inum ?I) J)\<lparr>i_lock := l, i_valid := True\<rparr>)"
    using ilock_run [OF t(1), of ip] assms(3-8) D by (auto simp: t(3) ld_st_dinode)
  have "dinode s2 j K = dinode s j K" if "j \<noteq> i_inum ?I" for j K
  proof (cases "IBLOCK j (sb s) = ?b")
    case True
    then have "dinode_off (i_inum ?I) \<noteq> dinode_off j" using dinode_place [of j "sb s" "i_inum ?I"] that by auto
    then show ?thesis using True frestD(9) [OF s2(3)] by (simp add: dinode_def s2(2) t(2,4) r(4) st_dinode_apart)
  next
    case False
    then show ?thesis using frestD(9) [OF s2(3)] by (simp add: dinode_def s2(2) t(2,4) r(4))
  qed
  then show ?thesis using r(1) s2(1,4) by (simp add: D ld_st_dinode)
qed

theorem iupdate_ilock_witness:
  "\<exists>s1 s2. iupdate hello 0 = Ret s1 \<and> ilock (upd_inode s1 0 (\<lambda>_. zero_inode\<lparr>i_dev := 1, i_inum := 2, i_ref := 1\<rparr>)) 0 = Ret s2 \<and>
    i_size (inodes s2 0) = 5 \<and> i_addrs (inodes s2 0) 0 = 46"
proof -
  have inv: "file_inv 1 hello 0" using hello_ok(1) by (simp add: file_ok_def)
  show ?thesis using iupdate_ilock [OF inv, of "zero_inode\<lparr>i_dev := 1, i_inum := 2, i_ref := 1\<rparr>"]
    by (fastforce simp: hello_view hello_fields(5) zero_inode_def T_FILE_def initsleeplock_def)
qed

text \<open>
  C12: A directory is a map from names to inode numbers, and \<open>dirlink\<close> updates it: entering a name that the
  directory does not have gives the old map with that name added, and \<open>dirlookup\<close> of any name afterwards
  takes a reference to the inode the new map has for it.  Only a full disk makes \<open>dirlink\<close> fail, and no
  block but those of the directory, the bitmap and free ones changes.
\<close>

theorem dirlink_dirlookup:
  fixes s :: "'z kfs_scheme"
  assumes "dir_ok d s dp" "dir_map s dp (dname nm) = None" "(ucast inum :: u16) \<noteq> 0"
    "fsize s dp + 16 \<le> MAXFILE * BSIZE" "card (logged s) + 7 \<le> log_cap s"
  shows "\<exists>r s1. dirlink s dp nm inum = Ret (r, s1) \<and>
    (if r = 0 then
       dir_map s1 dp = (dir_map s dp)(dname nm \<mapsto> ucast inum) \<and>
       (\<forall>x. \<exists>s2 off. view s2 = view s1 \<and> dir_map s2 dp = dir_map s1 dp \<and>
          dirlookup s1 dp x = (case dir_map s1 dp (dname x) of
             None \<Rightarrow> Ret (None, s2)
           | Some i \<Rightarrow> bindr (iget s2 d (ucast i)) (\<lambda>(ip, s3). Ret (Some (ip, off), s3))))
     else r = - 1 \<and> fs_full s1) \<and>
    (\<forall>b. b \<notin> bm_blocks (sb s) \<and> \<not> fresh s b \<and> b \<notin> faddr s dp ` {..MAXFILE} \<and> b \<noteq> iblock s dp \<longrightarrow> view s1 b = view s b)"
proof -
  obtain r s1 where r: "dirlink s dp nm inum = Ret (r, s1)"
      "if r = 0 then dir_ok d s1 dp \<and> dir_map s1 dp = (dir_map s dp)(dname nm \<mapsto> ucast inum) else r = - 1 \<and> fs_full s1"
      "\<forall>b. b \<notin> bm_blocks (sb s) \<and> \<not> fresh s b \<and> b \<notin> faddr s dp ` {..MAXFILE} \<and> b \<noteq> iblock s dp \<longrightarrow> view s1 b = view s b"
    using dirlink_run [OF assms] by blast
  have "\<exists>s2 off. view s2 = view s1 \<and> dir_map s2 dp = dir_map s1 dp \<and>
      dirlookup s1 dp x = (case dir_map s1 dp (dname x) of
         None \<Rightarrow> Ret (None, s2)
       | Some i \<Rightarrow> bindr (iget s2 d (ucast i)) (\<lambda>(ip, s3). Ret (Some (ip, off), s3)))" if ok: "dir_ok d s1 dp" for x
  proof -
    obtain s2 off where l: "fdata s2 dp = fdata s1 dp" "fs_step d {} s1 (view s1) (logged s1) s2"
        "dirlookup s1 dp x = (case dir_map s1 dp (dname x) of None \<Rightarrow> Ret (None, s2)
           | Some i \<Rightarrow> bindr (iget s2 d (ucast i)) (\<lambda>(ip, s3). Ret (Some (ip, off), s3)))"
      using dirlookup_run [OF ok, of x] by blast
    have "view s2 = view s1" "dir_map s2 dp = dir_map s1 dp" using fs_stepD(2,10) [OF l(2)] l(1) by (simp_all add: dir_map_def)
    then show ?thesis using l(3) by blast
  qed
  note look = this
  show ?thesis
  proof (intro exI conjI)
    show "dirlink s dp nm inum = Ret (r, s1)" by (rule r)
    show "if r = 0 then dir_map s1 dp = (dir_map s dp)(dname nm \<mapsto> ucast inum) \<and>
       (\<forall>x. \<exists>s2 off. view s2 = view s1 \<and> dir_map s2 dp = dir_map s1 dp \<and>
          dirlookup s1 dp x = (case dir_map s1 dp (dname x) of
             None \<Rightarrow> Ret (None, s2)
           | Some i \<Rightarrow> bindr (iget s2 d (ucast i)) (\<lambda>(ip, s3). Ret (Some (ip, off), s3))))
     else r = - 1 \<and> fs_full s1"
    proof (cases "r = 0")
      case True
      then have ok: "dir_ok d s1 dp" "dir_map s1 dp = (dir_map s dp)(dname nm \<mapsto> ucast inum)" using r(2) by simp_all
      show ?thesis unfolding if_P [OF True] by (intro conjI allI look ok)
    qed (use r(2) in simp)
  qed (rule r(3))
qed

theorem dirlink_dirlookup_witness:
  "\<exists>r s1. dirlink hello 2 [104, 105] 2 = Ret (r, s1) \<and> (r = 0 \<or> fs_full s1) \<and>
    (if r = 0 then dir_map s1 2 = [[46] \<mapsto> 1, [46, 46] \<mapsto> 1, [104, 105] \<mapsto> 2] else True)"
proof -
  have "card (logged hello) + 7 \<le> log_cap hello" by (simp add: hello_view)
  moreover have "fsize hello 2 + 16 \<le> MAXFILE * BSIZE" by (simp add: hello_size MAXFILE_def BSIZE_def NDIRECT_def)
  moreover have "dir_map hello 2 (dname [104, 105]) = None" "dname [104, 105] = [104, 105]" by (simp_all add: hello_dir DIRSIZ_def)
  ultimately obtain r s1 where "dirlink hello 2 [104, 105] 2 = Ret (r, s1)"
      "if r = 0 then dir_map s1 2 = (dir_map hello 2)([104, 105] \<mapsto> ucast (2 :: u32)) else r = - 1 \<and> fs_full s1"
    using dirlink_dirlookup [OF hello_dir(1), of "[104, 105]" 2] by (auto split: if_splits)
  then show ?thesis by (intro exI [of _ r] exI [of _ s1]) (auto simp: hello_dir(2) split: if_splits)
qed

text \<open>
  C15: A path name stands for its list of elements.  \<open>namei\<close> and \<open>nameiparent\<close> do what descending through the
  elements does: repeated, leading and trailing slashes are irrelevant except that a leading slash starts
  at the root, an element counts up to \<open>DIRSIZ\<close> bytes, and what the caller's name array held does not matter.
\<close>

theorem namei_path_elems:
  assumes "length nm = DIRSIZ"
  shows "namei s path = bindr (path_start s path) (\<lambda>(ip, s1). resolve s1 ip (path_elems path)) \<and>
   bindr (nameiparent s path nm) (\<lambda>(r, n, s1). Ret (map_option (\<lambda>i. (i, dname n)) r, s1)) =
     bindr (path_start s path) (\<lambda>(ip, s1). resolve_parent s1 ip (path_elems path))"
  using namei_resolve nameiparent_resolve [OF assms] by blast

theorem namei_path_elems_witness:
  "namei hello [47, 47, 97, 47] = bindr (iget hello ROOTDEV ROOTINO) (\<lambda>(ip, s1). resolve s1 ip [[97]]) \<and>
   bindr (nameiparent hello [47, 47, 97, 47] (replicate DIRSIZ 7)) (\<lambda>(r, n, s1). Ret (map_option (\<lambda>i. (i, dname n)) r, s1)) =
     bindr (iget hello ROOTDEV ROOTINO) (\<lambda>(ip, s1). resolve_parent s1 ip [[97]])"
proof -
  have "path_elems [47, 47, 97, 47] = [[97]]" "path_start hello [47, 47, 97, 47] = iget hello ROOTDEV ROOTINO"
    by (simp_all add: path_elems_def SLASH_def DIRSIZ_def path_start_def byte_at_def)
  then show ?thesis using namei_path_elems [of "replicate DIRSIZ 7" hello "[47, 47, 97, 47]"] by simp
qed

end
