(* ===== verification/Ring.thy ===== *)
theory Ring
  imports Prelude
begin

text \<open>
  Ring buffers as the kernel has them: an array of \<open>N\<close> bytes and two counters that run modulo the width of
  the machine word, of which only the remainder modulo \<open>N\<close> is an index.  \<open>ring\<close> is the list of bytes between
  the counters; the locale \<open>fifo\<close> is the interface that the pipe, the console and the UART rely on.
\<close>

section \<open>The contents of a ring\<close>

definition ring :: "(nat \<Rightarrow> u8) \<Rightarrow> nat \<Rightarrow> 'a::len word \<Rightarrow> 'a word \<Rightarrow> u8 list" where
  "ring d N r w = map (\<lambda>i. d (unat (r + of_nat i) mod N)) [0..<unat (w - r)]"

lemma length_ring [simp]: "length (ring d N r w) = unat (w - r)"
  by (simp add: ring_def)

lemma unat_diff_0 [simp]: "unat (w - r) = 0 \<longleftrightarrow> w = r"
  using word_unat_eq_iff [of "w - r" 0] by simp

lemma ring_empty [simp]: "ring d N r w = [] \<longleftrightarrow> w = r"
  by (simp add: ring_def)

lemma ring_same [simp]: "ring d N r r = []"
  by simp

lemma ring_index:
  fixes r :: "'a::len word"
  assumes "N dvd 2 ^ LENGTH('a)"
  shows "unat (r + of_nat i) mod N = (unat r + i) mod N"
  using assms by (simp add: unat_word_ariths unat_of_nat mod_mod_cancel mod_add_right_eq)

lemma ring_put:
  fixes r w :: "'a::len word"
  assumes N: "N dvd 2 ^ LENGTH('a)" "N < 2 ^ LENGTH('a)" and room: "unat (w - r) < N"
  shows "ring (d(unat w mod N := c)) N r (w + 1) = ring d N r w @ [c]"
proof -
  let ?k = "unat (w - r)"
  have "w + 1 - r = (w - r) + 1" by simp
  moreover have "unat ((w - r) + 1) = Suc ?k" using N(2) room by (simp add: unat_word_ariths)
  ultimately have k: "unat (w + 1 - r) = Suc ?k" "w = r + of_nat ?k" by (simp_all only:) simp_all
  have w: "unat w mod N = (unat r + ?k) mod N" using ring_index [OF N(1), of r ?k] k(2) by simp
  have "(unat r + i) mod N \<noteq> (unat r + ?k) mod N" if "i < ?k" for i
  proof
    assume "(unat r + i) mod N = (unat r + ?k) mod N"
    then have "N dvd (unat r + ?k) - (unat r + i)" using that by (subst mod_eq_dvd_iff_nat [symmetric]) auto
    then show False using that room by (auto dest: dvd_imp_le)
  qed
  then show ?thesis by (simp add: ring_def k(1) ring_index [OF N(1)] w)
qed

lemma ring_get:
  fixes r w :: "'a::len word"
  assumes "w \<noteq> r"
  shows "ring d N r w = d (unat r mod N) # ring d N (r + 1) w"
proof -
  have "w - r \<noteq> 0" using assms by simp
  then have "unat (w - r) = Suc (unat (w - (r + 1)))" by (simp add: diff_diff_eq [symmetric] unat_minus_one Suc_pred' unat_gt_0)
  then show ?thesis by (simp add: ring_def upt_conv_Cons map_Suc_upt [symmetric] add.assoc del: upt_Suc map_Suc_upt)
qed

lemma ring_unput:
  fixes r w :: "'a::len word"
  assumes "w \<noteq> r"
  shows "ring d N r (w - 1) = butlast (ring d N r w)"
proof -
  have "w - r \<noteq> 0" using assms by simp
  then have "unat (w - r) = Suc (unat (w - r - 1))" by (simp add: unat_minus_one Suc_pred' unat_gt_0)
  moreover have "w - r - 1 = w - 1 - r" by simp
  ultimately have "unat (w - r) = Suc (unat (w - 1 - r))" by simp
  then show ?thesis by (simp add: ring_def)
qed

lemma ring_last:
  fixes r w :: "'a::len word"
  assumes "w \<noteq> r"
  shows "last (ring d N r w) = d (unat (w - 1) mod N)"
proof -
  have "w - r \<noteq> 0" using assms by simp
  then obtain k where k: "unat (w - r) = Suc k" by (cases "unat (w - r)") simp_all
  have "r + of_nat (unat (w - r)) = w" by simp
  then have "r + of_nat k = w - 1" unfolding k by (simp add: algebra_simps eq_diff_eq)
  then show ?thesis by (simp add: ring_def k)
qed

section \<open>Queues of bytes\<close>

locale fifo =
  fixes inv :: "'q \<Rightarrow> bool" and cont :: "'q \<Rightarrow> u8 list" and put :: "u8 \<Rightarrow> 'q \<Rightarrow> 'q" and get :: "'q \<Rightarrow> u8 \<times> 'q" and cap :: nat
  assumes put_law: "inv q \<Longrightarrow> length (cont q) < cap \<Longrightarrow> inv (put c q) \<and> cont (put c q) = cont q @ [c]"
    and get_law: "inv q \<Longrightarrow> cont q \<noteq> [] \<Longrightarrow> inv (snd (get q)) \<and> cont q = fst (get q) # cont (snd (get q))"
    and cap_law: "inv q \<Longrightarrow> length (cont q) \<le> cap"
begin

lemma put_all:
  "inv q \<Longrightarrow> length (cont q) + length bs \<le> cap \<Longrightarrow> inv (fold put bs q) \<and> cont (fold put bs q) = cont q @ bs"
proof (induction bs arbitrary: q)
  case (Cons b bs)
  then show ?case using put_law [of q b] Cons.IH [of "put b q"] by simp
qed simp

lemma get_all:
  "inv q \<Longrightarrow> n \<le> length (cont q) \<Longrightarrow> inv (((\<lambda>q. snd (get q)) ^^ n) q) \<and> cont (((\<lambda>q. snd (get q)) ^^ n) q) = drop n (cont q)"
proof (induction n arbitrary: q)
  case (Suc n)
  have "cont q \<noteq> []" using Suc.prems(2) by auto
  note g = get_law [OF Suc.prems(1) this]
  have "length (cont q) = Suc (length (cont (snd (get q))))" using g by (metis length_Cons)
  then have "inv (((\<lambda>q. snd (get q)) ^^ n) (snd (get q))) \<and> cont (((\<lambda>q. snd (get q)) ^^ n) (snd (get q))) = drop n (cont (snd (get q)))"
    using Suc.IH [of "snd (get q)"] g Suc.prems(2) by simp
  moreover have "drop (Suc n) (cont q) = drop n (cont (snd (get q)))" using g by (metis drop_Suc_Cons)
  ultimately show ?case by (simp add: funpow_Suc_right del: funpow.simps(2))
qed simp

end

end
