(* ===== verification/ConsSpec.thy ===== *)
theory ConsSpec
  imports Console Ring UserCopy BlockCache
begin

text \<open>
  The console and the UART as queues: the line editor of \<open>consoleintr\<close>, what \<open>consoleread\<close> takes, and the order in
  which bytes reach the device.
\<close>

section \<open>The input line\<close>

text \<open>How many bytes a write that started at position \<open>i\<close> has taken from the user.\<close>

fun taken :: "io \<Rightarrow> nat \<Rightarrow> nat" where
  "taken (IoDone v) i = nat v - i"
| "taken (IoWait j) i = j - i"

lemma ring_split:
  fixes r w e :: "'a::len word"
  assumes "unat (w - r) \<le> unat (e - r)"
  shows "ring d N r e = ring d N r w @ ring d N w e"
proof -
  have "unat (e - w) = unat (e - r) - unat (w - r)"
    using assms unat_sub [of "w - r" "e - r"] by (simp add: word_le_nat_alt)
  then have k: "unat (e - r) = unat (w - r) + unat (e - w)" using assms by simp
  have w: "r + of_nat i = w + of_nat (i - unat (w - r))" if "unat (w - r) \<le> i" for i
    using that by (simp add: of_nat_diff)
  show ?thesis by (rule nth_equalityI) (auto simp: ring_def nth_append k w)
qed

definition cons_ready :: "'z kcons_scheme \<Rightarrow> u8 list" where
  "cons_ready s = ring (cons_buf s) INPUT_BUF_SIZE (cons_r s) (cons_w s)"

definition cons_line :: "'z kcons_scheme \<Rightarrow> u8 list" where
  "cons_line s = ring (cons_buf s) INPUT_BUF_SIZE (cons_w s) (cons_e s)"

definition cons_ok :: "'z kcons_scheme \<Rightarrow> bool" where
  "cons_ok s \<longleftrightarrow> unat (cons_w s - cons_r s) \<le> unat (cons_e s - cons_r s) \<and> unat (cons_e s - cons_r s) \<le> INPUT_BUF_SIZE \<and>
     10 \<notin> set (cons_line s) \<and> \<not> panicked s"

text \<open>The editor on lists: the input that can be read, and the line under construction.\<close>

fun edit :: "u8 list \<times> u8 list \<Rightarrow> u8 \<Rightarrow> u8 list \<times> u8 list" where
  "edit (rd, ln) c =
     (if c = 16 then (rd, ln)
      else if c = 21 then (rd, [])
      else if c = 8 \<or> c = 127 then (rd, butlast ln)
      else if c = 0 \<or> length (rd @ ln) \<ge> INPUT_BUF_SIZE then (rd, ln)
      else let c = (if c = 13 then 10 else c) in
        if c = 10 \<or> c = 4 \<or> length (rd @ ln @ [c]) = INPUT_BUF_SIZE then (rd @ ln @ [c], [])
        else (rd, ln @ [c]))"

lemma cons_N: "INPUT_BUF_SIZE dvd 2 ^ LENGTH(32)" "INPUT_BUF_SIZE < 2 ^ LENGTH(32)"
  by (simp_all add: INPUT_BUF_SIZE_def)

lemma cons_all: "cons_ok s \<Longrightarrow> ring (cons_buf s) INPUT_BUF_SIZE (cons_r s) (cons_e s) = cons_ready s @ cons_line s"
  unfolding cons_ready_def cons_line_def cons_ok_def by (intro ring_split) simp

lemma ring_unput_line:
  assumes "cons_ok s" "cons_e s \<noteq> cons_w s"
  shows "cons_ok (s\<lparr>cons_e := cons_e s - 1\<rparr>)" "cons_line (s\<lparr>cons_e := cons_e s - 1\<rparr>) = butlast (cons_line s)" "cons_ready (s\<lparr>cons_e := cons_e s - 1\<rparr>) = cons_ready s"
proof -
  show l: "cons_line (s\<lparr>cons_e := cons_e s - 1\<rparr>) = butlast (cons_line s)" using ring_unput [OF assms(2)] by (simp add: cons_line_def)
  show "cons_ready (s\<lparr>cons_e := cons_e s - 1\<rparr>) = cons_ready s" by (simp add: cons_ready_def)
  have n: "cons_e s \<noteq> cons_r s"
  proof
    assume "cons_e s = cons_r s"
    then have "unat (cons_w s - cons_r s) = 0" using assms(1) by (simp add: cons_ok_def)
    then have "cons_w s = cons_r s" using word_unat_eq_iff [of "cons_w s - cons_r s" 0] by simp
    then show False using assms(2) \<open>cons_e s = cons_r s\<close> by simp
  qed
  have "length (ring (cons_buf s) INPUT_BUF_SIZE (cons_r s) (cons_e s - 1)) = length (ring (cons_buf s) INPUT_BUF_SIZE (cons_r s) (cons_e s)) - 1"
    using ring_unput [OF n] by simp
  moreover have "unat (cons_w s - cons_r s) < unat (cons_e s - cons_r s)"
    using assms word_unat_eq_iff [of "cons_w s - cons_r s" "cons_e s - cons_r s"] by (auto simp: cons_ok_def)
  ultimately show "cons_ok (s\<lparr>cons_e := cons_e s - 1\<rparr>)" using assms(1) l by (auto simp: cons_ok_def dest: in_set_butlastD)
qed

lemma cons_echo [simp]:
  "cons_ready (write_THR s c) = cons_ready s" "cons_line (write_THR s c) = cons_line s" "cons_ok (write_THR s c) = cons_ok s"
  "panicked (write_THR s c) = panicked s"
  by (simp_all add: write_THR_def cons_ready_def cons_line_def cons_ok_def)

lemma BACKSPACE_run: "\<not> panicked s \<Longrightarrow> consputc_BACKSPACE s = Ret (write_THR (write_THR (write_THR s 8) 32) 8)"
  by (simp add: consputc_BACKSPACE_def uartputc_sync_def)

lemma kill_line_run: "cons_ok s \<Longrightarrow> \<exists>s'. kill_line s = Ret s' \<and> cons_ok s' \<and> cons_ready s' = cons_ready s \<and> cons_line s' = []"
proof (induction "length (cons_line s)" arbitrary: s)
  case 0
  then have "cons_e s = cons_w s" by (simp add: cons_line_def)
  then show ?case using 0 by (auto simp: kill_line.simps [of s])
next
  case (Suc n)
  then have ne: "cons_e s \<noteq> cons_w s" by (auto simp: cons_line_def)
  let ?s = "s\<lparr>cons_e := cons_e s - 1\<rparr>"
  note u = ring_unput_line [OF Suc(3) ne]
  have "cons_buf s (unat (cons_e s - 1) mod INPUT_BUF_SIZE) = last (cons_line s)"
    using ring_last [OF ne] by (simp add: cons_line_def)
  moreover have "last (cons_line s) \<in> set (cons_line s)" using Suc(2) by (intro last_in_set) auto
  ultimately have "cons_buf s (unat (cons_e s - 1) mod INPUT_BUF_SIZE) \<noteq> 10" using Suc(3) by (auto simp: cons_ok_def)
  then have "kill_line s = kill_line (write_THR (write_THR (write_THR ?s 8) 32) 8)"
    using ne Suc(3) by (simp add: kill_line.simps [of s] BACKSPACE_run cons_ok_def)
  moreover have "n = length (cons_line ?s)" using Suc(2) u(2) by simp
  ultimately show ?case using Suc(1) [of "write_THR (write_THR (write_THR ?s 8) 32) 8"] u by simp
qed

lemma cons_put:
  fixes s :: "'z kcons_scheme"
  assumes ok: "cons_ok s" and room: "length (cons_ready s @ cons_line s) < INPUT_BUF_SIZE"
    and d: "d = (cons_buf s)(unat (cons_e s) mod INPUT_BUF_SIZE := c)"
  shows "ring d INPUT_BUF_SIZE (cons_r s) (cons_e s + 1) = cons_ready s @ cons_line s @ [c]"
    "ring d INPUT_BUF_SIZE (cons_r s) (cons_w s) = cons_ready s" "ring d INPUT_BUF_SIZE (cons_w s) (cons_e s + 1) = cons_line s @ [c]"
    "unat (cons_e s + 1 - cons_r s) = Suc (unat (cons_e s - cons_r s))"
proof -
  let ?N = INPUT_BUF_SIZE
  have len: "length (cons_ready s @ cons_line s) = unat (cons_e s - cons_r s)" by (simp flip: cons_all [OF ok])
  show all: "ring d ?N (cons_r s) (cons_e s + 1) = cons_ready s @ cons_line s @ [c]"
    using ring_put [OF cons_N, of "cons_e s" "cons_r s" "cons_buf s" c] room [unfolded len] by (simp add: d cons_all [OF ok])
  from arg_cong [OF this, of length] show e: "unat (cons_e s + 1 - cons_r s) = Suc (unat (cons_e s - cons_r s))" using len by simp
  have "unat (cons_w s - cons_r s) \<le> unat (cons_e s + 1 - cons_r s)" using ok by (simp add: e cons_ok_def)
  then have "ring d ?N (cons_r s) (cons_w s) @ ring d ?N (cons_w s) (cons_e s + 1) = cons_ready s @ cons_line s @ [c]"
    using ring_split [of "cons_w s" "cons_r s" "cons_e s + 1" d ?N] all by simp
  then show "ring d ?N (cons_r s) (cons_w s) = cons_ready s" "ring d ?N (cons_w s) (cons_e s + 1) = cons_line s @ [c]"
    by (simp_all add: append_eq_append_conv cons_ready_def)
qed

text \<open>\<open>consoleintr\<close> is the editor.\<close>

lemma consoleintr_char:
  fixes s :: "'z kcons_scheme"
  assumes ok: "cons_ok s" and c: "c \<notin> {16, 21, 8, 127, 0}" and room: "length (cons_ready s @ cons_line s) < INPUT_BUF_SIZE"
  shows "\<exists>s'. consoleintr s c = Ret s' \<and> cons_ok s' \<and> (cons_ready s', cons_line s') = edit (cons_ready s, cons_line s) c"
proof -
  let ?c = "if c = 13 then 10 else c" and ?N = INPUT_BUF_SIZE
  let ?d = "(cons_buf s)(unat (cons_e s) mod ?N := ?c)"
  note p = cons_put [OF ok room, of ?d ?c, OF refl]
  have len: "length (cons_ready s @ cons_line s) = unat (cons_e s - cons_r s)" by (simp flip: cons_all [OF ok])
  have lt: "cons_e s - cons_r s < of_nat ?N" using room len by (simp add: word_less_nat_alt INPUT_BUF_SIZE_def)
  have full: "cons_e s + 1 - cons_r s = of_nat ?N \<longleftrightarrow> length (cons_ready s @ cons_line s @ [?c]) = ?N"
    using p(4) len word_unat_eq_iff [of "cons_e s + 1 - cons_r s" "of_nat ?N"] by (simp add: INPUT_BUF_SIZE_def)
  let ?commit = "?c = 10 \<or> ?c = 4 \<or> length (cons_ready s @ cons_line s @ [?c]) = ?N"
  define s2 where "s2 = (write_THR s ?c)\<lparr>cons_buf := ?d, cons_e := cons_e s + 1\<rparr>"
  define s3 where "s3 = (if ?commit then wakeup (s2\<lparr>cons_w := cons_e s2\<rparr>) ChanCons else s2)"
  have "consoleintr s c = Ret s3"
    using c lt ok full unfolding s3_def s2_def by (simp add: consoleintr_def consputc_def uartputc_sync_def cons_ok_def write_THR_def Let_def)
  moreover have f: "cons_buf s3 = ?d" "cons_r s3 = cons_r s" "cons_w s3 = (if ?commit then cons_e s + 1 else cons_w s)" "cons_e s3 = cons_e s + 1"
      "panicked s3 = panicked s" by (simp_all add: s3_def s2_def wakeup_eq write_THR_def)
  have r: "cons_ready s3 = (if ?commit then cons_ready s @ cons_line s @ [?c] else cons_ready s)"
      "cons_line s3 = (if ?commit then [] else cons_line s @ [?c])"
    using p(1-3) by (simp_all only: cons_ready_def [of s3] cons_line_def [of s3] f split: if_split) simp_all
  then have "10 \<notin> set (cons_line s3)" using ok by (auto simp: cons_ok_def)
  then have "cons_ok s3" using ok p(4) room len by (auto simp: cons_ok_def f)
  ultimately show ?thesis using c room r by (auto simp: Let_def)
qed

lemma consoleintr_run:
  assumes ok: "cons_ok s"
  shows "\<exists>s'. consoleintr s c = Ret s' \<and> cons_ok s' \<and> (cons_ready s', cons_line s') = edit (cons_ready s, cons_line s) c"
proof (cases "c \<in> {16, 21, 8, 127, 0} \<or> \<not> length (cons_ready s @ cons_line s) < INPUT_BUF_SIZE")
  case True
  have "length (cons_ready s @ cons_line s) = unat (cons_e s - cons_r s)" by (simp flip: cons_all [OF ok])
  then have lt: "cons_e s - cons_r s < of_nat INPUT_BUF_SIZE \<longleftrightarrow> length (cons_ready s @ cons_line s) < INPUT_BUF_SIZE"
    by (simp add: word_less_nat_alt INPUT_BUF_SIZE_def)
  have bs: "cons_e s = cons_w s \<longleftrightarrow> cons_line s = []" by (simp add: cons_line_def)
  consider "c = 21" | "c = 8 \<or> c = 127" | "c \<notin> {21, 8, 127}" by blast
  then show ?thesis
  proof cases
    case 1
    then show ?thesis using kill_line_run [OF ok] by (auto simp: consoleintr_def)
  next
    case 2
    show ?thesis
    proof (cases "cons_e s = cons_w s")
      case True
      then show ?thesis using 2 ok bs by (intro exI [of _ s]) (auto simp: consoleintr_def)
    next
      case False
      let ?s = "s\<lparr>cons_e := cons_e s - 1\<rparr>"
      have "consoleintr s c = Ret (write_THR (write_THR (write_THR ?s 8) 32) 8)"
        using 2 False ok by (auto simp: consoleintr_def BACKSPACE_run cons_ok_def)
      moreover have "(cons_ready ?s, cons_line ?s) = edit (cons_ready s, cons_line s) c" using 2 ring_unput_line [OF ok False] by auto
      ultimately show ?thesis using ring_unput_line(1) [OF ok False] by (simp del: edit.simps)
    qed
  next
    case 3
    then show ?thesis using True lt ok by (intro exI [of _ s]) (auto simp: consoleintr_def)
  qed
next
  case False
  then show ?thesis using consoleintr_char [OF ok] by simp
qed

lemma uartintr_loop_run:
  assumes "cons_ok s"
  shows "\<exists>s'. uartintr_loop s = Ret s' \<and> cons_ok s' \<and> uart_in s' = [] \<and> (cons_ready s', cons_line s') = foldl edit (cons_ready s, cons_line s) (uart_in s)"
  using assms
proof (induction "uart_in s" arbitrary: s)
  case Nil
  then show ?case by (auto simp: uartintr_loop.simps [of s] uartgetc_def)
next
  case (Cons c cs)
  let ?s = "s\<lparr>uart_in := cs\<rparr>"
  have ok: "cons_ok ?s" "cons_ready ?s = cons_ready s" "cons_line ?s = cons_line s"
    using Cons(3) by (simp_all add: cons_ok_def cons_ready_def cons_line_def)
  obtain s1 where s1: "consoleintr ?s c = Ret s1" "cons_ok s1" "(cons_ready s1, cons_line s1) = edit (cons_ready s, cons_line s) c"
    using consoleintr_run [OF ok(1)] ok by metis
  have "uart_in s1 = cs" using uart_in_consoleintr [OF s1(1)] by simp
  moreover have "uartintr_loop s = uartintr_loop s1" using s1(1) Cons(2) [symmetric] by (simp add: uartintr_loop.simps [of s] uartgetc_def)
  ultimately show ?case using Cons(1) [of s1] s1(2,3) Cons(2) [symmetric] by (simp del: edit.simps)
qed

section \<open>The transmit ring\<close>

definition uart_tx :: "'z kcons_scheme \<Rightarrow> u8 list" where
  "uart_tx s = ring (uart_tx_buf s) UART_TX_BUF_SIZE (uart_tx_r s) (uart_tx_w s)"

definition uart_ok :: "'z kcons_scheme \<Rightarrow> bool" where
  "uart_ok s \<longleftrightarrow> unat (uart_tx_w s - uart_tx_r s) \<le> UART_TX_BUF_SIZE"

interpretation uq: fifo uart_ok uart_tx
  "\<lambda>c s. s\<lparr>uart_tx_buf := (uart_tx_buf s)(unat (uart_tx_w s) mod UART_TX_BUF_SIZE := c), uart_tx_w := uart_tx_w s + 1\<rparr>"
  "\<lambda>s. (uart_tx_buf s (unat (uart_tx_r s) mod UART_TX_BUF_SIZE), s\<lparr>uart_tx_r := uart_tx_r s + 1\<rparr>)" UART_TX_BUF_SIZE
proof (unfold_locales, goal_cases)
  case (1 q c)
  have N: "UART_TX_BUF_SIZE dvd 2 ^ LENGTH(64)" "UART_TX_BUF_SIZE < 2 ^ LENGTH(64)" by (simp_all add: UART_TX_BUF_SIZE_def)
  let ?q = "q\<lparr>uart_tx_buf := (uart_tx_buf q)(unat (uart_tx_w q) mod UART_TX_BUF_SIZE := c), uart_tx_w := uart_tx_w q + 1\<rparr>"
  have e: "uart_tx ?q = uart_tx q @ [c]" using ring_put [OF N] 1(2) by (simp add: uart_tx_def)
  moreover from this have "length (uart_tx ?q) \<le> UART_TX_BUF_SIZE" using 1(2) by simp
  then have "uart_ok ?q" by (simp add: uart_ok_def uart_tx_def)
  ultimately show ?case by simp
next
  case (2 q)
  have e: "uart_tx q = uart_tx_buf q (unat (uart_tx_r q) mod UART_TX_BUF_SIZE) # uart_tx (q\<lparr>uart_tx_r := uart_tx_r q + 1\<rparr>)"
    using ring_get [of "uart_tx_w q" "uart_tx_r q"] 2(2) by (simp add: uart_tx_def)
  then have "length (uart_tx q) = Suc (length (uart_tx (q\<lparr>uart_tx_r := uart_tx_r q + 1\<rparr>)))" by (metis length_Cons)
  then have "uart_ok (q\<lparr>uart_tx_r := uart_tx_r q + 1\<rparr>)" using 2(1) by (simp add: uart_ok_def uart_tx_def)
  then show ?case using e by simp
next
  case (3 q)
  then show ?case by (simp add: uart_ok_def uart_tx_def)
qed

text \<open>What the transmitter leaves alone: memory and the current address space.\<close>

lemma uartstart_run:
  "uart_ok s \<Longrightarrow> uart_ok (uartstart s) \<and> uart_out (uartstart s) @ uart_tx (uartstart s) = uart_out s @ uart_tx s \<and>
     panicked (uartstart s) = panicked s \<and> same_user s (uartstart s) \<and> (uart_tx (uartstart s) = [] \<or> uart_room (uartstart s) = 0)"
proof (induction s rule: uartstart.induct)
  case (1 s)
  show ?case
  proof (cases "uart_tx_w s = uart_tx_r s \<or> uart_room s = 0")
    case True
    then show ?thesis using 1(2) by (auto simp: uartstart.simps [of s] same_user_def uart_tx_def)
  next
    case False
    let ?c = "uart_tx_buf s (unat (uart_tx_r s) mod UART_TX_BUF_SIZE)"
    let ?s1 = "s\<lparr>uart_tx_r := uart_tx_r s + 1\<rparr>"
    let ?s2 = "write_THR (wakeup ?s1 ChanUartTx) ?c"
    have g: "uart_ok ?s1" "uart_tx s = ?c # uart_tx ?s1" using uq.get_law [OF 1(2)] False by (simp_all add: uart_tx_def)
    have w: "uart_ok ?s2" "uart_tx ?s2 = uart_tx ?s1" "uart_out ?s2 = uart_out s @ [?c]" "panicked ?s2 = panicked s" "same_user s ?s2"
      using g(1) by (simp_all add: write_THR_def wakeup_eq uart_tx_def uart_ok_def same_user_def waken_def)
    have "uartstart s = uartstart ?s2" using False by (subst uartstart.simps) (simp add: Let_def)
    then show ?thesis using 1(1) [OF _ _ refl refl refl] False w g(2) same_user_trans [OF w(5)] by auto
  qed
qed

lemma uartputc_run:
  assumes ok: "uart_ok s" "\<not> panicked s"
  shows "if length (uart_tx s) = UART_TX_BUF_SIZE then uartputc s c = Sleep ChanUartTx
    else \<exists>s'. uartputc s c = Ret s' \<and> uart_ok s' \<and> \<not> panicked s' \<and> same_user s s' \<and> uart_out s' @ uart_tx s' = uart_out s @ uart_tx s @ [c]"
proof -
  have full: "uart_tx_w s = uart_tx_r s + of_nat UART_TX_BUF_SIZE \<longleftrightarrow> length (uart_tx s) = UART_TX_BUF_SIZE"
  proof -
    have "uart_tx_w s = uart_tx_r s + of_nat UART_TX_BUF_SIZE \<longleftrightarrow> uart_tx_w s - uart_tx_r s = of_nat UART_TX_BUF_SIZE" by (auto simp: algebra_simps)
    then show ?thesis by (simp add: uart_tx_def word_unat_eq_iff [of "_ - _"] UART_TX_BUF_SIZE_def)
  qed
  show ?thesis
  proof (cases "length (uart_tx s) = UART_TX_BUF_SIZE")
    case True
    then show ?thesis using ok full by (simp add: uartputc_def)
  next
    case False
    let ?s = "s\<lparr>uart_tx_buf := (uart_tx_buf s)(unat (uart_tx_w s) mod UART_TX_BUF_SIZE := c), uart_tx_w := uart_tx_w s + 1\<rparr>"
    have p: "uart_ok ?s" "uart_tx ?s = uart_tx s @ [c]" using uq.put_law [OF ok(1), of c] uq.cap_law [OF ok(1)] False by simp_all
    have "uartputc s c = Ret (uartstart ?s)" using False full ok(2) by (simp add: uartputc_def Let_def)
    moreover have "same_user s x \<longleftrightarrow> same_user ?s x" for x by (simp add: same_user_def)
    ultimately show ?thesis using uartstart_run [OF p(1)] p(2) ok(2) False by auto
  qed
qed

lemma consolewrite_loop_run:
  fixes s :: "'z kcons_scheme"
  assumes "uspace s (p_pagetable (myproc s)) m X ps" "uart_ok s" "\<not> panicked s" "i \<le> n" "n < 2 ^ 32"
    "\<And>j. i \<le> j \<Longrightarrow> j < n \<Longrightarrow> ureadable s (p_pagetable (myproc s)) (addr + of_nat j)"
  shows "\<exists>io s'. consolewrite_loop s (UserSrc addr) n i = Ret (io, s') \<and> uart_ok s' \<and>
    uart_out s' @ uart_tx s' = uart_out s @ uart_tx s @ ubytes s (p_pagetable (myproc s)) (addr + of_nat i) (taken io i) \<and>
    (io = IoDone (int n) \<or> (\<exists>j\<ge>i. io = IoWait j \<and> j < n \<and> length (uart_tx s') = UART_TX_BUF_SIZE))"
  using assms
proof (induction "n - i" arbitrary: s i)
  case 0
  then show ?case by (auto simp: consolewrite_loop.simps [of s] ubytes_def)
next
  case (Suc k)
  let ?pt = "p_pagetable (myproc s)" and ?a = "addr + of_nat i"
  have i: "i < n" using Suc(2) by simp
  let ?b = "pmem s (uva s ?pt ?a)"
  have cast: "ucast (of_nat i :: u32) = (of_nat i :: u64)" using Suc(7) i by (simp add: unsigned_of_nat take_bit_nat_eq_self)
  have c: "either_copyin s (src_add (UserSrc addr) (of_nat i)) 1 = (0, [?b])"
    using copyin_byte [OF Suc(3,8)] i by (simp add: either_copyin_def src_add_def cast)
  show ?case
  proof (cases "length (uart_tx s) = UART_TX_BUF_SIZE")
    case True
    then show ?thesis using uartputc_run [OF Suc(4,5), of ?b] c i Suc(4) by (auto simp: consolewrite_loop.simps [of s] byte_at_def ubytes_def)
  next
    case False
    then obtain s1 where s1: "uartputc s ?b = Ret s1" "uart_ok s1" "\<not> panicked s1" "same_user s s1" "uart_out s1 @ uart_tx s1 = uart_out s @ uart_tx s @ [?b]"
      using uartputc_run [OF Suc(4,5), of ?b] by auto
    note u = same_userD [OF s1(4)]
    have step: "consolewrite_loop s (UserSrc addr) n i = consolewrite_loop s1 (UserSrc addr) n (Suc i)"
      using c i s1(1) by (simp add: consolewrite_loop.simps [of s] byte_at_def)
    have nx: "k = n - Suc i" "Suc i \<le> n" using Suc(2) i by simp_all
    obtain io s' where r: "consolewrite_loop s1 (UserSrc addr) n (Suc i) = Ret (io, s')" "uart_ok s'"
        "uart_out s' @ uart_tx s' = uart_out s1 @ uart_tx s1 @ ubytes s ?pt (addr + of_nat (Suc i)) (taken io (Suc i))"
        "io = IoDone (int n) \<or> (\<exists>j\<ge>Suc i. io = IoWait j \<and> j < n \<and> length (uart_tx s') = UART_TX_BUF_SIZE)"
      using Suc.hyps(1) [OF nx(1), of s1] Suc.prems s1(2,3) nx(2) u by auto
    then have "taken io i = Suc (taken io (Suc i))" using i by auto
    then show ?thesis using r s1(5) step by (auto simp: ubytes_Suc algebra_simps)
  qed
qed

lemma uartstart_cons:
  "cons_ready (uartstart s) = cons_ready s \<and> cons_line (uartstart s) = cons_line s \<and> cons_ok (uartstart s) = cons_ok s \<and> uart_in (uartstart s) = uart_in s"
proof (induction s rule: uartstart.induct)
  case (1 s)
  show ?case
  proof (cases "uart_tx_w s = uart_tx_r s \<or> uart_room s = 0")
    case True
    then show ?thesis by (auto simp: uartstart.simps [of s])
  next
    case False
    let ?s1 = "s\<lparr>uart_tx_r := uart_tx_r s + 1\<rparr>"
    let ?s2 = "write_THR (wakeup ?s1 ChanUartTx) (uart_tx_buf s (unat (uart_tx_r s) mod UART_TX_BUF_SIZE))"
    have "cons_ready ?s2 = cons_ready s" "cons_line ?s2 = cons_line s" "cons_ok ?s2 = cons_ok s" "uart_in ?s2 = uart_in s"
      by (simp_all add: cons_ready_def cons_line_def cons_ok_def write_THR_def wakeup_eq)
    moreover have "uartstart s = uartstart ?s2" using False by (subst uartstart.simps) (simp add: Let_def)
    ultimately show ?thesis using 1 [OF _ _ refl refl refl] False by simp
  qed
qed

end
