(* ===== verification/PipeSpec.thy ===== *)
theory PipeSpec
  imports Pipe ConsSpec
begin

text \<open>
  A pipe is a queue of at most \<open>PIPESIZE\<close> bytes: what \<open>pipewrite\<close> appends to it and \<open>piperead\<close> takes from it.
\<close>

section \<open>The pipe as a queue\<close>

definition pipe_ok :: "pipe \<Rightarrow> bool" where
  "pipe_ok p \<longleftrightarrow> unat (pi_nwrite p - pi_nread p) \<le> PIPESIZE"

definition pipe_cont :: "pipe \<Rightarrow> u8 list" where
  "pipe_cont p = ring (pi_data p) PIPESIZE (pi_nread p) (pi_nwrite p)"

interpretation pq: fifo pipe_ok pipe_cont pipe_put pipe_get PIPESIZE
proof unfold_locales
  fix q :: pipe and c
  assume q: "pipe_ok q" "length (pipe_cont q) < PIPESIZE"
  have N: "PIPESIZE dvd 2 ^ LENGTH(32)" "PIPESIZE < 2 ^ LENGTH(32)" by (simp_all add: PIPESIZE_def)
  have "pipe_cont (pipe_put c q) = pipe_cont q @ [c]" using ring_put [OF N] q(2) by (simp add: pipe_cont_def pipe_put_def)
  moreover from this have "length (pipe_cont (pipe_put c q)) \<le> PIPESIZE" using q(2) by simp
  then have "pipe_ok (pipe_put c q)" by (simp add: pipe_ok_def pipe_cont_def)
  ultimately show "pipe_ok (pipe_put c q) \<and> pipe_cont (pipe_put c q) = pipe_cont q @ [c]" by simp
next
  fix q :: pipe
  assume q: "pipe_ok q" "pipe_cont q \<noteq> []"
  then have eq: "pipe_cont q = fst (pipe_get q) # pipe_cont (snd (pipe_get q))"
    using ring_get [of "pi_nwrite q" "pi_nread q"] by (simp add: pipe_cont_def pipe_get_def)
  then have "length (pipe_cont q) = Suc (length (pipe_cont (snd (pipe_get q))))" by (metis length_Cons)
  then have "pipe_ok (snd (pipe_get q))" using q(1) by (simp add: pipe_ok_def pipe_cont_def)
  then show "pipe_ok (snd (pipe_get q)) \<and> pipe_cont q = fst (pipe_get q) # pipe_cont (snd (pipe_get q))" using eq by simp
next
  fix q :: pipe
  assume "pipe_ok q"
  then show "length (pipe_cont q) \<le> PIPESIZE" by (simp add: pipe_ok_def pipe_cont_def)
qed

lemma pipe_empty_cont: "pipe_empty p \<longleftrightarrow> pipe_cont p = []"
  by (auto simp: pipe_empty_def pipe_cont_def)

lemma pipe_full_cont: "pipe_ok p \<Longrightarrow> pipe_full p \<longleftrightarrow> length (pipe_cont p) = PIPESIZE"
proof -
  assume "pipe_ok p"
  have "pi_nwrite p = pi_nread p + of_nat PIPESIZE \<longleftrightarrow> pi_nwrite p - pi_nread p = of_nat PIPESIZE" by (auto simp: algebra_simps)
  also have "\<dots> \<longleftrightarrow> unat (pi_nwrite p - pi_nread p) = PIPESIZE" by (simp add: word_unat_eq_iff PIPESIZE_def)
  finally show ?thesis by (simp add: pipe_full_def pipe_cont_def)
qed

lemma pipe_put_flags [simp]:
  "pi_readopen (pipe_put c p) = pi_readopen p" "pi_writeopen (pipe_put c p) = pi_writeopen p"
  by (simp_all add: pipe_put_def)

lemma pipe_get_flags [simp]:
  "pi_readopen (snd (pipe_get p)) = pi_readopen p" "pi_writeopen (snd (pipe_get p)) = pi_writeopen p"
  by (simp_all add: pipe_get_def)

section \<open>Writing\<close>

lemma upd_pipe_mem [simp]:
  "pmem (upd_pipe s pi f) = pmem s" "freelist (upd_pipe s pi f) = freelist s" "sym_end (upd_pipe s pi f) = sym_end s"
  "procs (upd_pipe s pi f) = procs s" "curp (upd_pipe s pi f) = curp s" "killed (upd_pipe s pi f) p = killed s p"
  "pipes (upd_pipe s pi f) pi = f (pipes s pi)"
  by (simp_all add: upd_pipe_def killed_def)

lemma upd_pipe_comp: "upd_pipe (upd_pipe s pi f) pi g = upd_pipe s pi (\<lambda>p. g (f p))"
  by (simp add: upd_pipe_def)

lemma upd_pipe_user [simp]:
  "uspace (upd_pipe s pi f) pt n X ps = uspace s pt n X ps" "ureadable (upd_pipe s pi f) = ureadable s"
  "uwritable (upd_pipe s pi f) = uwritable s" "ubytes (upd_pipe s pi f) = ubytes s"
  by (rule uspace_cong) (simp_all add: ureadable_def uwritable_def ubytes_def uva_def fun_eq_iff)

lemma pipewrite_loop_run:
  fixes s :: "'z kpipe_scheme"
  assumes "uspace s (p_pagetable (myproc s)) m X ps" "pipe_ok (pipes s pi)" "pi_readopen (pipes s pi)" "\<not> killed s (curp s)" "i \<le> n"
    "\<And>j. i \<le> j \<Longrightarrow> j < n \<Longrightarrow> ureadable s (p_pagetable (myproc s)) (addr + of_nat j)"
  shows "pipewrite_loop s pi addr n i =
    (let room = PIPESIZE - length (pipe_cont (pipes s pi)) in
     (if n - i \<le> room then IoDone (int n) else IoWait (i + room),
      wakeup (upd_pipe s pi (fold pipe_put (ubytes s (p_pagetable (myproc s)) (addr + of_nat i) (min (n - i) room)))) (ChanPipeRead pi)))"
  using assms
proof (induction "n - i" arbitrary: s i)
  case 0
  then show ?case by (simp add: pipewrite_loop.simps [of s] ubytes_def upd_pipe_def id_def)
next
  case (Suc k)
  let ?pt = "p_pagetable (myproc s)" and ?c = "pipe_cont (pipes s pi)"
  have i: "i < n" using Suc(2) by simp
  have le: "length ?c \<le> PIPESIZE" using pq.cap_law [OF Suc(4)] .
  show ?case
  proof (cases "length ?c = PIPESIZE")
    case True
    then have "pipe_full (pipes s pi)" using pipe_full_cont [OF Suc(4)] by simp
    then show ?thesis using True i Suc(5,6) by (simp add: pipewrite_loop.simps [of s] ubytes_def upd_pipe_def id_def)
  next
    case False
    let ?b = "pmem s (uva s ?pt (addr + of_nat i))"
    let ?s = "upd_pipe s pi (pipe_put ?b)"
    have "\<not> pipe_full (pipes s pi)" using False pipe_full_cont [OF Suc(4)] by simp
    then have step: "pipewrite_loop s pi addr n i = pipewrite_loop ?s pi addr n (Suc i)"
      using i Suc(5,6) copyin_byte [OF Suc(3,8)] by (simp add: pipewrite_loop.simps [of s] byte_at_def)
    have put: "pipe_ok (pipe_put ?b (pipes s pi))" "pipe_cont (pipe_put ?b (pipes s pi)) = ?c @ [?b]"
      using pq.put_law [OF Suc(4), of ?b] False le by simp_all
    have "pipewrite_loop ?s pi addr n (Suc i) =
      (let room = PIPESIZE - length (pipe_cont (pipes ?s pi)) in
       (if n - Suc i \<le> room then IoDone (int n) else IoWait (Suc i + room),
        wakeup (upd_pipe ?s pi (fold pipe_put (ubytes ?s ?pt (addr + of_nat (Suc i)) (min (n - Suc i) room)))) (ChanPipeRead pi)))"
      using Suc.hyps(1) [of "Suc i" ?s] Suc.prems Suc.hyps(2) put(1) by simp
    moreover have "PIPESIZE - length ?c = Suc (PIPESIZE - length (?c @ [?b]))" using False le by simp
    moreover have "n - i = Suc (n - Suc i)" using i by simp
    ultimately show ?thesis unfolding step by (simp add: put(2) upd_pipe_comp ubytes_Suc add.commute [of 1] add.assoc comp_def Let_def)
  qed
qed

section \<open>Reading\<close>

lemma wrote_pipe:
  fixes s s' :: "'z kpipe_scheme"
  assumes "wrote (upd_pipe s pi f) pt va bs s'"
  shows "wrote (upd_pipe s pi (\<lambda>_. q)) pt va bs (upd_pipe s' pi (\<lambda>_. q))" "s' = (upd_pipe s pi f)\<lparr>pmem := pmem s'\<rparr>"
proof -
  show e: "s' = (upd_pipe s pi f)\<lparr>pmem := pmem s'\<rparr>" using assms unfolding wrote_def by blast
  have "upd_pipe s' pi (\<lambda>_. q) = (upd_pipe s pi (\<lambda>_. q))\<lparr>pmem := pmem s'\<rparr>" by (subst e) (simp add: upd_pipe_def)
  then show "wrote (upd_pipe s pi (\<lambda>_. q)) pt va bs (upd_pipe s' pi (\<lambda>_. q))"
    using assms unfolding wrote_def by (simp add: uva_def uwritable_def ureadable_def)
qed

definition pipe_take :: "nat \<Rightarrow> pipe \<Rightarrow> pipe" where
  "pipe_take k = (\<lambda>p. snd (pipe_get p)) ^^ k"

lemma wrote_none: "wrote (upd_pipe s pi (pipe_take 0)) pt va [] s"
  by (simp add: pipe_take_def wrote_def upd_pipe_def)

text \<open>
  The loop of \<open>piperead\<close> on any buffer: it stops early only at an address the process may not write, and then the
  byte that was to go there has left the pipe as well.
\<close>

lemma piperead_loop_any:
  fixes s :: "'z kpipe_scheme"
  assumes "uspace s (p_pagetable (myproc s)) m X ps" "pipe_ok (pipes s pi)" "i \<le> n" "n < 2 ^ 64"
  shows "\<exists>k s'. let full = min (n - i) (length (pipe_cont (pipes s pi))) in
    k \<le> full \<and> piperead_loop s pi addr n i = (i + k, s') \<and> uspace s' (p_pagetable (myproc s)) m X ps \<and>
    (\<forall>v. pte_of s' (p_pagetable (myproc s)) v = pte_of s (p_pagetable (myproc s)) v) \<and>
    (k < full \<longrightarrow> \<not> uwritable s (p_pagetable (myproc s)) (addr + of_nat (i + k))) \<and>
    wrote (upd_pipe s pi (pipe_take (if k < full then Suc k else k))) (p_pagetable (myproc s)) (addr + of_nat i)
      (take k (pipe_cont (pipes s pi))) s'"
  using assms
proof (induction "n - i" arbitrary: s i)
  case 0
  then have "piperead_loop s pi addr n i = (i + 0, s)" by (simp add: piperead_loop.simps [of s])
  then show ?case using 0 wrote_none by (intro exI [of _ 0] exI [of _ s]) (simp add: Let_def)
next
  case (Suc m')
  let ?pt = "p_pagetable (myproc s)" and ?c = "pipe_cont (pipes s pi)"
  have i: "i < n" using Suc(2) by simp
  show ?case
  proof (cases "?c = []")
    case True
    then have "piperead_loop s pi addr n i = (i + 0, s)" using i by (simp add: piperead_loop.simps [of s] pipe_empty_cont)
    then show ?thesis using True Suc(3) wrote_none by (intro exI [of _ 0] exI [of _ s]) (simp add: Let_def)
  next
    case False
    obtain ch p where g: "pipe_get (pipes s pi) = (ch, p)" by fastforce
    have p: "pipe_ok p" "?c = ch # pipe_cont p" using pq.get_law [OF Suc(4) False] g by simp_all
    have p1: "pipe_take (Suc k) (pipes s pi) = pipe_take k p" for k using g by (simp add: pipe_take_def funpow_Suc_right del: funpow.simps(2))
    let ?s1 = "upd_pipe s pi (\<lambda>_. p)"
    have u1: "upd_pipe s pi (pipe_take (Suc k)) = upd_pipe s pi (\<lambda>_. pipe_take k p)" for k by (simp add: upd_pipe_def p1)
    have nx: "m' = n - Suc i" "Suc i \<le> n" using Suc.hyps(2) i by simp_all
    show ?thesis
    proof (cases "uwritable s ?pt (addr + of_nat i)")
      case False
      then have "\<not> uwritable ?s1 ?pt (addr + of_nat i)" by simp
      then obtain s2 where c: "copyout ?s1 ?pt (addr + of_nat i) [ch] = (-1, s2)" "wrote ?s1 ?pt (addr + of_nat i) [] s2"
          "uspace s2 ?pt m X ps" "\<And>v. pte_of s2 ?pt v = pte_of s ?pt v"
        using copyout_byte_fails [of ?s1 ?pt m X ps "addr + of_nat i" ch] Suc(3) by auto
      moreover have "upd_pipe s pi (pipe_take (Suc 0)) = ?s1" using u1 [of 0] by (simp add: pipe_take_def)
      ultimately show ?thesis using i p(2) g False
        by (intro exI [of _ 0] exI [of _ s2]) (simp add: piperead_loop.simps [of s] pipe_empty_cont)
    next
      case True
      obtain s2 where c: "copyout ?s1 ?pt (addr + of_nat i) [ch] = (0, s2)" "wrote ?s1 ?pt (addr + of_nat i) [ch] s2" "uspace s2 ?pt m X ps"
          "\<And>v. pte_of s2 ?pt v = pte_of s ?pt v"
        using copyout_byte [of ?s1 ?pt m X ps "addr + of_nat i" ch] Suc(3) True by auto
      have e2: "s2 = ?s1\<lparr>pmem := pmem s2\<rparr>" using c(2) unfolding wrote_def by blast
      have s2: "procs s2 = procs s" "curp s2 = curp s" "pipes s2 pi = p"
        using arg_cong [OF e2, of procs] arg_cong [OF e2, of curp] arg_cong [OF e2, of pipes] by (simp_all add: upd_pipe_def)
      have wr: "uwritable s2 ?pt = uwritable s ?pt" using c(4) by (simp add: uwritable_def ureadable_def fun_eq_iff)
      let ?f = "min (n - Suc i) (length (pipe_cont p))"
      obtain k s' where s': "k \<le> ?f" "piperead_loop s2 pi addr n (Suc i) = (Suc i + k, s')" "uspace s' ?pt m X ps" "\<And>v. pte_of s' ?pt v = pte_of s2 ?pt v"
          "k < ?f \<longrightarrow> \<not> uwritable s ?pt (addr + of_nat (Suc i + k))"
          "wrote (upd_pipe s2 pi (pipe_take (if k < ?f then Suc k else k))) ?pt (addr + of_nat (Suc i)) (take k (pipe_cont p)) s'"
        using Suc.hyps(1) [of "Suc i" s2] nx Suc.prems c(3) p(1) by (auto simp: s2 wr Let_def)
      let ?q = "pipe_take (if k < ?f then Suc k else k) p"
      have t: "upd_pipe s2 pi (pipe_take (if k < ?f then Suc k else k)) = upd_pipe s2 pi (\<lambda>_. ?q)" by (simp add: upd_pipe_def s2(3))
      have "wrote (upd_pipe s pi (\<lambda>_. ?q)) ?pt (addr + of_nat i) ([ch] @ take k (pipe_cont p)) s'"
        by (rule wrote_append [OF _ wrote_pipe(1) [OF c(2)] s'(6) [unfolded t]]) (use Suc(3,6) c(4) s'(1) in \<open>auto simp: add.assoc\<close>)
      moreover have "piperead_loop s pi addr n i = (i + Suc k, s')"
        using i False g c(1) s'(2) by (simp add: piperead_loop.simps [of s] pipe_empty_cont)
      moreover have f: "min (n - i) (length ?c) = Suc ?f" using i p(2) by simp
      moreover have "upd_pipe s pi (pipe_take (if Suc k < Suc ?f then Suc (Suc k) else Suc k)) = upd_pipe s pi (\<lambda>_. ?q)"
        using u1 by auto
      ultimately show ?thesis unfolding f Let_def using s'(1,3,5) p(2) c(4) s'(4)
        by (intro exI [of _ "Suc k"] exI [of _ s'] conjI) simp_all
    qed
  qed
qed

section \<open>Any sequence of reads and writes\<close>

lemma pipewrite_loop_taken:
  fixes s :: "'z kpipe_scheme"
  assumes "uspace s (p_pagetable (myproc s)) m X ps" "pipe_ok (pipes s pi)" "i \<le> n" "pipewrite_loop s pi addr n i = (r, s')"
  shows "pipe_ok (pipes s' pi) \<and> pipe_cont (pipes s' pi) = pipe_cont (pipes s pi) @ ubytes s (p_pagetable (myproc s)) (addr + of_nat i) (taken r i) \<and>
    (pi_readopen (pipes s pi) \<and> \<not> killed s (curp s) \<longrightarrow> (\<exists>j\<ge>i. r = IoDone (int j) \<or> r = IoWait j))"
  using assms
proof (induction "n - i" arbitrary: s i)
  case 0
  then show ?case by (auto simp: pipewrite_loop.simps [of s] ubytes_def wakeup_eq)
next
  case (Suc k)
  let ?pt = "p_pagetable (myproc s)" and ?a = "addr + of_nat i"
  have i: "i < n" using Suc(2) by simp
  note w = Suc.prems(4)
  show ?case
  proof (cases "\<not> pi_readopen (pipes s pi) \<or> killed s (curp s) \<or> pipe_full (pipes s pi) \<or> fst (copyin s ?pt ?a 1) = -1")
    case True
    then show ?thesis using w i Suc(4) by (auto simp: pipewrite_loop.simps [of s] ubytes_def wakeup_eq split: if_splits prod.splits)
  next
    case False
    obtain q bs where c: "copyin s ?pt ?a 1 = (q, bs)" by fastforce
    then have "q \<noteq> -1" using False by simp
    then have rd: "bs = [pmem s (uva s ?pt ?a)]" using copyin_spec [OF Suc(3) c] by (auto simp: ubytes_def)
    let ?b = "pmem s (uva s ?pt ?a)"
    let ?s = "upd_pipe s pi (pipe_put ?b)"
    have put: "pipe_ok (pipe_put ?b (pipes s pi))" "pipe_cont (pipe_put ?b (pipes s pi)) = pipe_cont (pipes s pi) @ [?b]"
      using pq.put_law [OF Suc(4), of ?b] pq.cap_law [OF Suc(4)] False pipe_full_cont [OF Suc(4)] by auto
    have "pipewrite_loop ?s pi addr n (Suc i) = (r, s')" using w i False c rd by (simp add: pipewrite_loop.simps [of s] byte_at_def)
    moreover have "k = n - Suc i" "Suc i \<le> n" using Suc(2) i by simp_all
    ultimately have IH: "pipe_ok (pipes s' pi)" "pipe_cont (pipes s' pi) = pipe_cont (pipes s pi) @ [?b] @ ubytes s ?pt (addr + of_nat (Suc i)) (taken r (Suc i))"
        "\<exists>j\<ge>Suc i. r = IoDone (int j) \<or> r = IoWait j"
      using Suc.hyps(1) [of "Suc i" ?s] Suc.prems put False by auto
    then have "taken r i = Suc (taken r (Suc i))" by auto
    then show ?thesis using IH by (auto simp: ubytes_Suc algebra_simps Suc_le_eq dest: less_imp_le)
  qed
qed

text \<open>
  The life of a pipe: it starts empty; processes write to it and read from it, each through its own address
  space; anything else may happen to the rest of the kernel in between, the closing of an end included.  \<open>ws\<close> are
  the bytes the writers gave.  \<open>rs\<close> has for each read the bytes it delivered, and whether it ended at a byte of
  the buffer that the process may not write, with more bytes wanted and in the pipe.
\<close>

definition read_fault :: "'z kpipe_scheme \<Rightarrow> u64 \<Rightarrow> u64 \<Rightarrow> u32 \<Rightarrow> nat \<Rightarrow> bool" where
  "read_fault s pi addr n k \<longleftrightarrow> k < nat (sint n) \<and> k < length (pipe_cont (pipes s pi)) \<and>
     \<not> uwritable s (p_pagetable (myproc s)) (addr + of_nat k)"

inductive pipe_run :: "u64 \<Rightarrow> 'z kpipe_scheme \<Rightarrow> u8 list \<Rightarrow> (u8 list \<times> bool) list \<Rightarrow> bool" for pi where
  pstart: "pipe_empty (pipes s pi) \<Longrightarrow> pipe_run pi s [] []"
| pwrite: "pipe_run pi s ws rs \<Longrightarrow> uspace s (p_pagetable (myproc s)) m X ps \<Longrightarrow> i \<le> n \<Longrightarrow> pipewrite_loop s pi addr n i = (r, s') \<Longrightarrow>
    pipe_run pi s' (ws @ ubytes s (p_pagetable (myproc s)) (addr + of_nat i) (taken r i)) rs"
| pread: "pipe_run pi s ws rs \<Longrightarrow> uspace s (p_pagetable (myproc s)) m X ps \<Longrightarrow> piperead s pi addr n = (r, s') \<Longrightarrow>
    pipe_run pi s' ws (rs @ [(ubytes s' (p_pagetable (myproc s)) addr (taken r 0), read_fault s pi addr n (taken r 0))])"
| pother: "pipe_run pi s ws rs \<Longrightarrow> pi_data (pipes s' pi) = pi_data (pipes s pi) \<Longrightarrow> pi_nread (pipes s' pi) = pi_nread (pipes s pi) \<Longrightarrow>
    pi_nwrite (pipes s' pi) = pi_nwrite (pipes s pi) \<Longrightarrow> pipe_run pi s' ws rs"

lemma pipe_take_cont: "pipe_ok p \<Longrightarrow> k \<le> length (pipe_cont p) \<Longrightarrow> pipe_ok (pipe_take k p) \<and> pipe_cont (pipe_take k p) = drop k (pipe_cont p)"
  unfolding pipe_take_def by (rule pq.get_all)

lemma sint_bound: "nat (sint (n :: u32)) < 2 ^ 64"
  using sint_lt [of n] by simp

text \<open>A whole read: what it delivers, what it leaves in the pipe, and what it returns.\<close>

lemma piperead_any:
  fixes s :: "'z kpipe_scheme"
  assumes u: "uspace s (p_pagetable (myproc s)) m X ps" and ok: "pipe_ok (pipes s pi)" and r: "piperead s pi addr n = (r, s')"
  shows "\<exists>k. k \<le> min (nat (sint n)) (length (pipe_cont (pipes s pi))) \<and> taken r 0 = k \<and>
    pipes s' pi = pipe_take (if read_fault s pi addr n k then Suc k else k) (pipes s pi) \<and>
    ubytes s' (p_pagetable (myproc s)) addr k = take k (pipe_cont (pipes s pi)) \<and>
    (if pipe_cont (pipes s pi) = [] \<and> pi_writeopen (pipes s pi) then r = (if killed s (curp s) then IoDone (-1) else IoWait 0)
     else r = IoDone (int k) \<and> (read_fault s pi addr n k \<or> k = min (nat (sint n)) (length (pipe_cont (pipes s pi)))))"
proof (cases "pipe_cont (pipes s pi) = [] \<and> pi_writeopen (pipes s pi)")
  case True
  then have "pipe_empty (pipes s pi)" by (simp add: pipe_empty_cont)
  then show ?thesis using r True by (auto simp: piperead_def pipe_take_def ubytes_def read_fault_def split: if_splits)
next
  case False
  let ?pt = "p_pagetable (myproc s)" and ?f = "min (nat (sint n)) (length (pipe_cont (pipes s pi)))"
  obtain k s1 where l: "k \<le> ?f" "piperead_loop s pi addr (nat (sint n)) 0 = (k, s1)" "\<And>v. pte_of s1 ?pt v = pte_of s ?pt v"
      "k < ?f \<longrightarrow> \<not> uwritable s ?pt (addr + of_nat k)"
      "wrote (upd_pipe s pi (pipe_take (if k < ?f then Suc k else k))) ?pt addr (take k (pipe_cont (pipes s pi))) s1"
    using piperead_loop_any [OF u ok le0 sint_bound, of n addr] by (auto simp: Let_def)
  have f: "read_fault s pi addr n k \<longleftrightarrow> k < ?f" using l(4) by (auto simp: read_fault_def)
  have "\<not> (pipe_empty (pipes s pi) \<and> pi_writeopen (pipes s pi))" using False by (auto simp: pipe_empty_cont)
  then have s': "r = IoDone (int k)" "s' = wakeup s1 (ChanPipeWrite pi)" using r l(2) by (simp_all add: piperead_def split: if_splits)
  have e: "s1 = (upd_pipe s pi (pipe_take (if k < ?f then Suc k else k)))\<lparr>pmem := pmem s1\<rparr>" using l(5) unfolding wrote_def by blast
  have p: "pipes s' pi = pipe_take (if read_fault s pi addr n k then Suc k else k) (pipes s pi)"
    using arg_cong [OF e, of pipes] by (simp add: s'(2) wakeup_eq upd_pipe_def f)
  have "ubytes s1 ?pt addr (length (take k (pipe_cont (pipes s pi)))) = take k (pipe_cont (pipes s pi))"
  proof (rule wrote_ubytes [OF l(5)])
    show "pte_of s1 ?pt v = pte_of (upd_pipe s pi (pipe_take (if k < ?f then Suc k else k))) ?pt v" for v using l(3) by simp
  qed
  then have "ubytes s' ?pt addr k = take k (pipe_cont (pipes s pi))" using l(1) by (simp add: s'(2) ubytes_def uva_def wakeup_eq)
  then show ?thesis using False s'(1) p l(1) f by (intro exI [of _ k]) auto
qed

text \<open>A read whose first byte cannot be stored.\<close>

lemma piperead_hole:
  fixes s :: "'z kpipe_scheme"
  assumes "uspace s (p_pagetable (myproc s)) m X ps" "pipe_ok (pipes s pi)" "pipe_cont (pipes s pi) = c # cs" "0 < sint n"
    "\<not> uwritable s (p_pagetable (myproc s)) addr"
  shows "\<exists>s'. piperead s pi addr n = (IoDone 0, s') \<and> pipe_cont (pipes s' pi) = cs"
proof -
  let ?pt = "p_pagetable (myproc s)"
  obtain ch p where g: "pipe_get (pipes s pi) = (ch, p)" by fastforce
  have p: "pipe_cont p = cs" using pq.get_law [OF assms(2)] g assms(3) by auto
  let ?s1 = "upd_pipe s pi (\<lambda>_. p)"
  obtain s2 where c: "copyout ?s1 ?pt addr [ch] = (-1, s2)" "wrote ?s1 ?pt addr [] s2"
    using copyout_byte_fails [of ?s1 ?pt m X ps addr ch] assms(1,5) by auto
  have e: "s2 = ?s1\<lparr>pmem := pmem s2\<rparr>" using c(2) unfolding wrote_def by blast
  have "pipes s2 pi = p" using arg_cong [OF e, of pipes] by (simp add: upd_pipe_def)
  moreover have ne: "\<not> pipe_empty (pipes s pi)" using assms(3) by (simp add: pipe_empty_cont)
  then have "piperead_loop s pi addr (nat (sint n)) 0 = (0, s2)"
    using assms(4) g c(1) by (simp add: piperead_loop.simps [of s])
  then have "piperead s pi addr n = (IoDone 0, wakeup s2 (ChanPipeWrite pi))" using ne by (simp add: piperead_def)
  ultimately show ?thesis using p by (simp add: wakeup_eq)
qed

text \<open>
  The bytes that each read took are those it delivered and, if it faulted, one more.  These in order, followed by
  those still in the pipe, are the bytes that went in.
\<close>

lemma pipe_run_fifo:
  "pipe_run pi s ws rs \<Longrightarrow> pipe_ok (pipes s pi) \<and>
    (\<exists>ls. length ls = length rs \<and> (\<forall>j<length rs. length (ls ! j) = (if snd (rs ! j) then 1 else 0)) \<and>
       ws = concat (map (\<lambda>(g, l). fst g @ l) (zip rs ls)) @ pipe_cont (pipes s pi))"
proof (induction rule: pipe_run.induct)
  case (pstart s)
  then show ?case by (simp add: pipe_empty_cont pipe_ok_def) (simp add: pipe_cont_def)
next
  case (pwrite s ws rs m X ps i n addr r s')
  then show ?case using pipewrite_loop_taken [OF pwrite(2) _ pwrite(3,4)] by auto
next
  case (pread s ws rs m X ps addr n r s')
  let ?c = "pipe_cont (pipes s pi)"
  obtain ls where ls: "length ls = length rs" "\<forall>j<length rs. length (ls ! j) = (if snd (rs ! j) then 1 else 0)"
      "ws = concat (map (\<lambda>(g, l). fst g @ l) (zip rs ls)) @ ?c" and ok: "pipe_ok (pipes s pi)" using pread.IH by blast
  obtain k where k: "k \<le> length ?c" "taken r 0 = k" "pipes s' pi = pipe_take (if read_fault s pi addr n k then Suc k else k) (pipes s pi)"
      "ubytes s' (p_pagetable (myproc s)) addr k = take k ?c"
    using piperead_any [OF pread(2) ok pread(3)] by auto
  let ?l = "if read_fault s pi addr n k then [?c ! k] else []"
  have lt: "read_fault s pi addr n k \<Longrightarrow> k < length ?c" by (simp add: read_fault_def)
  have c: "pipe_ok (pipes s' pi)" "pipe_cont (pipes s' pi) = drop (k + length ?l) ?c"
    using pipe_take_cont [OF ok, of k] pipe_take_cont [OF ok, of "Suc k"] k(1,3) lt by auto
  have "?c = take k ?c @ ?l @ drop (k + length ?l) ?c" using lt by (auto simp: Cons_nth_drop_Suc)
  then have "ws = concat (map (\<lambda>(g, l). fst g @ l) (zip (rs @ [(take k ?c, read_fault s pi addr n k)]) (ls @ [?l]))) @ pipe_cont (pipes s' pi)"
    using ls(1,3) c(2) by (simp only: zip_append map_append concat_append append_assoc) simp
  then show ?case unfolding k(2,4) using c(1) ls(1,2) by (intro conjI exI [of _ "ls @ [?l]"]) (auto simp: nth_append less_Suc_eq)
next
  case (pother s ws rs s')
  then show ?case by (simp add: pipe_ok_def pipe_cont_def)
qed

end
