(* ===== verification/IoProps.thy ===== *)
theory IoProps
  imports PipeSpec VmProps Boot
begin

text \<open>
  The properties of pipes, of the console and of the serial line.
\<close>

section \<open>A process with one page and a pipe\<close>

definition writer :: ktrap where
  "writer = bss\<lparr>pmem := pmem one_page, freelist := freelist one_page, sym_end := sym_end one_page,
     procs := (\<lambda>_. zero_proc\<lparr>p_pagetable := 0x80100000\<rparr>),
     pipes := (\<lambda>_. \<lparr>pi_data = (\<lambda>_. 0), pi_nread = 0xffffffff, pi_nwrite = 0xffffffff, pi_readopen = True, pi_writeopen = True\<rparr>)\<rparr>"

lemma writer_user: "uspace writer (p_pagetable (myproc writer)) 1 {} []"
  using one_page_uspace uspace_cong [of writer one_page] by (simp add: writer_def)

lemma writer_writable: "unat va < 4096 \<Longrightarrow> uwritable writer (p_pagetable (myproc writer)) va"
  using one_page_writable [of va] by (simp add: writer_def uwritable_def ureadable_def)

lemma writer_pipe:
  "pipe_ok (pipes writer pi)" "pipe_cont (pipes writer pi) = []" "pi_readopen (pipes writer pi)" "pi_writeopen (pipes writer pi)"
  "\<not> killed writer (curp writer)" "pipe_empty (pipes writer pi)"
  by (simp_all add: writer_def pipe_ok_def pipe_cont_def killed_def pipe_empty_def zero_defs)

lemma writer_hole: "\<not> uwritable writer (p_pagetable (myproc writer)) 0x4000"
  using one_page_leaf [of "0x4000"] by (simp add: writer_def uwritable_def ureadable_def one_page_def pg_def)

section \<open>Properties\<close>

text \<open>
  C18: A pipe is first in, first out.  However reads and writes of any processes follow each other, waiting and
  resuming, closing of either end and buffers that cannot be read or written included: the bytes the readers
  took, in order, followed by the bytes in the pipe, are the bytes the writers gave, and the pipe holds at most
  \<open>PIPESIZE\<close>; the counters may wrap.  A reader gets every byte it takes except that a read that runs into a byte
  of its buffer it may not write loses one, the byte that was to go there; so if no read does that, the bytes the
  readers got followed by those in the pipe are the bytes the writers gave.
\<close>

theorem pipe_fifo:
  assumes "pipe_run pi s ws rs"
  shows "length (pipe_cont (pipes s pi)) \<le> PIPESIZE \<and>
    (\<exists>ls. length ls = length rs \<and> (\<forall>j<length rs. length (ls ! j) = (if snd (rs ! j) then 1 else 0)) \<and>
       ws = concat (map (\<lambda>(g, l). fst g @ l) (zip rs ls)) @ pipe_cont (pipes s pi)) \<and>
    ((\<forall>g\<in>set rs. \<not> snd g) \<longrightarrow> ws = concat (map fst rs) @ pipe_cont (pipes s pi))"
proof -
  obtain ls where ls: "length ls = length rs" "\<forall>j<length rs. length (ls ! j) = (if snd (rs ! j) then 1 else 0)"
      "ws = concat (map (\<lambda>(g, l). fst g @ l) (zip rs ls)) @ pipe_cont (pipes s pi)" and ok: "pipe_ok (pipes s pi)"
    using pipe_run_fifo [OF assms] by blast
  have "map (\<lambda>(g, l). fst g @ l) (zip rs ls) = map fst rs" if "\<forall>g\<in>set rs. \<not> snd g"
    by (rule nth_equalityI) (use ls(1,2) that in auto)
  then show ?thesis using ls(3) pq.cap_law [OF ok] by (intro conjI exI [of _ ls] ls) auto
qed

text \<open>Two bytes are written and read into a page that is not there: the first is lost, the second stays in the pipe.\<close>

theorem pipe_fifo_witness:
  "\<exists>(s :: ktrap) b c. pipe_run 0x80200000 s [b, c] [([], True)] \<and> pipe_cont (pipes s 0x80200000) = [c]"
proof -
  let ?pt = "p_pagetable (myproc writer)" and ?pi = "0x80200000 :: u64"
  have "\<And>j. 0 \<le> j \<Longrightarrow> j < 2 \<Longrightarrow> ureadable writer ?pt (0 + of_nat j)"
    using writer_writable by (simp add: uwritable_def unat_of_nat)
  from pipewrite_loop_run [OF writer_user writer_pipe(1,3,5) _ this]
  obtain s where s: "pipewrite_loop writer ?pi 0 2 0 = (IoDone 2, s)" "s = wakeup (upd_pipe writer ?pi (fold pipe_put (ubytes writer ?pt 0 2))) (ChanPipeRead ?pi)"
    by (auto simp: writer_pipe PIPESIZE_def)
  obtain b c where b: "ubytes writer ?pt 0 2 = [b, c]" by (simp add: ubytes_def upt_rec)
  have "pipe_run ?pi s ([] @ ubytes writer ?pt (0 + of_nat 0) (taken (IoDone 2) 0)) []"
    using s(1) by (intro pipe_run.pwrite [OF pipe_run.pstart [OF writer_pipe(6)] writer_user]) auto
  then have w: "pipe_run ?pi s [b, c] []" by (simp add: b)
  have same: "pmem s = pmem writer" "freelist s = freelist writer" "sym_end s = sym_end writer" "p_pagetable (myproc s) = ?pt"
    by (simp_all add: s(2) wakeup_eq waken_def)
  then have u: "uspace s (p_pagetable (myproc s)) 1 {} []" using writer_user uspace_cong [of s writer] by simp
  have q: "pipe_ok (pipes s ?pi)" "pipe_cont (pipes s ?pi) = [b, c]" using pipe_fifo [OF w] pipe_run_fifo [OF w] by auto
  have nw: "\<not> uwritable s (p_pagetable (myproc s)) 0x4000" using writer_hole by (simp add: same uwritable_def ureadable_def)
  obtain s' where r: "piperead s ?pi 0x4000 2 = (IoDone 0, s')" using piperead_hole [OF u q _ nw, of 2] by auto
  have "read_fault s ?pi 0x4000 2 0" using nw q(2) by (simp add: read_fault_def)
  then have run: "pipe_run ?pi s' [b, c] [([], True)]" using pipe_run.pread [OF w u r] by (simp add: ubytes_def)
  then show ?thesis using pipe_fifo [OF run] by (intro exI [of _ s'] exI [of _ b] exI [of _ c]) (auto simp: length_Suc_conv)
qed

text \<open>
  C24: How much a transfer moves.  With a buffer the process may read and write, \<open>pipewrite\<close> puts all \<open>n\<close> bytes
  if there is room, and otherwise fills the pipe exactly and waits; \<open>piperead\<close> waits if the pipe is empty
  and a writer is left, and otherwise moves the oldest bytes, \<open>n\<close> or as many as there are, into the buffer.
\<close>

theorem pipe_transfer:
  fixes s :: "'z kpipe_scheme" and n :: u32
  assumes d: "pt = p_pagetable (myproc s)" "q = pipe_cont (pipes s pi)" "k = nat (sint n)"
    and a: "uspace s pt m X ps" "pipe_ok (pipes s pi)" "pi_readopen (pipes s pi)" "\<not> killed s (curp s)"
    "\<forall>j<k. uwritable s pt (addr + of_nat j)"
  shows "(\<exists>s'. pipewrite s pi addr n = (if k \<le> PIPESIZE - length q then IoDone (int k) else IoWait (PIPESIZE - length q), s') \<and>
      pipe_cont (pipes s' pi) = q @ ubytes s pt addr (min k (PIPESIZE - length q))) \<and>
    (\<exists>s'. piperead s pi addr n = (if q = [] \<and> pi_writeopen (pipes s pi) then IoWait 0 else IoDone (int (min k (length q))), s') \<and>
      pipe_cont (pipes s' pi) = drop k q \<and> ubytes s' pt addr (min k (length q)) = take k q)"
proof -
  let ?room = "PIPESIZE - length q"
  have "\<And>j. 0 \<le> j \<Longrightarrow> j < k \<Longrightarrow> ureadable s pt (addr + of_nat j)" using a(5) by (simp add: uwritable_def)
  from pipewrite_loop_run [of s m X ps pi 0 k addr] this a(1-4)
  have "pipewrite s pi addr n = (if k \<le> ?room then IoDone (int k) else IoWait ?room,
      wakeup (upd_pipe s pi (fold pipe_put (ubytes s pt addr (min k ?room)))) (ChanPipeRead pi))"
    by (simp add: pipewrite_def d Let_def)
  moreover have "pipe_cont (fold pipe_put (ubytes s pt addr (min k ?room)) (pipes s pi)) = q @ ubytes s pt addr (min k ?room)"
    using pq.put_all [OF a(2), of "ubytes s pt addr (min k ?room)"] pq.cap_law [OF a(2)] by (simp add: d(2) ubytes_def)
  ultimately have w: "\<exists>s'. pipewrite s pi addr n = (if k \<le> ?room then IoDone (int k) else IoWait ?room, s') \<and>
      pipe_cont (pipes s' pi) = q @ ubytes s pt addr (min k ?room)" by (simp add: wakeup_eq)
  obtain r s' where p: "piperead s pi addr n = (r, s')" by fastforce
  have wr: "\<And>j. j < nat (sint n) \<Longrightarrow> uwritable s (p_pagetable (myproc s)) (addr + of_nat j)" using a(5) by (simp add: d(1,3))
  have nf: "\<not> read_fault s pi addr n i" for i using wr by (auto simp: read_fault_def)
  obtain j where j: "j \<le> length q" "taken r 0 = j" "pipes s' pi = pipe_take j (pipes s pi)" "ubytes s' pt addr j = take j q"
      "if q = [] \<and> pi_writeopen (pipes s pi) then r = IoWait 0 else r = IoDone (int (min k (length q)))"
    using piperead_any [OF a(1) [unfolded d(1)] a(2) p] a(4) nf by (auto simp: d split: if_splits)
  then have "min k (length q) = j" by (auto split: if_splits)
  then have "drop k q = drop j q" "take k q = take j q" by (auto simp: min_def)
  then show ?thesis using w p j pipe_take_cont [OF a(2), of j] \<open>min k (length q) = j\<close> by (auto simp: d(2) split: if_splits)
qed

theorem pipe_transfer_witness:
  "\<exists>s'. pipewrite writer 0x80200000 0 600 = (IoWait 512, s') \<and> length (pipe_cont (pipes s' 0x80200000)) = 512"
proof -
  have "\<forall>j<nat (sint (600 :: u32)). uwritable writer (p_pagetable (myproc writer)) (0 + of_nat j)"
    using writer_writable by (simp add: unat_of_nat)
  from pipe_transfer [OF refl refl refl writer_user writer_pipe(1,3,5) this, where pi = "0x80200000"]
  show ?thesis by (auto simp: writer_pipe PIPESIZE_def ubytes_def)
qed

text \<open>
  C30: A read into memory the process may not write loses data: \<open>piperead\<close> has advanced \<open>nread\<close> when the copy
  fails, so it returns 0 with the oldest byte gone from the pipe.
\<close>

theorem piperead_drops_byte:
  fixes s :: "'z kpipe_scheme"
  assumes "uspace s (p_pagetable (myproc s)) m X ps" "pipe_ok (pipes s pi)" "pipe_cont (pipes s pi) = c # cs" "0 < sint n"
    "\<not> uwritable s (p_pagetable (myproc s)) addr"
  shows "\<exists>s'. piperead s pi addr n = (IoDone 0, s') \<and> pipe_cont (pipes s' pi) = cs"
  using assms by (rule piperead_hole)

theorem piperead_drops_byte_witness:
  "\<exists>s s' :: ktrap. pipe_cont (pipes s 0x80200000) = [7] \<and> piperead s 0x80200000 0x4000 1 = (IoDone 0, s') \<and> pipe_cont (pipes s' 0x80200000) = []"
proof -
  let ?s = "upd_pipe writer 0x80200000 (pipe_put 7)"
  have q: "pipe_ok (pipes ?s 0x80200000)" "pipe_cont (pipes ?s 0x80200000) = [7]"
    using pq.put_law [of "pipes writer 0x80200000" 7] by (simp_all add: writer_pipe PIPESIZE_def)
  have "\<not> uwritable ?s (p_pagetable (myproc ?s)) 0x4000"
    using one_page_leaf [of "0x4000"] by (simp add: writer_def uwritable_def ureadable_def one_page_def pg_def)
  then have "\<exists>s'. piperead ?s 0x80200000 0x4000 1 = (IoDone 0, s') \<and> pipe_cont (pipes s' 0x80200000) = []"
    using writer_user by (intro piperead_drops_byte [OF _ q]) auto
  then show ?thesis using q(2) by blast
qed

text \<open>
  C20: The console's interrupt handler is a line editor.  \<open>uartintr\<close> takes every byte the device has received
  and leaves the input that can be read and the line under construction as the editor on lists does:
  backspace and \<open>^U\<close> erase within the line only, a carriage return ends it like a newline, a newline,
  \<open>^D\<close> or a full buffer makes the line readable, and input that does not fit is dropped.
\<close>

theorem uartintr_edits:
  assumes "cons_ok s"
  shows "\<exists>s'. uartintr s = Ret s' \<and> cons_ok s' \<and> uart_in s' = [] \<and>
    (cons_ready s', cons_line s') = foldl edit (cons_ready s, cons_line s) (uart_in s)"
  using uartintr_loop_run [OF assms] by (auto simp: uartintr_def uartstart_cons simp del: edit.simps)

theorem uartintr_edits_witness:
  "\<exists>s'. uartintr (bss\<lparr>cons_r := 0xffffffff, cons_w := 0xffffffff, cons_e := 0xffffffff, uart_in := [108, 120, 8, 115, 13, 99]\<rparr>) = Ret s' \<and>
    cons_ready s' = [108, 115, 10] \<and> cons_line s' = [99]"
proof -
  let ?s = "bss\<lparr>cons_r := 0xffffffff, cons_w := 0xffffffff, cons_e := 0xffffffff, uart_in := [108, 120, 8, 115, 13, 99]\<rparr>"
  have "cons_ok ?s" "cons_ready ?s = []" "cons_line ?s = []" by (simp_all add: cons_ok_def cons_ready_def cons_line_def)
  then show ?thesis using uartintr_edits [of ?s] by (auto simp: INPUT_BUF_SIZE_def)
qed

text \<open>
  C26: Output keeps its order.  \<open>consolewrite\<close> of a readable buffer either hands over all \<open>n\<close> bytes, or waits with
  the transmit ring full after a prefix of them; what the device got followed by the ring is what it was
  before followed by exactly these bytes.
\<close>

theorem consolewrite_order:
  fixes s :: "'z kcons_scheme" and n :: u32
  assumes "uspace s (p_pagetable (myproc s)) m X ps" "uart_ok s" "\<not> panicked s"
    "\<forall>j<nat (sint n). ureadable s (p_pagetable (myproc s)) (addr + of_nat j)"
  shows "\<exists>k s'. consolewrite s (UserSrc addr) n = Ret (if k = nat (sint n) then IoDone (int k) else IoWait k, s') \<and> k \<le> nat (sint n) \<and>
    (k = nat (sint n) \<or> length (uart_tx s') = UART_TX_BUF_SIZE) \<and>
    uart_out s' @ uart_tx s' = uart_out s @ uart_tx s @ ubytes s (p_pagetable (myproc s)) addr k"
proof -
  have "nat (sint n) < 2 ^ 32" using sint_lt [of n] by simp
  from consolewrite_loop_run [OF assms(1-3) le0 this, of addr] assms(4)
  obtain io s' where r: "consolewrite s (UserSrc addr) n = Ret (io, s')"
      "uart_out s' @ uart_tx s' = uart_out s @ uart_tx s @ ubytes s (p_pagetable (myproc s)) addr (taken io 0)"
      "io = IoDone (int (nat (sint n))) \<or> (\<exists>j. io = IoWait j \<and> j < nat (sint n) \<and> length (uart_tx s') = UART_TX_BUF_SIZE)"
    by (auto simp: consolewrite_def)
  then show ?thesis by (intro exI [of _ "taken io 0"] exI [of _ s']) auto
qed

theorem consolewrite_order_witness:
  "\<exists>k s'. consolewrite writer (UserSrc 0) 40 = Ret (if k = 40 then IoDone (int k) else IoWait k, s') \<and>
    uart_out s' @ uart_tx s' = ubytes writer (p_pagetable (myproc writer)) 0 k"
proof -
  have "\<forall>j<nat (sint (40 :: u32)). ureadable writer (p_pagetable (myproc writer)) (0 + of_nat j)"
    using writer_writable by (simp add: uwritable_def unat_of_nat)
  moreover have w: "uart_ok writer" "\<not> panicked writer" "uart_tx writer = []" "uart_out writer = []" by (simp_all add: writer_def uart_ok_def uart_tx_def)
  ultimately show ?thesis using consolewrite_order [OF writer_user w(1,2), of 40 0] w(3,4) by auto
qed

end
