(* ===== verification/Spinlock.thy ===== *)
theory Spinlock
  imports Prelude
begin

text \<open>
  Spinlocks, \<^verbatim>\<open>kernel/spinlock.c\<close>, on several CPUs.  The operations act on the CPUs' interrupt state and on the locks;
  \<open>acquire\<close> and \<open>release\<close> are cut at their atomic accesses to \<open>lk->locked\<close>, and a step relation interleaves
  the CPUs at this granularity.  Locks are numbered; \<open>mycpu()\<close> is the argument \<open>c\<close>.
\<close>

section \<open>Interrupts and locks\<close>

definition SIE :: u64 where "SIE = 2"

record cpu =
  c_sstatus :: u64
  c_noff :: int
  c_intena :: bool

record spinlock =
  lk_locked :: bool
  lk_name :: string
  lk_cpu :: "nat option"

record smp =
  cpus :: "nat \<Rightarrow> cpu"
  locks :: "nat \<Rightarrow> spinlock"

definition upd_cpu :: "smp \<Rightarrow> nat \<Rightarrow> (cpu \<Rightarrow> cpu) \<Rightarrow> smp" where
  "upd_cpu s c f = s\<lparr>cpus := (cpus s)(c := f (cpus s c))\<rparr>"

definition upd_lock :: "smp \<Rightarrow> nat \<Rightarrow> (spinlock \<Rightarrow> spinlock) \<Rightarrow> smp" where
  "upd_lock s l f = s\<lparr>locks := (locks s)(l := f (locks s l))\<rparr>"

definition cpu_intr_on :: "smp \<Rightarrow> nat \<Rightarrow> smp" where
  "cpu_intr_on s c = upd_cpu s c (\<lambda>k. k\<lparr>c_sstatus := c_sstatus k OR SIE\<rparr>)"

definition cpu_intr_off :: "smp \<Rightarrow> nat \<Rightarrow> smp" where
  "cpu_intr_off s c = upd_cpu s c (\<lambda>k. k\<lparr>c_sstatus := c_sstatus k AND NOT SIE\<rparr>)"

definition cpu_intr_get :: "smp \<Rightarrow> nat \<Rightarrow> bool" where
  "cpu_intr_get s c \<longleftrightarrow> c_sstatus (cpus s c) AND SIE \<noteq> 0"

definition push_off :: "smp \<Rightarrow> nat \<Rightarrow> smp" where
  "push_off s c =
     (let old = cpu_intr_get s c;
          s1 = cpu_intr_off s c;
          s2 = (if c_noff (cpus s1 c) = 0 then upd_cpu s1 c (\<lambda>k. k\<lparr>c_intena := old\<rparr>) else s1) in
      upd_cpu s2 c (\<lambda>k. k\<lparr>c_noff := c_noff k + 1\<rparr>))"

definition pop_off :: "smp \<Rightarrow> nat \<Rightarrow> smp res" where
  "pop_off s c =
     (if cpu_intr_get s c then Panic ''pop_off - interruptible''
      else if c_noff (cpus s c) < 1 then Panic ''pop_off''
      else
        let s1 = upd_cpu s c (\<lambda>k. k\<lparr>c_noff := c_noff k - 1\<rparr>) in
        Ret (if c_noff (cpus s1 c) = 0 \<and> c_intena (cpus s1 c) then cpu_intr_on s1 c else s1))"

definition initlock :: "smp \<Rightarrow> nat \<Rightarrow> string \<Rightarrow> smp" where
  "initlock s l nm = upd_lock s l (\<lambda>k. k\<lparr>lk_name := nm, lk_locked := False, lk_cpu := None\<rparr>)"

definition holding :: "smp \<Rightarrow> nat \<Rightarrow> nat \<Rightarrow> bool" where
  "holding s c l \<longleftrightarrow> lk_locked (locks s l) \<and> lk_cpu (locks s l) = Some c"

text \<open>\<open>acquire\<close>: the part before the loop, one turn of the loop (\<open>amoswap\<close>), and the part after it.\<close>

definition acquire_enter :: "smp \<Rightarrow> nat \<Rightarrow> nat \<Rightarrow> smp res" where
  "acquire_enter s c l = (let s1 = push_off s c in if holding s1 c l then Panic ''acquire'' else Ret s1)"

definition test_and_set :: "smp \<Rightarrow> nat \<Rightarrow> bool \<times> smp" where
  "test_and_set s l = (lk_locked (locks s l), upd_lock s l (\<lambda>k. k\<lparr>lk_locked := True\<rparr>))"

definition acquire_own :: "smp \<Rightarrow> nat \<Rightarrow> nat \<Rightarrow> smp" where
  "acquire_own s c l = upd_lock s l (\<lambda>k. k\<lparr>lk_cpu := Some c\<rparr>)"

text \<open>\<open>release\<close>: up to the fence, and the store that frees the lock; \<open>pop_off\<close> follows.\<close>

definition release_enter :: "smp \<Rightarrow> nat \<Rightarrow> nat \<Rightarrow> smp res" where
  "release_enter s c l =
     (if \<not> holding s c l then Panic ''release'' else Ret (upd_lock s l (\<lambda>k. k\<lparr>lk_cpu := None\<rparr>)))"

definition lock_release :: "smp \<Rightarrow> nat \<Rightarrow> smp" where
  "lock_release s l = upd_lock s l (\<lambda>k. k\<lparr>lk_locked := False\<rparr>)"

text \<open>The whole functions, run by one CPU while the others stand still.\<close>

definition acquire :: "smp \<Rightarrow> nat \<Rightarrow> nat \<Rightarrow> smp res" where
  "acquire s c l =
     bindr (acquire_enter s c l) (\<lambda>s1.
     let (old, s2) = test_and_set s1 l in
     if old then Diverge else Ret (acquire_own s2 c l))"

definition release :: "smp \<Rightarrow> nat \<Rightarrow> nat \<Rightarrow> smp res" where
  "release s c l = bindr (release_enter s c l) (\<lambda>s1. pop_off (lock_release s1 l) c)"

section \<open>CPUs running at the same time\<close>

text \<open>Where a CPU is: outside these functions, or between two of their atomic parts.\<close>

datatype pc = Outside | Spinning nat | Swapped nat | Releasing nat | Popping

text \<open>
  \<open>rnest c\<close> counts the calls of \<open>push_off\<close> by CPU \<open>c\<close> that are its own, not those of \<open>acquire\<close>.  A CPU calls
  \<open>pop_off\<close> only to undo one of these, and switches interrupts itself only outside all locks.
\<close>

record smp_run =
  rst :: smp
  rat :: "nat \<Rightarrow> pc"
  rnest :: "nat \<Rightarrow> nat"

inductive smp_step :: "smp_run \<Rightarrow> smp_run \<Rightarrow> bool" where
  push: "rat r c = Outside \<Longrightarrow> smp_step r (r\<lparr>rst := push_off (rst r) c, rnest := (rnest r)(c := Suc (rnest r c))\<rparr>)"
| pop: "rat r c = Outside \<Longrightarrow> rnest r c = Suc n \<Longrightarrow> pop_off (rst r) c = Ret s \<Longrightarrow> smp_step r (r\<lparr>rst := s, rnest := (rnest r)(c := n)\<rparr>)"
| on: "rat r c = Outside \<Longrightarrow> c_noff (cpus (rst r) c) = 0 \<Longrightarrow> smp_step r (r\<lparr>rst := cpu_intr_on (rst r) c\<rparr>)"
| off: "rat r c = Outside \<Longrightarrow> c_noff (cpus (rst r) c) = 0 \<Longrightarrow> smp_step r (r\<lparr>rst := cpu_intr_off (rst r) c\<rparr>)"
| enter: "rat r c = Outside \<Longrightarrow> acquire_enter (rst r) c l = Ret s \<Longrightarrow> smp_step r (r\<lparr>rst := s, rat := (rat r)(c := Spinning l)\<rparr>)"
| swap: "rat r c = Spinning l \<Longrightarrow> test_and_set (rst r) l = (old, s) \<Longrightarrow>
    smp_step r (r\<lparr>rst := s, rat := (rat r)(c := (if old then Spinning l else Swapped l))\<rparr>)"
| own: "rat r c = Swapped l \<Longrightarrow> smp_step r (r\<lparr>rst := acquire_own (rst r) c l, rat := (rat r)(c := Outside)\<rparr>)"
| leave: "rat r c = Outside \<Longrightarrow> release_enter (rst r) c l = Ret s \<Longrightarrow> smp_step r (r\<lparr>rst := s, rat := (rat r)(c := Releasing l)\<rparr>)"
| clear: "rat r c = Releasing l \<Longrightarrow> smp_step r (r\<lparr>rst := lock_release (rst r) l, rat := (rat r)(c := Popping)\<rparr>)"
| pop_end: "rat r c = Popping \<Longrightarrow> pop_off (rst r) c = Ret s \<Longrightarrow> smp_step r (r\<lparr>rst := s, rat := (rat r)(c := Outside)\<rparr>)"

text \<open>At the start every lock is free and no CPU has interrupts pushed off.\<close>

definition fresh_run :: "smp_run \<Rightarrow> bool" where
  "fresh_run r \<longleftrightarrow> (\<forall>l. lk_locked (locks (rst r) l) = False \<and> lk_cpu (locks (rst r) l) = None) \<and>
     (\<forall>c. c_noff (cpus (rst r) c) = 0 \<and> rat r c = Outside \<and> rnest r c = 0)"

inductive smp_reach :: "smp_run \<Rightarrow> bool" where
  boot: "fresh_run r \<Longrightarrow> smp_reach r"
| more: "smp_reach r \<Longrightarrow> smp_step r r' \<Longrightarrow> smp_reach r'"

text \<open>CPU \<open>c\<close> is in the critical section of \<open>l\<close>: from its successful swap to its freeing store.\<close>

definition owns :: "smp_run \<Rightarrow> nat \<Rightarrow> nat \<Rightarrow> bool" where
  "owns r c l \<longleftrightarrow> rat r c = Swapped l \<or> rat r c = Releasing l \<or> lk_cpu (locks (rst r) l) = Some c"

section \<open>The invariant\<close>

fun busy :: "pc \<Rightarrow> nat" where
  "busy Outside = 0"
| "busy _ = 1"

definition lock_inv :: "smp_run \<Rightarrow> bool" where
  "lock_inv r \<longleftrightarrow>
     (\<forall>l. lk_locked (locks (rst r) l) \<longleftrightarrow> (\<exists>c. owns r c l)) \<and>
     (\<forall>l c c'. owns r c l \<longrightarrow> owns r c' l \<longrightarrow> c = c') \<and>
     (\<forall>l c. rat r c = Swapped l \<or> rat r c = Releasing l \<longrightarrow> lk_cpu (locks (rst r) l) = None)"

definition held :: "smp_run \<Rightarrow> nat \<Rightarrow> nat set" where
  "held r c = {l. lk_cpu (locks (rst r) l) = Some c}"

definition intr_inv :: "smp_run \<Rightarrow> bool" where
  "intr_inv r \<longleftrightarrow> (\<forall>c. finite (held r c) \<and> c_noff (cpus (rst r) c) = int (rnest r c + card (held r c) + busy (rat r c)) \<and>
     (c_noff (cpus (rst r) c) > 0 \<longrightarrow> \<not> cpu_intr_get (rst r) c))"

text \<open>What the operations do to the locks and to the interrupt state of a CPU.\<close>

lemma locks_cpu [simp]:
  "locks (upd_cpu s c f) = locks s" "locks (cpu_intr_on s c) = locks s" "locks (cpu_intr_off s c) = locks s" "locks (push_off s c) = locks s"
  by (simp_all add: upd_cpu_def cpu_intr_on_def cpu_intr_off_def push_off_def Let_def)

lemma cpus_lock [simp]:
  "cpus (upd_lock s l f) = cpus s" "cpus (acquire_own s c l) = cpus s" "cpus (lock_release s l) = cpus s" "cpu_intr_get (upd_lock s l f) c' = cpu_intr_get s c'"
  "cpu_intr_get (acquire_own s c l) c' = cpu_intr_get s c'" "cpu_intr_get (lock_release s l) c' = cpu_intr_get s c'"
  by (simp_all add: upd_lock_def acquire_own_def lock_release_def cpu_intr_get_def)

lemma pop_off_Ret:
  "pop_off s c = Ret s' \<longleftrightarrow> \<not> cpu_intr_get s c \<and> 1 \<le> c_noff (cpus s c) \<and>
     s' = (let s1 = upd_cpu s c (\<lambda>k. k\<lparr>c_noff := c_noff k - 1\<rparr>) in
       if c_noff (cpus s c) = 1 \<and> c_intena (cpus s c) then cpu_intr_on s1 c else s1)"
  by (auto simp: pop_off_def Let_def upd_cpu_def)

lemma locks_pop [simp]: "pop_off s c = Ret s' \<Longrightarrow> locks s' = locks s"
  by (auto simp: pop_off_Ret Let_def)

lemma enter_Ret: "acquire_enter s c l = Ret s' \<longleftrightarrow> s' = push_off s c \<and> \<not> holding s c l"
  by (auto simp: acquire_enter_def holding_def Let_def)

lemma leave_Ret: "release_enter s c l = Ret s' \<longleftrightarrow> s' = upd_lock s l (\<lambda>k. k\<lparr>lk_cpu := None\<rparr>) \<and> holding s c l"
  by (auto simp: release_enter_def)

lemma locks_lock [simp]:
  "locks (upd_lock s l f) = (locks s)(l := f (locks s l))" "locks (acquire_own s c l) = (locks s)(l := (locks s l)\<lparr>lk_cpu := Some c\<rparr>)"
  "locks (lock_release s l) = (locks s)(l := (locks s l)\<lparr>lk_locked := False\<rparr>)"
  by (simp_all add: upd_lock_def acquire_own_def lock_release_def)

lemma lock_inv_step: "smp_step r r' \<Longrightarrow> lock_inv r \<Longrightarrow> lock_inv r'"
proof (induction rule: smp_step.induct)
  case (push r c)
  then show ?case by (simp add: lock_inv_def owns_def)
next
  case (pop r c n s)
  then show ?case by (simp add: lock_inv_def owns_def)
next
  case (on r c)
  then show ?case by (simp add: lock_inv_def owns_def)
next
  case (off r c)
  then show ?case by (simp add: lock_inv_def owns_def)
next
  case (enter r c l s)
  then have "owns (r\<lparr>rst := s, rat := (rat r)(c := Spinning l)\<rparr>) = owns r" by (auto simp: owns_def enter_Ret fun_eq_iff)
  then show ?case using enter by (auto simp: lock_inv_def enter_Ret)
next
  case (swap r c l old s)
  show ?case
  proof (cases old)
    case True
    then have "owns (r\<lparr>rst := s, rat := (rat r)(c := (if old then Spinning l else Swapped l))\<rparr>) = owns r" using swap(1,2) by (auto simp: owns_def test_and_set_def fun_eq_iff split: if_splits)
    then show ?thesis using swap True by (auto simp: lock_inv_def test_and_set_def split: if_splits)
  next
    case False
    have free: "\<not> owns r c' l" for c' using swap False by (auto simp: lock_inv_def test_and_set_def)
    have o: "owns (r\<lparr>rst := s, rat := (rat r)(c := (if old then Spinning l else Swapped l))\<rparr>) c' l' \<longleftrightarrow> owns r c' l' \<or> c' = c \<and> l' = l" for c' l'
      using swap(1,2) False by (auto simp: owns_def test_and_set_def split: if_splits)
    have "lk_cpu (locks (rst r) l) = None" using free by (cases "lk_cpu (locks (rst r) l)") (auto simp: owns_def)
    then show ?thesis using swap(2,3) False free unfolding lock_inv_def o by (auto simp: test_and_set_def split: if_splits)
  qed
next
  case (own r c l)
  have o: "owns (r\<lparr>rst := acquire_own (rst r) c l, rat := (rat r)(c := Outside)\<rparr>) = owns r" using own by (auto simp: owns_def lock_inv_def fun_eq_iff)
  show ?case using own unfolding lock_inv_def o by (auto simp: owns_def)
next
  case (leave r c l s)
  then have "owns (r\<lparr>rst := s, rat := (rat r)(c := Releasing l)\<rparr>) = owns r" by (auto simp: owns_def leave_Ret holding_def fun_eq_iff)
  then show ?case using leave by (auto simp: lock_inv_def leave_Ret)
next
  case (clear r c l)
  then have o: "owns (r\<lparr>rst := lock_release (rst r) l, rat := (rat r)(c := Popping)\<rparr>) c' l' \<longleftrightarrow> owns r c' l' \<and> l' \<noteq> l" for c' l'
    by (auto simp: owns_def lock_inv_def)
  show ?case using clear unfolding lock_inv_def o by auto
next
  case (pop_end r c s)
  then have "owns (r\<lparr>rst := s, rat := (rat r)(c := Outside)\<rparr>) = owns r" by (auto simp: owns_def fun_eq_iff)
  then show ?case using pop_end by (auto simp: lock_inv_def)
qed

lemma intr_push:
  "c_noff (cpus (push_off s c) c') = (if c' = c then c_noff (cpus s c) + 1 else c_noff (cpus s c'))"
  "cpu_intr_get (push_off s c) c' \<longleftrightarrow> c' \<noteq> c \<and> cpu_intr_get s c'"
  by (simp_all add: push_off_def Let_def cpu_intr_off_def upd_cpu_def cpu_intr_get_def bit_eq_iff bit_simps SIE_def)

lemma intr_pop:
  assumes "pop_off s c = Ret s'"
  shows "c_noff (cpus s' c') = (if c' = c then c_noff (cpus s c) - 1 else c_noff (cpus s c'))"
    "cpu_intr_get s' c' \<Longrightarrow> if c' = c then c_noff (cpus s c) = 1 else cpu_intr_get s c'"
  using assms by (auto simp: pop_off_Ret Let_def cpu_intr_on_def upd_cpu_def cpu_intr_get_def split: if_splits)

lemma intr_pop_other: "pop_off s c = Ret s' \<Longrightarrow> c' \<noteq> c \<Longrightarrow> cpu_intr_get s' c' = cpu_intr_get s c'"
  by (auto simp: pop_off_Ret Let_def cpu_intr_on_def upd_cpu_def cpu_intr_get_def)

lemma intr_switch:
  "c_noff (cpus (cpu_intr_on s c) c') = c_noff (cpus s c')" "c_noff (cpus (cpu_intr_off s c) c') = c_noff (cpus s c')"
  "c' \<noteq> c \<Longrightarrow> cpu_intr_get (cpu_intr_on s c) c' = cpu_intr_get s c'" "c' \<noteq> c \<Longrightarrow> cpu_intr_get (cpu_intr_off s c) c' = cpu_intr_get s c'"
  by (simp_all add: cpu_intr_on_def cpu_intr_off_def upd_cpu_def cpu_intr_get_def)

lemma intr_invI:
  assumes "intr_inv r"
    and "\<And>c'. c' \<noteq> c \<Longrightarrow> held r' c' = held r c' \<and> c_noff (cpus (rst r') c') = c_noff (cpus (rst r) c') \<and>
      cpu_intr_get (rst r') c' = cpu_intr_get (rst r) c' \<and> rnest r' c' = rnest r c' \<and> rat r' c' = rat r c'"
    and "finite (held r' c)" "c_noff (cpus (rst r') c) = int (rnest r' c + card (held r' c) + busy (rat r' c))"
    "c_noff (cpus (rst r') c) > 0 \<Longrightarrow> \<not> cpu_intr_get (rst r') c"
  shows "intr_inv r'"
  unfolding intr_inv_def
proof
  fix c'
  show "finite (held r' c') \<and> c_noff (cpus (rst r') c') = int (rnest r' c' + card (held r' c') + busy (rat r' c')) \<and>
      (c_noff (cpus (rst r') c') > 0 \<longrightarrow> \<not> cpu_intr_get (rst r') c')"
    using assms by (cases "c' = c") (simp_all add: intr_inv_def)
qed

lemma intr_invD:
  assumes "intr_inv r"
  shows "finite (held r c)" "c_noff (cpus (rst r) c) = int (rnest r c + card (held r c) + busy (rat r c))"
    "c_noff (cpus (rst r) c) > 0 \<Longrightarrow> \<not> cpu_intr_get (rst r) c"
  using assms by (simp_all add: intr_inv_def)

lemma intr_inv_step: "smp_step r r' \<Longrightarrow> lock_inv r \<Longrightarrow> intr_inv r \<Longrightarrow> intr_inv r'"
proof (induction rule: smp_step.induct)
  case (push r c)
  note d = intr_invD [OF push(3), of c]
  show ?case by (rule intr_invI [OF push(3), of c]) (use push d in \<open>auto simp: intr_push held_def\<close>)
next
  case (pop r c n s)
  note d = intr_invD [OF pop(5), of c] and p = intr_pop [OF pop(3)]
  have g: "cpu_intr_get s c' = cpu_intr_get (rst r) c'" if "c' \<noteq> c" for c' using intr_pop_other [OF pop(3) that] .
  show ?case by (rule intr_invI [OF pop(5), of c]) (use pop d p(1) p(2) [of c] g in \<open>auto simp: held_def\<close>)
next
  case (on r c)
  note d = intr_invD [OF on(4), of c]
  show ?case by (rule intr_invI [OF on(4), of c]) (use on d in \<open>auto simp: intr_switch held_def\<close>)
next
  case (off r c)
  note d = intr_invD [OF off(4), of c]
  show ?case by (rule intr_invI [OF off(4), of c]) (use off d in \<open>auto simp: intr_switch held_def\<close>)
next
  case (enter r c l s)
  note d = intr_invD [OF enter(4), of c]
  show ?case by (rule intr_invI [OF enter(4), of c]) (use enter d in \<open>auto simp: enter_Ret intr_push held_def\<close>)
next
  case (swap r c l old s)
  note d = intr_invD [OF swap(4), of c]
  have h: "held (r\<lparr>rst := s, rat := p\<rparr>) c' = held r c'" for c' p using swap(2) by (auto simp: held_def test_and_set_def split: if_splits)
  show ?case by (rule intr_invI [OF swap(4), of c]) (use swap d in \<open>auto simp: h test_and_set_def\<close>)
next
  case (own r c l)
  note d = intr_invD [OF own(3), of c]
  have free: "lk_cpu (locks (rst r) l) = None" using own(1,2) by (auto simp: lock_inv_def)
  then have h: "held (r\<lparr>rst := acquire_own (rst r) c l, rat := p\<rparr>) c' = (if c' = c then insert l (held r c) else held r c')" for c' p
    by (auto simp: held_def split: if_splits)
  have "l \<notin> held r c" using free by (simp add: held_def)
  then show ?case by (intro intr_invI [OF own(3), of c]) (use own d in \<open>auto simp: h\<close>)
next
  case (leave r c l s)
  note d = intr_invD [OF leave(4), of c]
  have l: "l \<in> held r c" using leave(2) by (simp add: leave_Ret holding_def held_def)
  have h: "held (r\<lparr>rst := s, rat := p\<rparr>) c' = (if c' = c then held r c - {l} else held r c')" for c' p
    using leave(2) by (auto simp: held_def leave_Ret holding_def split: if_splits)
  have "card (held r c) = Suc (card (held r c - {l}))" using l d(1) by (rule card.remove [rotated])
  moreover have "cpus s = cpus (rst r)" "cpu_intr_get s = cpu_intr_get (rst r)" using leave(2) by (auto simp: leave_Ret)
  ultimately show ?case by (intro intr_invI [OF leave(4), of c]) (use leave(1) d in \<open>auto simp: h\<close>)
next
  case (clear r c l)
  note d = intr_invD [OF clear(3), of c]
  have h: "held (r\<lparr>rst := lock_release (rst r) l, rat := p\<rparr>) c' = held r c'" for c' p by (auto simp: held_def split: if_splits)
  show ?case by (rule intr_invI [OF clear(3), of c]) (use clear d in \<open>auto simp: h\<close>)
next
  case (pop_end r c s)
  note d = intr_invD [OF pop_end(4), of c] and p = intr_pop [OF pop_end(2)]
  have g: "cpu_intr_get s c' = cpu_intr_get (rst r) c'" if "c' \<noteq> c" for c' using intr_pop_other [OF pop_end(2) that] .
  show ?case by (rule intr_invI [OF pop_end(4), of c]) (use pop_end d p(1) p(2) [of c] g in \<open>auto simp: held_def\<close>)
qed

lemma reach_inv: "smp_reach r \<Longrightarrow> lock_inv r \<and> intr_inv r"
proof (induction rule: smp_reach.induct)
  case (boot r)
  then show ?case by (auto simp: fresh_run_def lock_inv_def intr_inv_def owns_def held_def)
next
  case (more r r')
  then show ?case using lock_inv_step intr_inv_step by blast
qed

section \<open>Properties\<close>

text \<open>
  C13: Spinlocks exclude each other.  On any number of CPUs, in every interleaving of the atomic parts of \<open>acquire\<close>
  and \<open>release\<close>, at most one CPU is in the critical section of a lock, which then reads as locked; a CPU
  that is in a critical section or waits for one has interrupts off, and \<open>noff\<close> counts its nesting; and
  neither \<open>acquire\<close> by a CPU that does not hold the lock, nor \<open>release\<close> by one that does, nor the \<open>pop_off\<close>
  at its end panics.
\<close>

theorem spinlock_mutex:
  assumes "smp_reach r"
  shows "(\<forall>l c c'. owns r c l \<and> owns r c' l \<longrightarrow> c = c') \<and> (\<forall>l. lk_locked (locks (rst r) l) \<longleftrightarrow> (\<exists>c. owns r c l)) \<and>
    (\<forall>c l. owns r c l \<or> rat r c = Spinning l \<longrightarrow> \<not> cpu_intr_get (rst r) c) \<and>
    (\<forall>c. c_noff (cpus (rst r) c) = int (rnest r c + card {l. owns r c l} + (if rat r c = Popping \<or> (\<exists>l. rat r c = Spinning l) then 1 else 0))) \<and>
    (\<forall>c l. \<not> owns r c l \<longrightarrow> (\<exists>s. acquire_enter (rst r) c l = Ret s)) \<and>
    (\<forall>c l. owns r c l \<and> rat r c = Outside \<longrightarrow> (\<exists>s. release_enter (rst r) c l = Ret s)) \<and>
    (\<forall>c. rat r c = Popping \<longrightarrow> (\<exists>s. pop_off (rst r) c = Ret s))"
proof -
  have I: "lock_inv r" "intr_inv r" using reach_inv [OF assms] by simp_all
  note d = intr_invD [OF I(2)]
  have o: "{l. owns r c l} = held r c \<union> {l. rat r c = Swapped l \<or> rat r c = Releasing l}" for c by (auto simp: owns_def held_def)
  have n: "c_noff (cpus (rst r) c) = int (rnest r c + card {l. owns r c l} + (if rat r c = Popping \<or> (\<exists>l. rat r c = Spinning l) then 1 else 0))" for c
  proof (cases "\<exists>l. rat r c = Swapped l \<or> rat r c = Releasing l")
    case True
    then obtain l where l: "{l. rat r c = Swapped l \<or> rat r c = Releasing l} = {l}" "rat r c = Swapped l \<or> rat r c = Releasing l" by auto
    then have "l \<notin> held r c" using I(1) by (auto simp: lock_inv_def held_def)
    then show ?thesis using l(2) d(1,2) [of c] unfolding o l(1) by auto
  next
    case False
    then have "{l. owns r c l} = held r c" unfolding o by auto
    then show ?thesis using False d(2) [of c] by (cases "rat r c") auto
  qed
  have off: "\<not> cpu_intr_get (rst r) c" if "owns r c l \<or> rat r c = Spinning l" for c l
  proof -
    have "finite {l. owns r c l}" using d(1) [of c] unfolding o by (cases "rat r c") auto
    then have "card {l. owns r c l} > 0 \<or> rat r c = Spinning l" using that by (auto simp: card_gt_0_iff)
    then show ?thesis using n [of c] d(3) [of c] by auto
  qed
  have "\<exists>s. acquire_enter (rst r) c l = Ret s" if "\<not> owns r c l" for c l using that by (auto simp: enter_Ret owns_def holding_def)
  moreover have "\<exists>s. release_enter (rst r) c l = Ret s" if "owns r c l" "rat r c = Outside" for c l
    using that I(1) by (auto simp: leave_Ret lock_inv_def holding_def owns_def)
  moreover have "\<exists>s. pop_off (rst r) c = Ret s" if "rat r c = Popping" for c
    using that n [of c] d(3) [of c] by (auto simp: pop_off_Ret)
  ultimately show ?thesis using I(1) n off unfolding lock_inv_def by blast
qed

theorem spinlock_mutex_witness:
  "\<exists>r. smp_reach r \<and> owns r 0 5 \<and> \<not> owns r 1 5 \<and> \<not> cpu_intr_get (rst r) 0 \<and> cpu_intr_get (rst r) 1"
proof -
  let ?s = "\<lparr>cpus = (\<lambda>_. \<lparr>c_sstatus = 2, c_noff = 0, c_intena = False\<rparr>), locks = (\<lambda>_. \<lparr>lk_locked = False, lk_name = ''lk'', lk_cpu = None\<rparr>)\<rparr>"
  let ?r = "\<lparr>rst = ?s, rat = (\<lambda>_. Outside), rnest = (\<lambda>_. 0)\<rparr>"
  have "smp_reach ?r" by (rule smp_reach.boot) (simp add: fresh_run_def)
  moreover have "smp_step ?r (?r\<lparr>rst := push_off ?s 0, rat := (rat ?r)(0 := Spinning 5)\<rparr>)"
    by (rule smp_step.enter) (simp_all add: enter_Ret holding_def)
  ultimately have r1: "smp_reach (?r\<lparr>rst := push_off ?s 0, rat := (rat ?r)(0 := Spinning 5)\<rparr>)" by (rule smp_reach.more)
  let ?r1 = "?r\<lparr>rst := push_off ?s 0, rat := (rat ?r)(0 := Spinning 5)\<rparr>"
  let ?s2 = "upd_lock (push_off ?s 0) 5 (\<lambda>k. k\<lparr>lk_locked := True\<rparr>)"
  have "smp_step ?r1 (?r1\<lparr>rst := ?s2, rat := (rat ?r1)(0 := (if False then Spinning 5 else Swapped 5))\<rparr>)"
    by (rule smp_step.swap) (simp_all add: test_and_set_def)
  then have r2: "smp_reach (?r1\<lparr>rst := ?s2, rat := (rat ?r1)(0 := (if False then Spinning 5 else Swapped 5))\<rparr>)" by (rule smp_reach.more [OF r1])
  let ?r2 = "?r1\<lparr>rst := ?s2, rat := (rat ?r1)(0 := (if False then Spinning 5 else Swapped 5))\<rparr>"
  define q where "q = ?r2"
  have o: "owns q 0 5" "\<not> owns q 1 5" "cpu_intr_get (rst q) 1" by (simp_all add: q_def owns_def intr_push) (simp add: cpu_intr_get_def SIE_def)
  have q: "smp_reach q" using r2 by (simp only: q_def)
  have "\<not> cpu_intr_get (rst q) 0" by (rule spinlock_mutex [OF q, THEN conjunct2, THEN conjunct2, THEN conjunct1, rule_format, OF disjI1, OF o(1)])
  then show ?thesis using o q by blast
qed

end
