(* ===== verification/Sched.thy ===== *)
theory Sched
  imports Proc Spinlock
begin

text \<open>
  Switching, sleeping and waking, the concurrent part of \<^verbatim>\<open>kernel/proc.c\<close>.  \<open>sched\<close> and \<open>sleep\<close> are sequences of
  spinlock operations on one CPU.  The step relation has any number of processes that wait for a condition
  with \<open>while(!cond) sleep(chan, lk)\<close> or signal it with \<open>wakeup(chan)\<close>, both with \<open>lk\<close> held, and the scheduler
  that takes processes off and onto CPUs; every lock operation is a step of its own.
\<close>

section \<open>Switching to the scheduler\<close>

text \<open>
  \<open>sched\<close> checks that the caller holds exactly its own process lock, has changed its state and has interrupts
  off; then it switches.  \<open>l\<close> is the process lock.
\<close>

definition sched :: "smp \<Rightarrow> nat \<Rightarrow> nat \<Rightarrow> procstate \<Rightarrow> smp res" where
  "sched s c l state =
     (if \<not> holding s c l then Panic ''sched p->lock''
      else if c_noff (cpus s c) \<noteq> 1 then Panic ''sched locks''
      else if state = RUNNING then Panic ''sched running''
      else if cpu_intr_get s c then Panic ''sched interruptible''
      else Ret s)"

text \<open>\<open>sleep\<close> up to the switch, and \<open>yield\<close> up to it.\<close>

definition sleep_switch :: "smp \<Rightarrow> nat \<Rightarrow> nat \<Rightarrow> nat \<Rightarrow> smp res" where
  "sleep_switch s c l lk =
     bindr (acquire s c l) (\<lambda>s1. bindr (release s1 c lk) (\<lambda>s2. sched s2 c l SLEEPING))"

definition yield_switch :: "smp \<Rightarrow> nat \<Rightarrow> nat \<Rightarrow> smp res" where
  "yield_switch s c l = bindr (acquire s c l) (\<lambda>s1. sched s1 c l RUNNABLE)"

text \<open>
  After the switch back, perhaps on another CPU: \<open>sched\<close> gives the thread its own \<open>intena\<close> again, then \<open>yield\<close>
  releases the process lock and \<open>sleep\<close> releases it and takes \<open>lk\<close>.
\<close>

definition sched_return :: "smp \<Rightarrow> nat \<Rightarrow> bool \<Rightarrow> smp" where
  "sched_return s c intena = upd_cpu s c (\<lambda>k. k\<lparr>c_intena := intena\<rparr>)"

definition yield_return :: "smp \<Rightarrow> nat \<Rightarrow> nat \<Rightarrow> bool \<Rightarrow> smp res" where
  "yield_return s c l intena = release (sched_return s c intena) c l"

definition sleep_return :: "smp \<Rightarrow> nat \<Rightarrow> nat \<Rightarrow> nat \<Rightarrow> bool \<Rightarrow> smp res" where
  "sleep_return s c l lk intena = bindr (release (sched_return s c intena) c l) (\<lambda>s1. acquire s1 c lk)"

section \<open>Sleep and wakeup\<close>

text \<open>Who holds a process lock: a process (its own, or that of one it wakes), or the scheduler.\<close>

datatype holder = ByProc nat | BySched

text \<open>
  Where a process is.  \<open>Sleep1\<close> to \<open>Sleep3\<close> are the points of \<open>sleep\<close> before \<open>acquire(&p->lock)\<close>, \<open>release(lk)\<close> and
  the change of state; \<open>Woken\<close> is the return of its \<open>sched\<close> and \<open>Relock\<close> its last \<open>acquire(lk)\<close>.  \<open>Wake i\<close> is the
  head of the loop of \<open>wakeup\<close> at process \<open>i\<close> and \<open>WakeIn i\<close> its body.
\<close>

datatype place = Free | Locked | Sleep1 | Sleep2 | Sleep3 | Asleep | Woken | Relock | Wake nat | WakeIn nat

record sw =
  sw_lk :: "nat option"
  sw_pl :: "nat \<Rightarrow> holder option"
  sw_state :: "nat \<Rightarrow> procstate"
  sw_chan :: "nat \<Rightarrow> chan"
  sw_cond :: bool
  sw_at :: "nat \<Rightarrow> place"

inductive sw_step :: "bool \<Rightarrow> chan \<Rightarrow> sw \<Rightarrow> sw \<Rightarrow> bool" for kl ch where
  lock: "p < NPROC \<Longrightarrow> sw_at s p = Free \<Longrightarrow> sw_lk s = None \<Longrightarrow> sw_step kl ch s (s\<lparr>sw_lk := Some p, sw_at := (sw_at s)(p := Locked)\<rparr>)"
| unlock: "sw_at s p = Locked \<Longrightarrow> sw_step kl ch s (s\<lparr>sw_lk := None, sw_at := (sw_at s)(p := Free)\<rparr>)"
| reset: "sw_at s p = Locked \<Longrightarrow> sw_step kl ch s (s\<lparr>sw_cond := False\<rparr>)"
| sleep0: "sw_at s p = Locked \<Longrightarrow> \<not> sw_cond s \<Longrightarrow> sw_step kl ch s (s\<lparr>sw_at := (sw_at s)(p := Sleep1)\<rparr>)"
| sleep1: "sw_at s p = Sleep1 \<Longrightarrow> sw_pl s p = None \<Longrightarrow>
    sw_step kl ch s (s\<lparr>sw_pl := (sw_pl s)(p := Some (ByProc p)), sw_at := (sw_at s)(p := Sleep2)\<rparr>)"
| sleep2: "sw_at s p = Sleep2 \<Longrightarrow> sw_step kl ch s (s\<lparr>sw_lk := None, sw_at := (sw_at s)(p := Sleep3)\<rparr>)"
| sleep3: "sw_at s p = Sleep3 \<Longrightarrow>
    sw_step kl ch s (s\<lparr>sw_chan := (sw_chan s)(p := ch), sw_state := (sw_state s)(p := SLEEPING),
      sw_pl := (sw_pl s)(p := Some BySched), sw_at := (sw_at s)(p := Asleep)\<rparr>)"
| sched_release: "sw_at s p = Asleep \<Longrightarrow> sw_pl s p = Some BySched \<Longrightarrow> sw_step kl ch s (s\<lparr>sw_pl := (sw_pl s)(p := None)\<rparr>)"
| sched_pick: "sw_at s p = Asleep \<Longrightarrow> sw_pl s p = None \<Longrightarrow> sw_state s p = RUNNABLE \<Longrightarrow>
    sw_step kl ch s (s\<lparr>sw_state := (sw_state s)(p := RUNNING), sw_pl := (sw_pl s)(p := Some (ByProc p)), sw_at := (sw_at s)(p := Woken)\<rparr>)"
| woken: "sw_at s p = Woken \<Longrightarrow>
    sw_step kl ch s (s\<lparr>sw_chan := (sw_chan s)(p := ChanNull), sw_pl := (sw_pl s)(p := None), sw_at := (sw_at s)(p := Relock)\<rparr>)"
| relock: "sw_at s p = Relock \<Longrightarrow> sw_lk s = None \<Longrightarrow> sw_step kl ch s (s\<lparr>sw_lk := Some p, sw_at := (sw_at s)(p := Locked)\<rparr>)"
| signal: "sw_at s p = Locked \<Longrightarrow> sw_step kl ch s (s\<lparr>sw_cond := True, sw_at := (sw_at s)(p := Wake 0)\<rparr>)"
| wake_self: "sw_at s p = Wake i \<Longrightarrow> i < NPROC \<Longrightarrow> i = p \<Longrightarrow> sw_step kl ch s (s\<lparr>sw_at := (sw_at s)(p := Wake (Suc i))\<rparr>)"
| wake_lock: "sw_at s p = Wake i \<Longrightarrow> i < NPROC \<Longrightarrow> i \<noteq> p \<Longrightarrow> sw_pl s i = None \<Longrightarrow>
    sw_step kl ch s (s\<lparr>sw_pl := (sw_pl s)(i := Some (ByProc p)), sw_at := (sw_at s)(p := WakeIn i)\<rparr>)"
| wake_body: "sw_at s p = WakeIn i \<Longrightarrow>
    sw_step kl ch s (s\<lparr>sw_state := (if sw_state s i = SLEEPING \<and> sw_chan s i = ch then (sw_state s)(i := RUNNABLE) else sw_state s),
      sw_pl := (sw_pl s)(i := None), sw_at := (sw_at s)(p := Wake (Suc i))\<rparr>)"
| wake_done: "sw_at s p = Wake NPROC \<Longrightarrow> sw_step kl ch s (s\<lparr>sw_lk := None, sw_at := (sw_at s)(p := Free)\<rparr>)"
| kick: "kl \<Longrightarrow> sw_pl s p = None \<Longrightarrow> sw_state s p = SLEEPING \<Longrightarrow> sw_step kl ch s (s\<lparr>sw_state := (sw_state s)(p := RUNNABLE)\<rparr>)"

text \<open>
  The last rule is \<open>kill\<close>, which makes a sleeping process runnable whatever it waits for.  It is a step only when
  the first argument allows it: \<open>sw_steps False\<close> are the runs of \<open>sleep\<close>, \<open>wakeup\<close> and the scheduler alone, in which
  nothing but \<open>wakeup\<close> makes a sleeping process runnable.
\<close>

definition sw_start :: "sw \<Rightarrow> bool" where
  "sw_start s \<longleftrightarrow> sw_lk s = None \<and> (\<forall>p. sw_pl s p = None \<and> sw_at s p = Free \<and> sw_state s p = RUNNING)"

definition sw_steps :: "bool \<Rightarrow> chan \<Rightarrow> sw \<Rightarrow> sw \<Rightarrow> bool" where
  "sw_steps kl ch = (sw_step kl ch)\<^sup>*\<^sup>*"

lemma sw_steps_refl: "sw_steps kl ch s s"
  by (simp add: sw_steps_def)

lemma sw_steps_step: "sw_steps kl ch s s' \<Longrightarrow> sw_step kl ch s' s'' \<Longrightarrow> sw_steps kl ch s s''"
  unfolding sw_steps_def by (rule rtranclp.rtrancl_into_rtrancl)

section \<open>The invariant\<close>

fun has_lk :: "place \<Rightarrow> bool" where
  "has_lk Locked = True" | "has_lk Sleep1 = True" | "has_lk Sleep2 = True" | "has_lk (Wake i) = True" | "has_lk (WakeIn i) = True"
| "has_lk _ = False"

fun has_own :: "place \<Rightarrow> bool" where
  "has_own Sleep2 = True" | "has_own Sleep3 = True" | "has_own Woken = True"
| "has_own _ = False"

text \<open>A process that has decided to sleep, and a waker that has still to look at it.\<close>

definition waiting :: "sw \<Rightarrow> nat \<Rightarrow> bool" where
  "waiting s p \<longleftrightarrow> sw_at s p = Sleep3 \<or> sw_at s p = Asleep \<and> sw_state s p = SLEEPING"

definition will_wake :: "sw \<Rightarrow> nat \<Rightarrow> bool" where
  "will_wake s p \<longleftrightarrow> (\<exists>w i. i \<le> p \<and> (sw_at s w = Wake i \<or> sw_at s w = WakeIn i))"

definition lk_ok :: "sw \<Rightarrow> bool" where
  "lk_ok s \<longleftrightarrow> (\<forall>p. has_lk (sw_at s p) = (sw_lk s = Some p))"

definition own_ok :: "sw \<Rightarrow> bool" where
  "own_ok s \<longleftrightarrow> (\<forall>p. has_own (sw_at s p) \<longrightarrow> sw_pl s p = Some (ByProc p))"

definition wake_ok :: "sw \<Rightarrow> bool" where
  "wake_ok s \<longleftrightarrow> (\<forall>p i. sw_at s p = WakeIn i \<longrightarrow> sw_pl s i = Some (ByProc p))"

definition pl_ok :: "sw \<Rightarrow> bool" where
  "pl_ok s \<longleftrightarrow> (\<forall>p q. sw_pl s q = Some (ByProc p) \<longrightarrow> (p = q \<and> has_own (sw_at s p)) \<or> sw_at s p = WakeIn q)"

definition range_ok :: "sw \<Rightarrow> bool" where
  "range_ok s \<longleftrightarrow> (\<forall>p. sw_at s p \<noteq> Free \<longrightarrow> p < NPROC) \<and> (\<forall>p i. sw_at s p = Wake i \<longrightarrow> i \<le> NPROC) \<and> (\<forall>p i. sw_at s p = WakeIn i \<longrightarrow> i < NPROC)"

definition cond_ok :: "sw \<Rightarrow> bool" where
  "cond_ok s \<longleftrightarrow> (\<forall>p. sw_at s p = Sleep1 \<or> sw_at s p = Sleep2 \<longrightarrow> \<not> sw_cond s)"

definition asleep_at :: "chan \<Rightarrow> sw \<Rightarrow> nat \<Rightarrow> bool" where
  "asleep_at ch s p \<longleftrightarrow> (sw_state s p = SLEEPING \<longrightarrow> sw_at s p = Asleep \<and> sw_chan s p = ch) \<and>
     (sw_pl s p = Some BySched \<longrightarrow> sw_at s p = Asleep) \<and> (sw_at s p = Asleep \<longrightarrow> sw_state s p = SLEEPING \<or> sw_state s p = RUNNABLE)"

lemma lk_okD:
  assumes "lk_ok s"
  shows "sw_at s p = Locked \<Longrightarrow> sw_lk s = Some p" "sw_at s p = Sleep1 \<Longrightarrow> sw_lk s = Some p"
    "sw_at s p = Sleep2 \<Longrightarrow> sw_lk s = Some p" "sw_at s p = Wake i \<Longrightarrow> sw_lk s = Some p"
    "sw_at s p = WakeIn i \<Longrightarrow> sw_lk s = Some p"
  using assms unfolding lk_ok_def by (metis has_lk.simps)+

lemma own_okD:
  assumes "own_ok s"
  shows "sw_at s p = Sleep2 \<Longrightarrow> sw_pl s p = Some (ByProc p)" "sw_at s p = Sleep3 \<Longrightarrow> sw_pl s p = Some (ByProc p)"
    "sw_at s p = Woken \<Longrightarrow> sw_pl s p = Some (ByProc p)"
  using assms unfolding own_ok_def by (metis has_own.simps)+

lemma wake_okD: "wake_ok s \<Longrightarrow> sw_at s p = WakeIn i \<Longrightarrow> sw_pl s i = Some (ByProc p)"
  by (auto simp: wake_ok_def)

lemma pl_okD: "pl_ok s \<Longrightarrow> sw_pl s q = Some (ByProc p) \<Longrightarrow> (p = q \<and> has_own (sw_at s p)) \<or> sw_at s p = WakeIn q"
  by (auto simp: pl_ok_def)

lemma pl_okI: "(\<And>p q. sw_pl s q = Some (ByProc p) \<Longrightarrow> (p = q \<and> has_own (sw_at s p)) \<or> sw_at s p = WakeIn q) \<Longrightarrow> pl_ok s"
  by (auto simp: pl_ok_def)

lemma lk_ok_move:
  assumes "lk_ok s" "sw_lk s = None \<or> sw_lk s = Some p" "has_lk pl = (l = Some p)" "l = None \<or> l = Some p"
    "sw_lk s' = l" "sw_at s' = (sw_at s)(p := pl)"
  shows "lk_ok s'"
  using assms unfolding lk_ok_def by (metis fun_upd_apply not_None_eq option.inject)

lemma lk_ok_same: "lk_ok s \<Longrightarrow> sw_lk s' = sw_lk s \<Longrightarrow> \<forall>q. has_lk (sw_at s' q) = has_lk (sw_at s q) \<Longrightarrow> lk_ok s'"
  by (simp add: lk_ok_def)

lemma lk_ok_step: "sw_step kl ch s s' \<Longrightarrow> lk_ok s \<Longrightarrow> lk_ok s'"
proof (induction rule: sw_step.induct)
  case (lock p s)
  show ?case
    by (rule lk_ok_move[OF lock.prems, of p Locked "Some p"]) (simp_all add: lk_okD[OF lock.prems] lock.hyps)
next
  case (unlock s p)
  show ?case
    by (rule lk_ok_move[OF unlock.prems, of p Free None]) (simp_all add: lk_okD[OF unlock.prems] unlock.hyps)
next
  case (sleep0 s p)
  show ?case
    by (rule lk_ok_move[OF sleep0.prems, of p Sleep1 "Some p"]) (simp_all add: lk_okD[OF sleep0.prems] sleep0.hyps)
next
  case (sleep1 s p)
  show ?case
    by (rule lk_ok_move[OF sleep1.prems, of p Sleep2 "Some p"]) (simp_all add: lk_okD[OF sleep1.prems] sleep1.hyps)
next
  case (sleep2 s p)
  show ?case
    by (rule lk_ok_move[OF sleep2.prems, of p Sleep3 None]) (simp_all add: lk_okD[OF sleep2.prems] sleep2.hyps)
next
  case (relock s p)
  show ?case
    by (rule lk_ok_move[OF relock.prems, of p Locked "Some p"]) (simp_all add: lk_okD[OF relock.prems] relock.hyps)
next
  case (signal s p)
  show ?case
    by (rule lk_ok_move[OF signal.prems, of p "Wake 0" "Some p"]) (simp_all add: lk_okD[OF signal.prems] signal.hyps)
next
  case (wake_self s p i)
  show ?case
    by (rule lk_ok_move[OF wake_self.prems, of p "Wake (Suc i)" "Some p"]) (simp_all add: lk_okD[OF wake_self.prems] wake_self.hyps)
next
  case (wake_lock s p i)
  show ?case
    by (rule lk_ok_move[OF wake_lock.prems, of p "WakeIn i" "Some p"]) (simp_all add: lk_okD[OF wake_lock.prems] wake_lock.hyps)
next
  case (wake_body s p i)
  show ?case
    by (rule lk_ok_move[OF wake_body.prems, of p "Wake (Suc i)" "Some p"]) (simp_all add: lk_okD[OF wake_body.prems] wake_body.hyps)
next
  case (wake_done s p)
  show ?case
    by (rule lk_ok_move[OF wake_done.prems, of p Free None]) (simp_all add: lk_okD[OF wake_done.prems] wake_done.hyps)
qed (erule lk_ok_same; simp)+

lemma own_ok_step: "sw_step kl ch s s' \<Longrightarrow> own_ok s \<Longrightarrow> wake_ok s \<Longrightarrow> own_ok s'"
  by (induction rule: sw_step.induct) (auto simp: own_ok_def wake_ok_def)

lemma range_ok_step: "sw_step kl ch s s' \<Longrightarrow> range_ok s \<Longrightarrow> range_ok s'"
proof (induction rule: sw_step.induct)
  case (wake_self s p i)
  then show ?case by (simp add: range_ok_def Suc_le_eq)
next
  case (wake_body s p i)
  then have "i < NPROC"
    by (auto simp: range_ok_def)
  with wake_body show ?case by (simp add: range_ok_def Suc_le_eq)
qed (auto simp: range_ok_def)

lemma cond_ok_step: "sw_step kl ch s s' \<Longrightarrow> cond_ok s \<Longrightarrow> lk_ok s \<Longrightarrow> cond_ok s'"
proof (induction rule: sw_step.induct)
  case (signal s p)
  then have "sw_lk s = Some p"
    by (simp add: lk_okD)
  with signal show ?case
    by (auto simp: cond_ok_def dest: lk_okD(2,3)[OF signal(3)])
qed (auto simp: cond_ok_def)

lemma wake_ok_step: "sw_step kl ch s s' \<Longrightarrow> wake_ok s \<Longrightarrow> own_ok s \<Longrightarrow> wake_ok s'"
proof (induction rule: sw_step.induct)
  case (wake_body s p i)
  then have "sw_pl s i = Some (ByProc p)"
    by (simp add: wake_okD)
  then show ?case
    using wake_body(2) by (force simp: wake_ok_def)
next
  case (sleep3 s p)
  then have "sw_pl s p = Some (ByProc p)"
    by (simp add: own_okD)
  then show ?case
    using sleep3(2) by (force simp: wake_ok_def)
next
  case (woken s p)
  then have "sw_pl s p = Some (ByProc p)"
    by (simp add: own_okD)
  then show ?case
    using woken(2) by (force simp: wake_ok_def)
qed (force simp: wake_ok_def)+

lemma asleep_at_step: "sw_step kl ch s s' \<Longrightarrow> asleep_at ch s q \<Longrightarrow> asleep_at ch s' q"
  by (induction rule: sw_step.induct) (auto simp: asleep_at_def split: if_splits)

lemma pl_ok_same: "pl_ok s \<Longrightarrow> sw_pl s' = sw_pl s \<Longrightarrow> \<forall>q. has_own (sw_at s q) \<longrightarrow> has_own (sw_at s' q) \<Longrightarrow>
  \<forall>q i. sw_at s q = WakeIn i \<longrightarrow> sw_at s' q = WakeIn i \<Longrightarrow> pl_ok s'"
  by (simp add: pl_ok_def) blast

lemma pl_ok_step: "sw_step kl ch s s' \<Longrightarrow> pl_ok s \<Longrightarrow> own_ok s \<Longrightarrow> wake_ok s \<Longrightarrow> pl_ok s'"
proof (induction rule: sw_step.induct)
  case (wake_body s p i)
  then have "sw_pl s i = Some (ByProc p)"
    by (simp add: wake_okD)
  show ?case
    by (rule pl_okI) (auto dest!: pl_okD[OF wake_body.prems(1)] simp: wake_body.hyps split: if_splits)
next
  case (sleep1 s p)
  show ?case
    by (rule pl_okI) (auto dest!: pl_okD[OF sleep1.prems(1)] simp: sleep1.hyps split: if_splits)
next
  case (sleep3 s p)
  show ?case
    by (rule pl_okI) (auto dest!: pl_okD[OF sleep3.prems(1)] simp: sleep3.hyps split: if_splits)
next
  case (sched_release s p)
  show ?case
    by (rule pl_okI) (auto dest!: pl_okD[OF sched_release.prems(1)] simp: sched_release.hyps split: if_splits)
next
  case (sched_pick s p)
  show ?case
    by (rule pl_okI) (auto dest!: pl_okD[OF sched_pick.prems(1)] simp: sched_pick.hyps split: if_splits)
next
  case (woken s p)
  show ?case
    by (rule pl_okI) (auto dest!: pl_okD[OF woken.prems(1)] simp: woken.hyps split: if_splits)
next
  case (wake_lock s p i)
  show ?case
    by (rule pl_okI) (auto dest!: pl_okD[OF wake_lock.prems(1)] simp: wake_lock.hyps split: if_splits)
qed (erule pl_ok_same; simp)+

text \<open>While the condition holds, whoever waits has a waker that has still to look at it.\<close>

definition wake_at :: "sw \<Rightarrow> nat \<Rightarrow> bool" where
  "wake_at s q \<longleftrightarrow> (sw_cond s \<and> waiting s q \<longrightarrow> will_wake s q)"

lemma will_wake_move: "will_wake s q \<Longrightarrow> sw_at s' = (sw_at s)(p := pl) \<Longrightarrow> \<forall>i. sw_at s p \<noteq> Wake i \<and> sw_at s p \<noteq> WakeIn i \<Longrightarrow> will_wake s' q"
  by (force simp: will_wake_def)

lemma will_wake_here: "sw_at s w = Wake i \<or> sw_at s w = WakeIn i \<Longrightarrow> i \<le> q \<Longrightarrow> will_wake s q"
  by (auto simp: will_wake_def)

lemma will_wake_le:
  assumes "will_wake s q" "lk_ok s" "sw_at s p = Wake i \<or> sw_at s p = WakeIn i"
  shows "i \<le> q"
proof -
  obtain w j where w: "j \<le> q" "sw_at s w = Wake j \<or> sw_at s w = WakeIn j"
    using assms(1) by (auto simp: will_wake_def)
  then have "sw_lk s = Some w" "sw_lk s = Some p"
    using assms(3) by (auto dest: lk_okD[OF assms(2)])
  with w assms(3) show ?thesis by auto
qed

lemma wake_at_same: "wake_at s q \<Longrightarrow> sw_cond s' = sw_cond s \<Longrightarrow> (waiting s' q \<Longrightarrow> waiting s q) \<Longrightarrow>
  sw_at s' = (sw_at s)(p := pl) \<Longrightarrow> \<forall>i. sw_at s p \<noteq> Wake i \<and> sw_at s p \<noteq> WakeIn i \<Longrightarrow> wake_at s' q"
  using will_wake_move by (auto simp: wake_at_def)

lemma wake_at_next:
  assumes "wake_at s q" "lk_ok s" "sw_at s p = Wake i \<or> sw_at s p = WakeIn i" "sw_cond s' = sw_cond s"
    "waiting s' q \<Longrightarrow> waiting s q \<and> q \<noteq> i" "sw_at s' = (sw_at s)(p := Wake (Suc i))"
  shows "wake_at s' q"
  unfolding wake_at_def
proof
  assume w: "sw_cond s' \<and> waiting s' q"
  then have "will_wake s q"
    using assms(1,4,5) by (simp add: wake_at_def)
  then have "Suc i \<le> q"
    using will_wake_le[OF _ assms(2,3)] w assms(5) by fastforce
  then show "will_wake s' q"
    using assms(6) by (intro will_wake_here[of _ p "Suc i"]) auto
qed

lemma wake_at_lock:
  assumes "wake_at s q" "lk_ok s" "sw_at s p = Wake i"
  shows "wake_at (s\<lparr>sw_pl := pl, sw_at := (sw_at s)(p := WakeIn i)\<rparr>) q"
  unfolding wake_at_def
proof
  assume "sw_cond (s\<lparr>sw_pl := pl, sw_at := (sw_at s)(p := WakeIn i)\<rparr>) \<and> waiting (s\<lparr>sw_pl := pl, sw_at := (sw_at s)(p := WakeIn i)\<rparr>) q"
  then have "will_wake s q"
    using assms(1) by (auto simp: wake_at_def waiting_def split: if_splits)
  then have "i \<le> q"
    using will_wake_le[OF _ assms(2)] assms(3) by blast
  then show "will_wake (s\<lparr>sw_pl := pl, sw_at := (sw_at s)(p := WakeIn i)\<rparr>) q"
    by (intro will_wake_here[of _ p i]) auto
qed

lemma wake_at_done:
  assumes "wake_at s q" "lk_ok s" "range_ok s" "sw_at s p = Wake NPROC"
  shows "\<not> (sw_cond s \<and> waiting s q)"
proof
  assume w: "sw_cond s \<and> waiting s q"
  then have "NPROC \<le> q"
    using assms(1,4) will_wake_le[OF _ assms(2)] by (auto simp: wake_at_def)
  moreover have "q < NPROC"
    using w assms(3) by (auto simp: waiting_def range_ok_def)
  ultimately show False by simp
qed

lemma wake_at_step:
  assumes "sw_step kl ch s s'" "wake_at s q" "lk_ok s" "own_ok s" "wake_ok s" "range_ok s" "cond_ok s" "asleep_at ch s q"
  shows "wake_at s' q"
  using assms
proof (induction rule: sw_step.induct)
  case (signal s p)
  then show ?case by (simp add: wake_at_def will_wake_here[of _ p 0])
next
  case (kick s p)
  then show ?case by (auto simp: wake_at_def waiting_def will_wake_def)
next
  case (wake_lock s p i)
  then show ?case by (intro wake_at_lock)
next
  case (wake_self s p i)
  show ?case
    by (rule wake_at_next[OF wake_self.prems(1,2), of p i]) (use wake_self.hyps in \<open>auto simp: waiting_def split: if_splits\<close>)
next
  case (wake_body s p i)
  have "sw_at s i = Sleep3 \<longrightarrow> i = p"
    using wake_okD[OF wake_body.prems(4) wake_body.hyps(1)] own_okD(2)[OF wake_body.prems(3), of i] by auto
  then show ?case
    by (intro wake_at_next[OF wake_body.prems(1,2), of p i])
      (use wake_body.hyps wake_body.prems(7) in \<open>auto simp: waiting_def asleep_at_def split: if_splits\<close>)
next
  case (wake_done s p)
  then show ?case using wake_at_done by (auto simp: wake_at_def waiting_def split: if_splits)
next
  case (lock p s)
  show ?case
    by (rule wake_at_same[OF lock.prems(1), of _ p Locked]) (use lock.hyps in \<open>auto simp: waiting_def split: if_splits\<close>)
next
  case (unlock s p)
  show ?case
    by (rule wake_at_same[OF unlock.prems(1), of _ p Free]) (use unlock.hyps in \<open>auto simp: waiting_def split: if_splits\<close>)
next
  case (sleep3 s p)
  show ?case
    by (rule wake_at_same[OF sleep3.prems(1), of _ p Asleep]) (use sleep3.hyps in \<open>auto simp: waiting_def split: if_splits\<close>)
next
  case (sched_release s p)
  show ?case
    by (rule wake_at_same[OF sched_release.prems(1), of _ p Asleep]) (use sched_release.hyps in \<open>auto simp: waiting_def split: if_splits\<close>)
next
  case (sched_pick s p)
  show ?case
    by (rule wake_at_same[OF sched_pick.prems(1), of _ p Woken]) (use sched_pick.hyps in \<open>auto simp: waiting_def split: if_splits\<close>)
next
  case (woken s p)
  show ?case
    by (rule wake_at_same[OF woken.prems(1), of _ p Relock]) (use woken.hyps in \<open>auto simp: waiting_def split: if_splits\<close>)
next
  case (relock s p)
  show ?case
    by (rule wake_at_same[OF relock.prems(1), of _ p Locked]) (use relock.hyps in \<open>auto simp: waiting_def split: if_splits\<close>)
qed (simp_all add: wake_at_def cond_ok_def)

definition sw_ok :: "chan \<Rightarrow> sw \<Rightarrow> bool" where
  "sw_ok ch s \<longleftrightarrow> lk_ok s \<and> own_ok s \<and> wake_ok s \<and> pl_ok s \<and> range_ok s \<and> cond_ok s \<and> (\<forall>q. asleep_at ch s q \<and> wake_at s q)"

lemma sw_okD:
  assumes "sw_ok ch s"
  shows "lk_ok s" "own_ok s" "wake_ok s" "pl_ok s" "range_ok s" "cond_ok s" "asleep_at ch s q" "wake_at s q"
  using assms by (simp_all add: sw_ok_def)

lemma sw_ok_start: "sw_start s \<Longrightarrow> sw_ok ch s"
  by (simp add: sw_start_def sw_ok_def lk_ok_def own_ok_def wake_ok_def pl_ok_def range_ok_def cond_ok_def asleep_at_def
      wake_at_def waiting_def)

lemma sw_ok_step:
  assumes st: "sw_step kl ch s s'" and ok: "sw_ok ch s"
  shows "sw_ok ch s'"
  unfolding sw_ok_def
  using lk_ok_step[OF st] own_ok_step[OF st] wake_ok_step[OF st] pl_ok_step[OF st] range_ok_step[OF st] cond_ok_step[OF st]
    asleep_at_step[OF st] wake_at_step[OF st] sw_okD[OF ok] by simp

lemma sw_ok_steps:
  assumes "sw_steps kl ch s s'" "sw_ok ch s"
  shows "sw_ok ch s'"
  using assms unfolding sw_steps_def by (induction rule: rtranclp_induct) (auto intro: sw_ok_step)

section \<open>Progress\<close>

text \<open>A continuation without \<open>kill\<close> that keeps the condition and loses no process on its way back from \<open>sleep\<close>.\<close>

definition past :: "place \<Rightarrow> bool" where
  "past pl \<longleftrightarrow> pl = Sleep3 \<or> pl = Asleep \<or> pl = Woken \<or> pl = Relock"

definition onward :: "chan \<Rightarrow> sw \<Rightarrow> sw \<Rightarrow> bool" where
  "onward ch s s' \<longleftrightarrow> sw_steps False ch s s' \<and> sw_cond s' = sw_cond s \<and> (\<forall>q. past (sw_at s q) \<longrightarrow> past (sw_at s' q))"

lemma onward_refl: "onward ch s s"
  by (simp add: onward_def sw_steps_def)

lemma onward_trans: "onward ch s s1 \<Longrightarrow> onward ch s1 s2 \<Longrightarrow> onward ch s s2"
  unfolding onward_def sw_steps_def by (metis rtranclp_trans)

lemma onward_step: "sw_step False ch s s' \<Longrightarrow> sw_cond s' = sw_cond s \<Longrightarrow> \<forall>q. past (sw_at s q) \<longrightarrow> past (sw_at s' q) \<Longrightarrow> onward ch s s'"
  by (auto simp: onward_def sw_steps_def)

lemma onward_ok: "onward ch s s' \<Longrightarrow> sw_ok ch s \<Longrightarrow> sw_ok ch s'"
  using sw_ok_steps by (auto simp: onward_def)

lemma release_sched:
  assumes "sw_ok ch s" "sw_pl s i = Some BySched"
  obtains s' where "onward ch s s'" "sw_pl s' i = None" "sw_at s' = sw_at s" "sw_lk s' = sw_lk s" "sw_state s' = sw_state s"
proof -
  have "sw_at s i = Asleep"
    using sw_okD(7)[OF assms(1), of i] assms(2) by (simp add: asleep_at_def)
  then have "onward ch s (s\<lparr>sw_pl := (sw_pl s)(i := None)\<rparr>)"
    using assms(2) by (intro onward_step sched_release) auto
  then show thesis
    by (rule that) auto
qed

text \<open>A process lock that a waker wants becomes free: its holder is the scheduler or a process in \<open>sleep\<close>.\<close>

lemma free_lock:
  assumes ok: "sw_ok ch s" and w: "sw_at s w = Wake i" "i \<noteq> w"
  obtains s' where "onward ch s s'" "sw_pl s' i = None" "sw_at s' w = Wake i"
proof (cases "sw_pl s i")
  case None
  with w(1) show thesis by (intro that[OF onward_refl])
next
  case (Some h)
  have lk: "sw_lk s = Some w"
    using lk_okD(4)[OF sw_okD(1)[OF ok] w(1)] .
  show thesis
  proof (cases h)
    case BySched
    with Some w(1) show thesis by (metis release_sched[OF ok] that)
  next
    case (ByProc r)
    then consider "sw_at s i = Sleep3" | "sw_at s i = Woken"
      using pl_okD[OF sw_okD(4)[OF ok], of i r] Some w lk lk_okD(3,5)[OF sw_okD(1)[OF ok], of r]
      by (cases "sw_at s i") auto
    then show thesis
    proof cases
      case 1
      let ?s = "s\<lparr>sw_chan := (sw_chan s)(i := ch), sw_state := (sw_state s)(i := SLEEPING),
        sw_pl := (sw_pl s)(i := Some BySched), sw_at := (sw_at s)(i := Asleep)\<rparr>"
      have on: "onward ch s ?s"
        using 1 by (intro onward_step sleep3) (auto simp: past_def)
      have at: "sw_at ?s w = Wake i" and pl: "sw_pl ?s i = Some BySched"
        using w by auto
      from release_sched[OF onward_ok[OF on ok] pl] obtain s2 where s2: "onward ch ?s s2" "sw_pl s2 i = None" "sw_at s2 = sw_at ?s"
        by blast
      show thesis
        by (rule that[OF onward_trans[OF on s2(1)] s2(2)]) (simp only: s2(3) at)
    next
      case 2
      show thesis
        by (rule that[OF onward_step[OF woken[OF 2]]]) (use w 2 in \<open>auto simp: past_def\<close>)
    qed
  qed
qed

lemma waker_body:
  assumes ok: "sw_ok ch s" and w: "sw_at s w = WakeIn i"
  obtains s' where "onward ch s s'" "sw_at s' w = Wake (Suc i)"
  by (rule that[OF onward_step[OF wake_body[OF w]]]) (use w in \<open>auto simp: past_def\<close>)

lemma waker_advances:
  assumes ok: "sw_ok ch s" and w: "sw_at s w = Wake i" "i < NPROC"
  obtains s' where "onward ch s s'" "sw_at s' w = Wake (Suc i)"
proof (cases "i = w")
  case True
  show thesis
    by (rule that[OF onward_step[OF wake_self[OF w True]]]) (use w in \<open>auto simp: past_def\<close>)
next
  case False
  obtain s1 where s1: "onward ch s s1" "sw_pl s1 i = None" "sw_at s1 w = Wake i"
    using free_lock[OF ok w(1) False] .
  let ?s = "s1\<lparr>sw_pl := (sw_pl s1)(i := Some (ByProc w)), sw_at := (sw_at s1)(w := WakeIn i)\<rparr>"
  have on: "onward ch s1 ?s"
    using s1 by (intro onward_step wake_lock w False) (auto simp: past_def)
  from waker_body[of ch ?s w i] onward_ok[OF on onward_ok[OF s1(1) ok]]
  obtain s2 where "onward ch ?s s2" "sw_at s2 w = Wake (Suc i)"
    by auto
  then show thesis
    using that onward_trans[OF s1(1) onward_trans[OF on]] by blast
qed

lemma waker_finishes:
  assumes "sw_ok ch s" "sw_at s w = Wake i" "i \<le> NPROC"
  shows "\<exists>s'. onward ch s s' \<and> sw_lk s' = None"
  using assms
proof (induction "NPROC - i" arbitrary: s i)
  case 0
  then have "sw_at s w = Wake NPROC" by simp
  then have "onward ch s (s\<lparr>sw_lk := None, sw_at := (sw_at s)(w := Free)\<rparr>)"
    by (intro onward_step wake_done) (auto simp: past_def)
  then show ?case by (intro exI[of _ "s\<lparr>sw_lk := None, sw_at := (sw_at s)(w := Free)\<rparr>"]) simp
next
  case (Suc k)
  then have i: "i < NPROC" by simp
  obtain s1 where s1: "onward ch s s1" "sw_at s1 w = Wake (Suc i)"
    using waker_advances[OF Suc.prems(1,2) i] .
  have "\<exists>s'. onward ch s1 s' \<and> sw_lk s' = None"
    using Suc.hyps(2) i s1(2) onward_ok[OF s1(1) Suc.prems(1)] by (intro Suc.hyps(1)[of "Suc i"]) auto
  then show ?case
    using onward_trans[OF s1(1)] by blast
qed

lemma wakers_finish:
  assumes ok: "sw_ok ch s" and w: "will_wake s p"
  obtains s' where "onward ch s s'" "sw_lk s' = None"
proof -
  obtain w i where "sw_at s w = Wake i \<or> sw_at s w = WakeIn i"
    using w by (auto simp: will_wake_def)
  then consider "sw_at s w = Wake i" | "sw_at s w = WakeIn i" by blast
  then show thesis
  proof cases
    case 1
    moreover have "i \<le> NPROC"
      using 1 sw_okD(5)[OF ok] by (auto simp: range_ok_def)
    ultimately show thesis
      using waker_finishes[OF ok] that by blast
  next
    case 2
    then have "Suc i \<le> NPROC"
      using sw_okD(5)[OF ok] by (auto simp: range_ok_def Suc_le_eq)
    moreover obtain s1 where "onward ch s s1" "sw_at s1 w = Wake (Suc i)"
      using waker_body[OF ok 2] .
    ultimately show thesis
      using waker_finishes onward_ok[OF _ ok] onward_trans that by metis
  qed
qed

text \<open>Once the lock is free, a process that no longer waits comes back with it.\<close>

lemma sleeper_relocks:
  assumes "sw_at s p = Relock" "sw_lk s = None"
  shows "\<exists>s'. sw_steps False ch s s' \<and> sw_at s' p = Locked \<and> sw_cond s' = sw_cond s"
  using relock[OF assms, of False ch]
  by (intro exI[of _ "s\<lparr>sw_lk := Some p, sw_at := (sw_at s)(p := Locked)\<rparr>"]) (simp add: sw_steps_def)

lemma sleeper_woken:
  assumes "sw_at s p = Woken" "sw_lk s = None"
  shows "\<exists>s'. sw_steps False ch s s' \<and> sw_at s' p = Locked \<and> sw_cond s' = sw_cond s"
proof -
  let ?s = "s\<lparr>sw_chan := (sw_chan s)(p := ChanNull), sw_pl := (sw_pl s)(p := None), sw_at := (sw_at s)(p := Relock)\<rparr>"
  obtain s' where "sw_steps False ch ?s s'" "sw_at s' p = Locked" "sw_cond s' = sw_cond s"
    using sleeper_relocks[of ?s p ch] assms by auto
  then show ?thesis
    using woken[OF assms(1), of False ch] unfolding sw_steps_def by (metis converse_rtranclp_into_rtranclp)
qed

lemma sleeper_picked:
  assumes "sw_at s p = Asleep" "sw_state s p = RUNNABLE" "sw_pl s p = None" "sw_lk s = None"
  shows "\<exists>s'. sw_steps False ch s s' \<and> sw_at s' p = Locked \<and> sw_cond s' = sw_cond s"
proof -
  let ?s = "s\<lparr>sw_state := (sw_state s)(p := RUNNING), sw_pl := (sw_pl s)(p := Some (ByProc p)), sw_at := (sw_at s)(p := Woken)\<rparr>"
  obtain s' where "sw_steps False ch ?s s'" "sw_at s' p = Locked" "sw_cond s' = sw_cond s"
    using sleeper_woken[of ?s p ch] assms by auto
  then show ?thesis
    using sched_pick[OF assms(1,3,2), of False ch] unfolding sw_steps_def by (metis converse_rtranclp_into_rtranclp)
qed

lemma sleeper_returns:
  assumes ok: "sw_ok ch s" and p: "past (sw_at s p)" "\<not> waiting s p" and lk: "sw_lk s = None"
  shows "\<exists>s'. sw_steps False ch s s' \<and> sw_at s' p = Locked \<and> sw_cond s' = sw_cond s"
proof -
  have "sw_at s p \<noteq> Sleep3" and "sw_at s p = Asleep \<Longrightarrow> sw_state s p = RUNNABLE"
    using p(2) sw_okD(7)[OF ok, of p] by (auto simp: waiting_def asleep_at_def)
  then consider "sw_at s p = Asleep" "sw_state s p = RUNNABLE" | "sw_at s p = Woken" | "sw_at s p = Relock"
    using p(1) unfolding past_def by blast
  then show ?thesis
  proof cases
    case 1
    have "sw_pl s p \<noteq> Some (ByProc r)" for r
      using pl_okD[OF sw_okD(4)[OF ok], of p r] 1 lk lk_okD(5)[OF sw_okD(1)[OF ok], of r p] by auto
    then have "sw_pl s p = None \<or> sw_pl s p = Some BySched"
      by (metis holder.exhaust option.exhaust)
    then show ?thesis
    proof
      assume "sw_pl s p = Some BySched"
      then obtain s1 where s1: "onward ch s s1" "sw_pl s1 p = None" "sw_at s1 = sw_at s" "sw_lk s1 = sw_lk s" "sw_state s1 = sw_state s"
        using release_sched[OF ok] by blast
      then obtain s2 where "sw_steps False ch s1 s2" "sw_at s2 p = Locked" "sw_cond s2 = sw_cond s1"
        using sleeper_picked[of s1 p ch] 1 lk by auto
      with s1(1) show ?thesis
        unfolding onward_def sw_steps_def by (metis rtranclp_trans)
    qed (use sleeper_picked 1 lk in blast)
  qed (use sleeper_woken sleeper_relocks lk in blast)+
qed

lemma waiter_returns:
  assumes ok: "sw_ok ch s" and c: "sw_cond s" and p: "waiting s p"
  shows "\<exists>s'. sw_steps False ch s s' \<and> sw_at s' p = Locked \<and> sw_cond s'"
proof -
  have "will_wake s p"
    using sw_okD(8)[OF ok, of p] c p by (simp add: wake_at_def)
  then obtain s1 where s1: "onward ch s s1" "sw_lk s1 = None"
    using wakers_finish[OF ok] by blast
  then have ok1: "sw_ok ch s1" and c1: "sw_cond s1" and past1: "past (sw_at s1 p)"
    using onward_ok[OF _ ok] c p by (auto simp: onward_def past_def waiting_def)
  have "\<not> will_wake s1 p"
    using s1(2) lk_okD(4,5)[OF sw_okD(1)[OF ok1]] by (fastforce simp: will_wake_def)
  then have "\<not> waiting s1 p"
    using sw_okD(8)[OF ok1, of p] c1 by (simp add: wake_at_def)
  then obtain s2 where "sw_steps False ch s1 s2" "sw_at s2 p = Locked" "sw_cond s2"
    using sleeper_returns[OF ok1 past1 _ s1(2)] c1 by auto
  with s1(1) show ?thesis
    unfolding onward_def sw_steps_def by (metis rtranclp_trans)
qed

section \<open>Properties\<close>

text \<open>
  C10: no wakeup is lost.  Processes wait for a condition with \<open>while(!cond) sleep(chan, lk)\<close> and make it true
  with \<open>wakeup(chan)\<close>, both under \<open>lk\<close>, on any number of CPUs and interleaved at every lock operation.  Whenever
  the condition is true and a process is on its way to sleep or asleep, some process is inside \<open>wakeup\<close> and has
  not yet passed it.
\<close>

theorem no_lost_wakeup:
  assumes "sw_start s0" "sw_steps True ch s0 s" "sw_cond s" "waiting s p"
  shows "\<exists>w i. i \<le> p \<and> (sw_at s w = Wake i \<or> sw_at s w = WakeIn i)"
  using sw_okD(8)[OF sw_ok_steps[OF assms(2) sw_ok_start[OF assms(1)]], of p] assms(3,4)
  by (simp add: wake_at_def will_wake_def)

definition ex_start :: sw where
  "ex_start = \<lparr>sw_lk = None, sw_pl = \<lambda>_. None, sw_state = \<lambda>_. RUNNING, sw_chan = \<lambda>_. ChanNull, sw_cond = False, sw_at = \<lambda>_. Free\<rparr>"

definition ex_slept :: sw where
  "ex_slept = ex_start\<lparr>sw_state := (\<lambda>_. RUNNING)(2 := SLEEPING), sw_pl := (\<lambda>_. None)(2 := Some BySched), sw_at := (\<lambda>_. Free)(2 := Asleep)\<rparr>"

definition ex_signalled :: sw where
  "ex_signalled = ex_slept\<lparr>sw_lk := Some 3, sw_cond := True, sw_at := (\<lambda>_. Free)(2 := Asleep, 3 := Wake 0)\<rparr>"

lemma ex_sleep: "sw_steps True ChanNull ex_start ex_slept"
proof -
  let ?a = "ex_start\<lparr>sw_lk := Some 2, sw_at := (sw_at ex_start)(2 := Locked)\<rparr>"
  let ?b = "?a\<lparr>sw_at := (sw_at ?a)(2 := Sleep1)\<rparr>"
  let ?c = "?b\<lparr>sw_pl := (sw_pl ?b)(2 := Some (ByProc 2)), sw_at := (sw_at ?b)(2 := Sleep2)\<rparr>"
  let ?d = "?c\<lparr>sw_lk := None, sw_at := (sw_at ?c)(2 := Sleep3)\<rparr>"
  let ?e = "?d\<lparr>sw_chan := (sw_chan ?d)(2 := ChanNull), sw_state := (sw_state ?d)(2 := SLEEPING),
      sw_pl := (sw_pl ?d)(2 := Some BySched), sw_at := (sw_at ?d)(2 := Asleep)\<rparr>"
  have a: "sw_step True ChanNull ex_start ?a"
    by (rule lock) (simp_all add: ex_start_def NPROC_def)
  have b: "sw_step True ChanNull ?a ?b"
    by (rule sleep0) (simp_all add: ex_start_def)
  have c: "sw_step True ChanNull ?b ?c"
    by (rule sleep1) (simp_all add: ex_start_def)
  have d: "sw_step True ChanNull ?c ?d"
    by (rule sleep2) simp
  have e: "sw_step True ChanNull ?d ?e"
    by (rule sleep3) simp
  have eq: "?e = ex_slept"
    by (simp add: ex_slept_def ex_start_def fun_eq_iff)
  show ?thesis
    using sw_steps_step[OF sw_steps_step[OF sw_steps_step[OF sw_steps_step[OF sw_steps_step[OF sw_steps_refl a] b] c] d] e]
    by (simp only: eq)
qed

lemma ex_signal: "sw_steps True ChanNull ex_start ex_signalled"
proof -
  let ?a = "ex_slept\<lparr>sw_lk := Some 3, sw_at := (sw_at ex_slept)(3 := Locked)\<rparr>"
  let ?b = "?a\<lparr>sw_cond := True, sw_at := (sw_at ?a)(3 := Wake 0)\<rparr>"
  have a: "sw_step True ChanNull ex_slept ?a"
    by (rule lock) (simp_all add: ex_slept_def ex_start_def NPROC_def)
  have b: "sw_step True ChanNull ?a ?b"
    by (rule signal) simp
  have eq: "?b = ex_signalled"
    by (simp add: ex_signalled_def ex_slept_def ex_start_def fun_eq_iff)
  show ?thesis
    using sw_steps_step[OF sw_steps_step[OF ex_sleep a] b] by (simp only: eq)
qed

theorem no_lost_wakeup_witness:
  "sw_start ex_start \<and> sw_steps True ChanNull ex_start ex_signalled \<and> sw_cond ex_signalled \<and> waiting ex_signalled 2 \<and>
   (\<exists>w i. i \<le> 2 \<and> (sw_at ex_signalled w = Wake i \<or> sw_at ex_signalled w = WakeIn i))"
proof -
  have a: "sw_start ex_start" "sw_cond ex_signalled" "waiting ex_signalled 2"
    by (simp_all add: sw_start_def ex_start_def ex_signalled_def ex_slept_def waiting_def)
  show ?thesis
    using no_lost_wakeup[OF a(1) ex_signal a(2,3)] a ex_signal by simp
qed

text \<open>
  C16: \<open>wakeup\<close> brings a sleeper back.  From every reachable state in which the condition is true and a process
  waits for it, there is a continuation in which it returns from \<open>sleep\<close> with \<open>lk\<close> held and the condition still
  true.  The reachable states include those after a \<open>kill\<close>; the continuation has no \<open>kill\<close>, so it is the waker that
  makes the process runnable, and the locks of \<open>sleep\<close>, \<open>wakeup\<close> and the scheduler never block each other for good.
\<close>

theorem waiter_comes_back:
  assumes "sw_start s0" "sw_steps True ch s0 s" "sw_cond s" "waiting s p"
  shows "\<exists>s'. sw_steps False ch s s' \<and> sw_at s' p = Locked \<and> sw_lk s' = Some p \<and> sw_cond s'"
proof -
  have ok: "sw_ok ch s"
    using sw_ok_steps[OF assms(2) sw_ok_start[OF assms(1)]] .
  then obtain s' where "sw_steps False ch s s'" "sw_at s' p = Locked" "sw_cond s'"
    using waiter_returns assms(3,4) by blast
  then show ?thesis
    using lk_okD(1)[OF sw_okD(1)[OF sw_ok_steps[OF _ ok]]] by blast
qed

theorem waiter_comes_back_witness:
  "sw_start ex_start \<and> sw_steps True ChanNull ex_start ex_signalled \<and> sw_cond ex_signalled \<and> waiting ex_signalled 2 \<and>
   (\<exists>s'. sw_steps False ChanNull ex_signalled s' \<and> sw_at s' 2 = Locked \<and> sw_lk s' = Some 2 \<and> sw_cond s')"
proof -
  have a: "sw_start ex_start" "sw_cond ex_signalled" "waiting ex_signalled 2"
    by (simp_all add: sw_start_def ex_start_def ex_signalled_def ex_slept_def waiting_def)
  show ?thesis
    using waiter_comes_back[OF a(1) ex_signal a(2,3)] a ex_signal by simp
qed

lemma push_off_nested:
  assumes "\<not> cpu_intr_get s c" "c_noff (cpus s c) \<noteq> 0"
  shows "push_off s c = s\<lparr>cpus := (cpus s)(c := (cpus s c)\<lparr>c_noff := c_noff (cpus s c) + 1\<rparr>)\<rparr>"
proof -
  have "c_sstatus (cpus s c) AND SIE = 0"
    using assms(1) by (simp add: cpu_intr_get_def)
  then have st: "c_sstatus (cpus s c) AND NOT SIE = c_sstatus (cpus s c)"
    by (auto simp: SIE_def bit_eq_iff bit_simps)
  have "(cpus s c)\<lparr>c_sstatus := c_sstatus (cpus s c)\<rparr> = cpus s c"
    by simp
  then show ?thesis
    using assms(2) by (simp add: push_off_def cpu_intr_off_def upd_cpu_def st)
qed

lemma acquire_free:
  assumes "\<not> lk_locked (locks s l)" "\<not> cpu_intr_get s c" "c_noff (cpus s c) \<noteq> 0"
  shows "acquire s c l = Ret (s\<lparr>cpus := (cpus s)(c := (cpus s c)\<lparr>c_noff := c_noff (cpus s c) + 1\<rparr>),
    locks := (locks s)(l := (locks s l)\<lparr>lk_locked := True, lk_cpu := Some c\<rparr>)\<rparr>)"
  using assms(1)
  by (simp add: acquire_def acquire_enter_def push_off_nested[OF assms(2,3)] holding_def test_and_set_def acquire_own_def
      upd_lock_def)

lemma release_held:
  assumes "holding s c l" "\<not> cpu_intr_get s c" "1 < c_noff (cpus s c)"
  shows "release s c l = Ret (s\<lparr>locks := (locks s)(l := (locks s l)\<lparr>lk_cpu := None, lk_locked := False\<rparr>),
    cpus := (cpus s)(c := (cpus s c)\<lparr>c_noff := c_noff (cpus s c) - 1\<rparr>)\<rparr>)"
proof -
  have i: "\<not> cpu_intr_get (lock_release (upd_lock s l (\<lambda>k. k\<lparr>lk_cpu := None\<rparr>)) l) c"
    using assms(2) by (simp add: cpu_intr_get_def lock_release_def upd_lock_def)
  show ?thesis
    using assms(1,3) i by (simp add: release_def release_enter_def pop_off_def Let_def) (simp add: lock_release_def upd_cpu_def upd_lock_def)
qed

text \<open>
  C28: \<open>sleep\<close> with one lock held reaches the switch with the process lock as the only lock and with the number
  of \<open>push_off\<close>s and \<open>intena\<close> as they were.  With any further spinlock held, or interrupts pushed off by hand, it panics.
\<close>

theorem sleep_one_lock:
  assumes "holding s c lk" "l \<noteq> lk" "\<not> lk_locked (locks s l)" "\<not> cpu_intr_get s c" "1 \<le> c_noff (cpus s c)"
  shows "sleep_switch s c l lk =
    (if c_noff (cpus s c) = 1
     then Ret (s\<lparr>locks := (locks s)(l := (locks s l)\<lparr>lk_locked := True, lk_cpu := Some c\<rparr>, lk := (locks s lk)\<lparr>lk_cpu := None, lk_locked := False\<rparr>)\<rparr>)
     else Panic ''sched locks'')"
proof -
  let ?k = "(cpus s)(c := (cpus s c)\<lparr>c_noff := c_noff (cpus s c) + 1\<rparr>)"
  let ?l = "(locks s)(l := (locks s l)\<lparr>lk_locked := True, lk_cpu := Some c\<rparr>)"
  have a: "acquire s c l = Ret (s\<lparr>cpus := ?k, locks := ?l\<rparr>)"
    using assms(3,4,5) by (intro acquire_free) auto
  have r: "release (s\<lparr>cpus := ?k, locks := ?l\<rparr>) c lk = Ret (s\<lparr>locks := ?l(lk := (locks s lk)\<lparr>lk_cpu := None, lk_locked := False\<rparr>)\<rparr>)"
    using assms by (subst release_held) (cases s; auto simp: holding_def cpu_intr_get_def)+
  show ?thesis
    using assms by (simp add: sleep_switch_def a r sched_def holding_def cpu_intr_get_def)
qed

definition ex_smp :: smp where
  "ex_smp = \<lparr>cpus = \<lambda>_. \<lparr>c_sstatus = 0, c_noff = 1, c_intena = True\<rparr>,
     locks = (\<lambda>_. \<lparr>lk_locked = False, lk_name = ''proc'', lk_cpu = None\<rparr>)(2 := \<lparr>lk_locked = True, lk_name = ''pipe'', lk_cpu = Some 0\<rparr>)\<rparr>"

theorem sleep_one_lock_witness:
  "holding ex_smp 0 2 \<and> \<not> lk_locked (locks ex_smp 3) \<and> \<not> cpu_intr_get ex_smp 0 \<and> 1 \<le> c_noff (cpus ex_smp 0) \<and>
   sleep_switch ex_smp 0 3 2 = Ret (ex_smp\<lparr>locks := (\<lambda>_. \<lparr>lk_locked = False, lk_name = ''proc'', lk_cpu = None\<rparr>)
     (3 := \<lparr>lk_locked = True, lk_name = ''proc'', lk_cpu = Some 0\<rparr>, 2 := \<lparr>lk_locked = False, lk_name = ''pipe'', lk_cpu = None\<rparr>)\<rparr>)"
proof -
  have a: "holding ex_smp 0 2" "(3::nat) \<noteq> 2" "\<not> lk_locked (locks ex_smp 3)" "\<not> cpu_intr_get ex_smp 0" "1 \<le> c_noff (cpus ex_smp 0)"
    by (simp_all add: ex_smp_def holding_def cpu_intr_get_def)
  show ?thesis
    using a sleep_one_lock[OF a] by (simp add: ex_smp_def fun_eq_iff)
qed

end
