(* ===== verification/Grep.thy ===== *)
theory Grep
  imports Ulib
begin

text \<open>
  \<^verbatim>\<open>user/grep.c\<close>: the matcher for patterns with the operators \<^verbatim>\<open>^ . * $\<close>, and the loop that reads a file in pieces
  into a buffer of 1024 bytes and writes the lines that match.  The matcher is compared with the languages the
  operators denote, the loop with the list of the file's lines.
\<close>

section \<open>The matcher\<close>

text \<open>\<open>re[1]\<close> of a pattern of one character is its NUL.\<close>

fun matchhere :: "string \<Rightarrow> string \<Rightarrow> bool" and matchstar :: "char \<Rightarrow> string \<Rightarrow> string \<Rightarrow> bool" where
  "matchhere [] tx = True"
| "matchhere (c # re) tx =
     (if re \<noteq> [] \<and> hd re = CHR ''*'' then matchstar c (tl re) tx
      else if c = CHR ''$'' \<and> re = [] then tx = []
      else if tx \<noteq> [] \<and> (c = CHR ''.'' \<or> c = hd tx) then matchhere re (tl tx)
      else False)"
| "matchstar c re tx =
     (if matchhere re tx then True
      else if tx \<noteq> [] \<and> (hd tx = c \<or> c = CHR ''.'') then matchstar c re (tl tx)
      else False)"

fun match_any :: "string \<Rightarrow> string \<Rightarrow> bool" where
  "match_any re tx = (if matchhere re tx then True else if tx \<noteq> [] then match_any re (tl tx) else False)"

definition match :: "string \<Rightarrow> string \<Rightarrow> bool" where
  "match re tx = (if re \<noteq> [] \<and> hd re = CHR ''^'' then matchhere (tl re) tx else match_any re tx)"

declare matchhere.simps(2) [simp del] matchstar.simps [simp del] match_any.simps [simp del]

section \<open>What a pattern denotes\<close>

datatype item = One char | Many char

definition fits :: "char \<Rightarrow> char \<Rightarrow> bool" where
  "fits c x \<longleftrightarrow> c = CHR ''.'' \<or> c = x"

fun items :: "string \<Rightarrow> item list" where
  "items [] = []"
| "items [c] = (if c = CHR ''$'' then [] else [One c])"
| "items (c # d # re) = (if d = CHR ''*'' then Many c # items re else One c # items (d # re))"

fun to_end :: "string \<Rightarrow> bool" where
  "to_end [] = False"
| "to_end [c] = (c = CHR ''$'')"
| "to_end (c # d # re) = (if d = CHR ''*'' then to_end re else to_end (d # re))"

fun lang :: "item list \<Rightarrow> string set" where
  "lang [] = {[]}"
| "lang (One c # is) = {x # u |x u. fits c x \<and> u \<in> lang is}"
| "lang (Many c # is) = {w @ u |w u. (\<forall>x\<in>set w. fits c x) \<and> u \<in> lang is}"

text \<open>\<open>u\<close>, at a place where \<open>v\<close> follows, is a match of the pattern.\<close>

definition denotes :: "string \<Rightarrow> string \<Rightarrow> string \<Rightarrow> bool" where
  "denotes re u v \<longleftrightarrow> u \<in> lang (items re) \<and> (to_end re \<longrightarrow> v = [])"

lemma many_split:
  "(\<exists>w u v. tx = w @ u @ v \<and> (\<forall>x\<in>set w. fits c x) \<and> P u v) \<longleftrightarrow>
   (\<exists>u v. tx = u @ v \<and> P u v) \<or> (tx \<noteq> [] \<and> fits c (hd tx) \<and> (\<exists>w u v. tl tx = w @ u @ v \<and> (\<forall>x\<in>set w. fits c x) \<and> P u v))"
  (is "?l \<longleftrightarrow> ?a \<or> ?b")
proof
  assume ?l
  then obtain w u v where *: "tx = w @ u @ v" "\<forall>x\<in>set w. fits c x" "P u v" by blast
  show "?a \<or> ?b"
  proof (cases w)
    case Nil
    with * show ?thesis by auto
  next
    case (Cons x w')
    with * have "tl tx = w' @ u @ v" "tx \<noteq> []" "fits c (hd tx)" "\<forall>x\<in>set w'. fits c x" by auto
    with *(3) show ?thesis by blast
  qed
next
  assume "?a \<or> ?b"
  then show ?l
  proof
    assume ?a
    then show ?l by (metis append_Nil empty_iff empty_set)
  next
    assume ?b
    then obtain w u v where *: "tl tx = w @ u @ v" "tx \<noteq> []" "fits c (hd tx)" "\<forall>x\<in>set w. fits c x" "P u v" by blast
    then have "tx = (hd tx # w) @ u @ v" "\<forall>x\<in>set (hd tx # w). fits c x" by (cases tx; simp)+
    with *(5) show ?l by blast
  qed
qed

lemma one_split:
  "(\<exists>u v. x # t = u @ v \<and> u \<in> lang (One c # is) \<and> P v) \<longleftrightarrow> fits c x \<and> (\<exists>u v. t = u @ v \<and> u \<in> lang is \<and> P v)" (is "?l \<longleftrightarrow> ?r")
proof
  assume ?l
  then show ?r by (auto simp: Cons_eq_append_conv)
next
  assume ?r
  then obtain u v where "fits c x" "t = u @ v" "u \<in> lang is" "P v" by blast
  then have "x # t = (x # u) @ v \<and> x # u \<in> lang (One c # is) \<and> P v" by simp
  then show ?l by blast
qed

lemma many_lang:
  "(\<exists>u v. t = u @ v \<and> u \<in> lang (Many c # is) \<and> P v) \<longleftrightarrow> (\<exists>w u v. t = w @ u @ v \<and> (\<forall>x\<in>set w. fits c x) \<and> u \<in> lang is \<and> P v)"
  (is "?l \<longleftrightarrow> ?r")
proof
  assume ?l
  then obtain w u v where "t = w @ u @ v" "\<forall>x\<in>set w. fits c x" "u \<in> lang is" "P v" by auto
  then show ?r by blast
next
  assume ?r
  then obtain w u v where "t = (w @ u) @ v" "\<forall>x\<in>set w. fits c x" "u \<in> lang is" "P v" by auto
  then have "t = (w @ u) @ v \<and> w @ u \<in> lang (Many c # is) \<and> P v" by auto
  then show ?l by blast
qed

lemma matchhere_denotes: "matchhere re tx \<longleftrightarrow> (\<exists>u v. tx = u @ v \<and> denotes re u v)"
  and matchstar_denotes: "matchstar c re tx \<longleftrightarrow> (\<exists>w u v. tx = w @ u @ v \<and> (\<forall>x\<in>set w. fits c x) \<and> denotes re u v)"
proof (induction re tx and c re tx rule: matchhere_matchstar.induct)
  case (1 tx)
  then show ?case by (simp add: denotes_def)
next
  case (2 c re tx)
  show ?case
  proof (cases re)
    case Nil
    with 2 show ?thesis
      using one_split[of "hd tx" "tl tx" c "[]" "\<lambda>_. True"]
      by (cases tx) (auto simp: matchhere.simps(2) denotes_def fits_def)
  next
    case (Cons d re')
    show ?thesis
    proof (cases "d = CHR ''*''")
      case True
      then show ?thesis
        using 2(1) Cons many_lang[of tx c "items re'" "\<lambda>v. to_end re' \<longrightarrow> v = []"] by (simp add: matchhere.simps(2) denotes_def)
    next
      case False
      then show ?thesis
        using 2(2) Cons one_split[of "hd tx" "tl tx" c "items re" "\<lambda>v. to_end re \<longrightarrow> v = []"]
        by (cases tx) (simp_all add: matchhere.simps(2) denotes_def fits_def)
    qed
  qed
next
  case (3 c re tx)
  show ?case
    unfolding many_split[of tx c] using 3 by (subst matchstar.simps) (auto simp: fits_def)
qed

lemma match_any_denotes: "match_any re tx \<longleftrightarrow> (\<exists>p u v. tx = p @ u @ v \<and> denotes re u v)"
proof (induction re tx rule: match_any.induct)
  case (1 re tx)
  have "(\<exists>p u v. tx = p @ u @ v \<and> denotes re u v) \<longleftrightarrow>
    (\<exists>u v. tx = u @ v \<and> denotes re u v) \<or> (tx \<noteq> [] \<and> (\<exists>p u v. tl tx = p @ u @ v \<and> denotes re u v))"
    using many_split[of tx "CHR ''.''" "denotes re"] by (simp add: fits_def)
  then show ?case
    using 1 by (subst match_any.simps) (auto simp: matchhere_denotes)
qed

section \<open>Lines\<close>

definition BUFSZ :: nat where "BUFSZ = 1024"

text \<open>
  The inner loop: \<open>p\<close> is the part of the buffer not yet looked at.  It gives what is written and what stays
  behind the last newline.  The \<open>while\<close> ends because the part gets shorter.
\<close>

function grep_scan :: "string \<Rightarrow> string \<Rightarrow> string \<times> string" where
  "grep_scan pattern p =
     (case strchr p NL of None \<Rightarrow> ([], p)
      | Some q \<Rightarrow> (let (out, rest) = grep_scan pattern (drop (q + 1) p) in
          ((if match pattern (take q p) then take (q + 1) p else []) @ out, rest)))"
  by pat_completeness auto
termination
  by (relation "measure (\<lambda>(pattern, p). length p)") (auto dest: strchr_Some)

declare grep_scan.simps [simp del]

text \<open>\<open>grep\<close>: \<open>b\<close> is the part of \<open>buf\<close> in use, so \<open>m\<close> is its length.\<close>

function grep :: "string \<Rightarrow> nat list \<Rightarrow> string \<Rightarrow> string \<Rightarrow> string" where
  "grep pattern hs b inp =
     (let c = uread hs (BUFSZ - length b - 1) inp in
      if c = [] then []
      else let (out, b') = grep_scan pattern (b @ c) in
           out @ grep pattern (tl hs) b' (drop (length c) inp))"
  by pat_completeness auto
termination
  by (relation "measure (\<lambda>(pattern, hs, b, inp). length inp)") (auto dest: uread_shrinks)

declare grep.simps [simp del]

text \<open>
  \<open>main\<close>: \<open>files\<close> is \<open>open\<close> followed by what there is to read, \<open>inp\<close> the standard input.  The result is what is
  written to the standard output and the exit status.
\<close>

fun grep_files :: "(string \<Rightarrow> string option) \<Rightarrow> string \<Rightarrow> string list \<Rightarrow> string \<times> int" where
  "grep_files files pattern [] = ([], 0)"
| "grep_files files pattern (f # fs) =
     (case files f of None \<Rightarrow> (''grep: cannot open '' @ f @ [NL], 1)
      | Some d \<Rightarrow> (let (out, st) = grep_files files pattern fs in (grep pattern [] [] d @ out, st)))"

definition grep_main :: "(string \<Rightarrow> string option) \<Rightarrow> nat list \<Rightarrow> string \<Rightarrow> string list \<Rightarrow> string \<times> int" where
  "grep_main files hs inp argv =
     (if length argv \<le> 1 then ([], 1)
      else if length argv \<le> 2 then (grep (argv ! 1) hs [] inp, 0)
      else grep_files files (argv ! 1) (drop 2 argv))"

section \<open>Any pieces give the same lines\<close>

definition unlines :: "string list \<Rightarrow> string" where
  "unlines ls = concat (map (\<lambda>l. l @ [NL]) ls)"

lemma unlines_simps [simp]: "unlines [] = []" "unlines (l # ls) = l @ NL # unlines ls" "unlines (ls @ ls') = unlines ls @ unlines ls'"
  by (simp_all add: unlines_def)

definition clean :: "string \<Rightarrow> bool" where
  "clean s \<longleftrightarrow> NL \<notin> set s \<and> NUL \<notin> set s"

lemma NL_NUL [simp]: "NL \<noteq> NUL" "NUL \<noteq> NL"
  by (simp_all add: NL_def NUL_def)

lemma scan_none: "clean s \<Longrightarrow> grep_scan pattern s = ([], s)"
  by (subst grep_scan.simps) (simp add: clean_def strchr_None[THEN iffD2])

lemma scan_line: "clean l \<Longrightarrow> grep_scan pattern (l @ NL # s) =
  (let (out, r) = grep_scan pattern s in ((if match pattern l then l @ [NL] else []) @ out, r))"
  by (subst grep_scan.simps) (simp add: clean_def strchr_append)

text \<open>A newline in the first part ends the first line there.\<close>

lemma line_split:
  assumes "s @ t = l @ NL # r" "clean l"
  shows "clean s \<and> length s \<le> length l \<or> (\<exists>s'. s = l @ NL # s' \<and> s' @ t = r)"
  using assms unfolding append_eq_append_conv2 by (auto simp: clean_def append_eq_Cons_conv)

lemma grep_scan_lines:
  assumes "s @ t = unlines ls @ rest" "\<forall>l\<in>set ls. clean l" "clean rest"
  shows "\<exists>ls1 ls2 r. ls = ls1 @ ls2 \<and> clean r \<and> r @ t = unlines ls2 @ rest \<and>
    grep_scan pattern s = (unlines (filter (match pattern) ls1), r)"
  using assms(1,2)
proof (induction ls arbitrary: s)
  case Nil
  then have "rest = s @ t" by simp
  then have "clean s"
    using assms(3) by (simp add: clean_def)
  then show ?case
    using Nil by (auto simp: scan_none)
next
  case (Cons l ls)
  then consider "clean s" | s' where "s = l @ NL # s'" "s' @ t = unlines ls @ rest"
    using line_split[of s t l "unlines ls @ rest"] by auto
  then show ?case
  proof cases
    case 1
    then have "l # ls = [] @ (l # ls) \<and> clean s \<and> s @ t = unlines (l # ls) @ rest \<and> grep_scan pattern s = (unlines (filter (match pattern) []), s)"
      using Cons.prems(1) by (simp add: scan_none)
    then show ?thesis by blast
  next
    case 2
    obtain ls1 ls2 r where *: "ls = ls1 @ ls2" "clean r" "r @ t = unlines ls2 @ rest"
      "grep_scan pattern s' = (unlines (filter (match pattern) ls1), r)"
      using Cons.IH[OF 2(2)] Cons.prems(2) by auto
    then have "l # ls = (l # ls1) @ ls2 \<and> clean r \<and> r @ t = unlines ls2 @ rest \<and>
        grep_scan pattern s = (unlines (filter (match pattern) (l # ls1)), r)"
      using 2(1) Cons.prems(2) by (simp add: scan_line)
    then show ?thesis by blast
  qed
qed

lemma grep_lines_gen:
  assumes "b @ inp = unlines ls @ rest" "clean b" "\<forall>l\<in>set ls. clean l \<and> length l < BUFSZ - 1" "clean rest"
  shows "grep pattern hs b inp = unlines (filter (match pattern) ls)"
  using assms(1-3)
proof (induction pattern hs b inp arbitrary: ls rule: grep.induct)
  case (1 pattern hs b inp)
  let ?c = "uread hs (BUFSZ - length b - 1) inp"
  show ?case
  proof (cases "?c = []")
    case True
    have "ls = []"
    proof (rule ccontr)
      assume "ls \<noteq> []"
      then obtain l ls' where ls: "ls = l # ls'" by (cases ls) auto
      with "1.prems" have "clean b \<and> length b \<le> length l \<and> length l < BUFSZ - 1" "NL \<in> set (b @ inp)"
        using line_split[of b inp l "unlines ls' @ rest"] by (auto simp: clean_def)
      with True show False
        by (auto simp: uread_empty clean_def)
    qed
    then show ?thesis
      using True by (subst grep.simps) simp
  next
    case False
    obtain ls1 ls2 r where *: "ls = ls1 @ ls2" "clean r" "r @ drop (length ?c) inp = unlines ls2 @ rest"
      "grep_scan pattern (b @ ?c) = (unlines (filter (match pattern) ls1), r)"
      using grep_scan_lines[of "b @ ?c" "drop (length ?c) inp" ls rest pattern] "1.prems" assms(4)
      by (auto simp: uread_append)
    then have "grep pattern (tl hs) r (drop (length ?c) inp) = unlines (filter (match pattern) ls2)"
      using "1.IH"[OF refl False *(4)[symmetric]] "1.prems"(3) by auto
    then show ?thesis
      using *(1,4) False by (subst grep.simps) (simp add: Let_def)
  qed
qed

text \<open>A line that does not fit the buffer makes the next \<open>read\<close> ask for nothing, which looks like the end of the file.\<close>

lemma grep_full_gen:
  assumes "clean (take (BUFSZ - 1) (b @ inp))" "length b \<le> BUFSZ - 1"
  shows "grep pattern hs b inp = []"
  using assms
proof (induction pattern hs b inp rule: grep.induct)
  case (1 pattern hs b inp)
  let ?c = "uread hs (BUFSZ - length b - 1) inp"
  have len: "length (b @ ?c) \<le> BUFSZ - 1"
    using "1.prems"(2) length_uread[of hs "BUFSZ - length b - 1" inp] by simp
  have eq: "(b @ ?c) @ drop (length ?c) inp = b @ inp"
    by (simp add: uread_append)
  have "take (BUFSZ - 1) (b @ inp) = (b @ ?c) @ take (BUFSZ - 1 - length (b @ ?c)) (drop (length ?c) inp)"
    unfolding eq[symmetric] take_append using len by simp
  then have cl: "clean (b @ ?c)"
    using "1.prems"(1) by (simp add: clean_def)
  show ?case
  proof (cases "?c = []")
    case True
    then show ?thesis by (subst grep.simps) simp
  next
    case False
    have "grep pattern (tl hs) (b @ ?c) (drop (length ?c) inp) = []"
      using "1.prems"(1) len unfolding eq[symmetric] by (rule "1.IH"[OF refl False scan_none[OF cl, symmetric] refl])
    then show ?thesis
      using False by (subst grep.simps) (simp add: Let_def scan_none[OF cl, simplified])
  qed
qed

lemma grep_long_line: "clean l \<Longrightarrow> BUFSZ - 1 \<le> length l \<Longrightarrow> grep pattern hs [] (l @ s) = []"
  by (rule grep_full_gen) (auto simp: clean_def dest: in_set_takeD)

section \<open>Properties\<close>

text \<open>
  C22: the matcher implements the pattern language.  A line matches when some part of it, or with \<^verbatim>\<open>^\<close> some part
  at its start, is a word of the language that the operators denote, and with \<^verbatim>\<open>$\<close> reaches to its end.
\<close>

theorem match_regex:
  "match re tx \<longleftrightarrow>
    (if re \<noteq> [] \<and> hd re = CHR ''^'' then \<exists>u v. tx = u @ v \<and> denotes (tl re) u v
     else \<exists>p u v. tx = p @ u @ v \<and> denotes re u v)"
  by (simp add: match_def matchhere_denotes match_any_denotes)

text \<open>
  C23: \<open>grep\<close> writes the matching lines.  In whatever pieces the file arrives, the lines that match are written, in
  order and each once, when every line fits the buffer; text behind the last newline is not looked at.
\<close>

theorem grep_lines:
  assumes "\<forall>l\<in>set ls. clean l \<and> length l < BUFSZ - 1" "clean rest"
  shows "grep pattern hs [] (unlines ls @ rest) = unlines (filter (match pattern) ls)"
  using grep_lines_gen[of "[]" "unlines ls @ rest" ls rest pattern hs] assms by (simp add: clean_def)

theorem grep_lines_witness:
  "grep ''a.*c'' [3, 1, 2] [] (unlines [''xabc'', ''ab''] @ ''ac'') = unlines [''xabc'']"
proof -
  have a: "\<forall>l\<in>set [''xabc'', ''ab'']. clean l \<and> length l < BUFSZ - 1" "clean ''ac''"
    by (simp_all add: clean_def NL_def NUL_def BUFSZ_def)
  have m: "filter (match ''a.*c'') [''xabc'', ''ab''] = [''xabc'']"
    by code_simp
  show ?thesis
    using grep_lines[OF a, of "''a.*c''" "[3, 1, 2]"] unfolding m .
qed

end
