(* ===== verification/Spec2Isabelle.thy ===== *)
theory Spec2Isabelle
  imports VmProps FsProps IoProps Sched Grep Printf
begin

text \<open>
  A verification development for the xv6 teaching operating system (RISC-V).
\<close>

end
